(* ===== verification/Prelude.thy ===== *)
theory Prelude
  imports Main "HOL-Library.Word"
begin

text \<open>
  Shared vocabulary of the development: the machine types of \<^verbatim>\<open>types.h\<close>, the outcome of
  kernel code that may panic or go to sleep, table scans (the \<^verbatim>\<open>for\<close> loops that look for
  the first entry satisfying a test), wrap-around facts on 32-bit counters and the
  page-rounding macros of \<^verbatim>\<open>mmu.h\<close>. The collections \<open>run_simps\<close>, \<open>scan_simps\<close> and
  \<open>page_simps\<close> gather the facts that the component theories rewrite with.
\<close>

unbundle bit_operations_syntax

named_theorems run_simps
named_theorems scan_simps
named_theorems page_simps

section \<open>Machine types\<close>

type_synonym u8 = "8 word"
type_synonym u16 = "16 word"
type_synonym u32 = "32 word"

section \<open>Outcomes of kernel code\<close>

text \<open>
  The addresses the kernel sleeps on. Each constructor is the address of one kernel object;
  two channels are equal exactly when the addresses are.
\<close>

datatype chan =
    ChProc nat
  | ChTicks
  | ChLog
  | ChBuf nat
  | ChInode nat
  | ChPipeRead nat
  | ChPipeWrite nat
  | ChMutexName nat
  | ChMutex nat
  | ChInput

text \<open>
  A piece of kernel code either completes, or stops: it panics with a message, it goes to sleep
  on a channel, it dereferences a null pointer, it
  indexes outside an array, or it spins for ever.
\<close>

datatype stop =
    Panic string
  | Sleep chan
  | NullDeref
  | OutOfBounds
  | Spin

type_synonym 'a outcome = "stop + 'a"

definition run :: "'a outcome \<Rightarrow> ('a \<Rightarrow> 'b outcome) \<Rightarrow> 'b outcome" where
  "run m f = (case m of Inl e \<Rightarrow> Inl e | Inr x \<Rightarrow> f x)"

lemma run_Inl [simp, run_simps]: "run (Inl e) f = Inl e"
  by (simp add: run_def)

lemma run_Inr [simp, run_simps]: "run (Inr x) f = f x"
  by (simp add: run_def)

lemma run_eq_Inr_iff [simp, run_simps]:
  "run m f = Inr y \<longleftrightarrow> (\<exists>x. m = Inr x \<and> f x = Inr y)"
  by (cases m) auto

lemma run_eq_Inl_iff [run_simps]:
  "run m f = Inl e \<longleftrightarrow> m = Inl e \<or> (\<exists>x. m = Inr x \<and> f x = Inl e)"
  by (cases m) auto

lemma run_assoc: "run (run m f) g = run m (\<lambda>x. run (f x) g)"
  by (cases m) auto

lemma run_split:
  "P (run m f) \<longleftrightarrow> (\<forall>e. m = Inl e \<longrightarrow> P (Inl e)) \<and> (\<forall>x. m = Inr x \<longrightarrow> P (f x))"
  by (cases m) auto

lemma run_cong [fundef_cong]:
  "m = m' \<Longrightarrow> (\<And>x. m' = Inr x \<Longrightarrow> f x = f' x) \<Longrightarrow> run m f = run m' f'"
  by (cases m') auto

section \<open>Table scans\<close>

text \<open>
  \<^verbatim>\<open>for (i = 0; i < N; i++) if (test(tab[i])) return i; return -1;\<close> the index of the first
  entry that passes the test.
\<close>

primrec scan :: "('a \<Rightarrow> bool) \<Rightarrow> 'a list \<Rightarrow> nat option" where
  "scan P [] = None"
| "scan P (x # xs) = (if P x then Some 0 else map_option Suc (scan P xs))"

lemma scan_None_iff [scan_simps]: "scan P xs = None \<longleftrightarrow> (\<forall>x \<in> set xs. \<not> P x)"
  by (induction xs) auto

lemma scan_Some_iff [scan_simps]:
  "scan P xs = Some i \<longleftrightarrow> i < length xs \<and> P (xs ! i) \<and> (\<forall>j < i. \<not> P (xs ! j))"
proof (induction xs arbitrary: i)
  case Nil
  then show ?case by simp
next
  case (Cons x xs)
  then show ?case
    by (cases i) (auto simp: less_Suc_eq_0_disj)
qed

lemma scan_SomeD:
  assumes "scan P xs = Some i"
  shows "i < length xs" "P (xs ! i)"
  using assms by (simp_all add: scan_Some_iff)

lemma scan_ex: "j < length xs \<Longrightarrow> P (xs ! j) \<Longrightarrow> \<exists>i \<le> j. scan P xs = Some i"
proof (induction xs arbitrary: j)
  case Nil
  then show ?case by simp
next
  case (Cons x xs)
  then show ?case by (cases j) fastforce+
qed

section \<open>Lists as arrays\<close>

lemma set_update_subsetD: "x \<in> set (xs[i := v]) \<Longrightarrow> x = v \<or> x \<in> set xs"
  by (meson insertE set_update_subset_insert subsetD)

lemma nth_update_cases:
  "i < length xs \<Longrightarrow> xs[j := v] ! i = (if i = j then v else xs ! i)"
  by (cases "i = j") auto

section \<open>Wrap-around counters\<close>

text \<open>
  Ring buffers keep two free-running 32-bit counters and index the buffer with the counter modulo
  its size, a power of two. The distance of the counters is their difference as words, whatever the
  number of times they have wrapped.
\<close>

lemma unat_u32_less: "unat (a :: u32) < 2 ^ 32"
  using unsigned_less [of a] by simp

lemma unat_add_1_small:
  "unat (x :: u32) < n \<Longrightarrow> n < 2 ^ 32 \<Longrightarrow> unat (x + 1) = Suc (unat x)"
  by (simp add: unat_word_ariths)

lemma word_diff_Suc_left: "(w + 1) - (r :: u32) = (w - r) + 1"
  by simp

lemma word_diff_Suc_right: "w - (r + 1) = (w - r) - (1 :: u32)"
  by simp

lemma unat_sub_1: "x \<noteq> 0 \<Longrightarrow> unat (x - (1 :: u32)) = unat x - 1"
  by (metis unat_minus_one)

lemma unat_mod_pow2_add:
  assumes "k \<le> 32"
  shows "unat (a + b :: u32) mod 2 ^ k = (unat a + unat b) mod 2 ^ k"
proof -
  have d: "(2 :: nat) ^ k dvd 2 ^ 32"
    using assms by (rule le_imp_power_dvd)
  have "unat (a + b) mod 2 ^ k = ((unat a + unat b) mod 2 ^ 32) mod 2 ^ k"
    by (simp add: unat_word_ariths)
  also have "\<dots> = (unat a + unat b) mod 2 ^ k"
    by (rule mod_mod_cancel [OF d])
  finally show ?thesis .
qed

section \<open>Pages\<close>

definition PGSIZE :: nat where "PGSIZE = 4096"

text \<open>\<^verbatim>\<open>PGROUNDUP\<close> and \<^verbatim>\<open>PGROUNDDOWN\<close>, on 32-bit words as the macros compute.\<close>

definition PGROUNDDOWN :: "u32 \<Rightarrow> u32" where
  "PGROUNDDOWN a = a AND NOT (4096 - 1)"

definition PGROUNDUP :: "u32 \<Rightarrow> u32" where
  "PGROUNDUP sz = (sz + 4096 - 1) AND NOT (4096 - 1)"

lemma and_not_mask_eq: "a AND NOT (mask n) = push_bit n (drop_bit n (a :: 'a :: len word))"
  by (rule bit_word_eqI) (auto simp: bit_simps)

lemma unat_and_not_mask12: "unat (a AND - 4096 :: u32) = unat a div 4096 * 4096"
proof -
  have m: "(- 4096 :: u32) = NOT (mask 12)"
    by (simp add: mask_eq_exp_minus_1)
  have "a AND NOT (mask 12) = push_bit 12 (drop_bit 12 a)"
    by (rule and_not_mask_eq)
  then have "unat (a AND - 4096) = unat (push_bit 12 (drop_bit 12 a))"
    by (simp only: m)
  also have "\<dots> = unat a div 4096 * 4096"
  proof -
    have b: "unat (drop_bit 12 a) = unat a div 4096"
      by (simp add: unat_drop_bit_eq drop_bit_eq_div [where a = "unat a"])
    have "unat a div 4096 * 4096 < 2 ^ 32"
      using unat_u32_less [of a] by simp
    then show ?thesis
      by (simp add: push_bit_eq_mult unat_word_ariths b mult.commute)
  qed
  finally show ?thesis .
qed

lemma unat_PGROUNDDOWN [page_simps]: "unat (PGROUNDDOWN a) = unat a div 4096 * 4096"
  by (simp add: PGROUNDDOWN_def unat_and_not_mask12)

lemma unat_PGROUNDUP [page_simps]:
  assumes "unat sz < 2 ^ 32 - 4096"
  shows "unat (PGROUNDUP sz) = (unat sz + 4095) div 4096 * 4096"
proof -
  have "unat (sz + 4096 - 1) = unat sz + 4095"
    using assms by (simp add: unat_word_ariths)
  then show ?thesis
    by (simp add: PGROUNDUP_def unat_and_not_mask12)
qed

lemma sint_small: "0 \<le> n \<Longrightarrow> n < 2 ^ 31 \<Longrightarrow> sint (word_of_int n :: u32) = n"
  by (simp add: signed_of_int signed_take_bit_int_eq_self)

end
