(* ===== verification/CString.thy ===== *)
theory CString
  imports Prelude
begin

text \<open>
  The byte and string routines of the kernel (\<^verbatim>\<open>string.c\<close>) and of the user library
  (\<^verbatim>\<open>ulib.c\<close>). The \<^verbatim>\<open>mem*\<close> routines act on a byte memory, so that overlapping arguments are
  represented; the \<^verbatim>\<open>str*\<close> routines read their source through a view \<open>nat \<Rightarrow> u8\<close> (the bytes from
  the pointer upwards) and write a destination array. Every routine returns its destination
  pointer in C; the models return the new contents. The lemmas give each routine's effect:
  overlap-safety of \<^verbatim>\<open>memmove\<close>, equivalence of the word-wise and byte-wise \<^verbatim>\<open>memset\<close>,
  what a zero result of a comparison means, termination of copies, and how much is read.
\<close>

type_synonym bytes = "nat \<Rightarrow> u8"
type_synonym cstr = "nat \<Rightarrow> u8"

section \<open>Views of strings\<close>

text \<open>The bytes of a string literal, followed by NUL.\<close>

definition lit :: "string \<Rightarrow> cstr" where
  "lit s i = (if i < length s then of_char (s ! i) else 0)"

text \<open>A list of bytes, followed by NUL.\<close>

definition cstr_of :: "u8 list \<Rightarrow> cstr" where
  "cstr_of xs i = (if i < length xs then xs ! i else 0)"

text \<open>The string a view denotes when at most \<open>n\<close> bytes are looked at.\<close>

definition str_upto :: "nat \<Rightarrow> cstr \<Rightarrow> u8 list" where
  "str_upto n p = takeWhile (\<lambda>c. c \<noteq> 0) (map p [0..<n])"

text \<open>\<open>nul_at p k\<close>: the string at \<open>p\<close> is terminated and has length \<open>k\<close>.\<close>

definition nul_at :: "cstr \<Rightarrow> nat \<Rightarrow> bool" where
  "nul_at p k \<longleftrightarrow> p k = 0 \<and> (\<forall>i < k. p i \<noteq> 0)"

lemma nul_at_unique: "nul_at p j \<Longrightarrow> nul_at p k \<Longrightarrow> j = k"
  by (metis nat_neq_iff nul_at_def)

lemma nul_at_ex: "p k = 0 \<Longrightarrow> \<exists>j \<le> k. nul_at p j"
  by (rule exI [of _ "LEAST j. p j = 0"])
    (auto simp: nul_at_def intro: LeastI Least_le dest: not_less_Least)

lemma length_str_upto: "length (str_upto n p) \<le> n"
  unfolding str_upto_def by (metis diff_zero length_map length_takeWhile_le length_upt)

lemma str_upto_nul_at:
  assumes "nul_at p k" "k < n"
  shows "str_upto n p = map p [0..<k]"
proof -
  have "[0..<n] = [0..<k] @ [k..<n]"
    using assms(2) by (metis le_add_diff_inverse less_imp_le upt_add_eq_append zero_le)
  moreover have "[k..<n] = k # [Suc k..<n]"
    using assms(2) by (rule upt_conv_Cons)
  ultimately show ?thesis
    using assms(1) by (simp add: str_upto_def nul_at_def takeWhile_append)
qed

section \<open>string.c\<close>

subsection \<open>memset\<close>

text \<open>\<^verbatim>\<open>stosb\<close> and \<^verbatim>\<open>stosl\<close> (\<^verbatim>\<open>x86.h\<close>): store a byte, or a little-endian word, \<open>n\<close> times.\<close>

primrec stosb :: "bytes \<Rightarrow> nat \<Rightarrow> u8 \<Rightarrow> nat \<Rightarrow> bytes" where
  "stosb m a c 0 = m"
| "stosb m a c (Suc n) = stosb (m(a := c)) (Suc a) c n"

definition store_le32 :: "bytes \<Rightarrow> nat \<Rightarrow> u32 \<Rightarrow> bytes" where
  "store_le32 m a w =
     m(a := ucast w, a + 1 := ucast (drop_bit 8 w), a + 2 := ucast (drop_bit 16 w),
       a + 3 := ucast (drop_bit 24 w))"

primrec stosl :: "bytes \<Rightarrow> nat \<Rightarrow> u32 \<Rightarrow> nat \<Rightarrow> bytes" where
  "stosl m a w 0 = m"
| "stosl m a w (Suc n) = stosl (store_le32 m a w) (a + 4) w n"

definition memset :: "bytes \<Rightarrow> nat \<Rightarrow> u32 \<Rightarrow> nat \<Rightarrow> bytes" where
  "memset m dst c n =
     (if dst mod 4 = 0 \<and> n mod 4 = 0
      then let c = c AND 0xFF
           in stosl m dst (push_bit 24 c OR push_bit 16 c OR push_bit 8 c OR c) (n div 4)
      else stosb m dst (ucast c) n)"

lemma stosb_eq: "stosb m a c n = (\<lambda>x. if a \<le> x \<and> x < a + n then c else m x)"
  by (induction n arbitrary: m a) (auto simp: fun_eq_iff)

lemma splat_bytes:
  fixes c :: u32
  defines "d \<equiv> c AND 0xFF"
  defines "w \<equiv> push_bit 24 d OR push_bit 16 d OR push_bit 8 d OR d"
  shows "ucast w = (ucast c :: u8)" "ucast (drop_bit 8 w) = (ucast c :: u8)"
    "ucast (drop_bit 16 w) = (ucast c :: u8)" "ucast (drop_bit 24 w) = (ucast c :: u8)"
proof -
  have m: "(0xFF :: u32) = mask 8"
    by (simp add: mask_eq_exp_minus_1)
  show "ucast w = (ucast c :: u8)" "ucast (drop_bit 8 w) = (ucast c :: u8)"
    "ucast (drop_bit 16 w) = (ucast c :: u8)" "ucast (drop_bit 24 w) = (ucast c :: u8)"
    unfolding w_def d_def m by (rule bit_word_eqI, auto simp: bit_simps)+
qed

lemma stosl_splat:
  assumes "ucast w = (c :: u8)" "ucast (drop_bit 8 w) = c" "ucast (drop_bit 16 w) = c"
    "ucast (drop_bit 24 w) = c"
  shows "stosl m a w n = stosb m a c (4 * n)"
proof (induction n arbitrary: m a)
  case 0
  then show ?case by simp
next
  case (Suc n)
  have "stosl m a w (Suc n) = stosb (store_le32 m a w) (a + 4) c (4 * n)"
    using Suc by simp
  also have "\<dots> = stosb m a c (4 * Suc n)"
    unfolding stosb_eq by (auto simp: fun_eq_iff store_le32_def assms)
  finally show ?case .
qed

lemma memset_eq: "memset m dst c n = (\<lambda>x. if dst \<le> x \<and> x < dst + n then ucast c else m x)"
proof (cases "dst mod 4 = 0 \<and> n mod 4 = 0")
  case True
  then have n: "4 * (n div 4) = n" by presburger
  have "memset m dst c n = stosb m dst (ucast c) (4 * (n div 4))"
    using True unfolding memset_def Let_def by (simp only: stosl_splat [OF splat_bytes] if_True simp_thms)
  then show ?thesis by (simp add: n stosb_eq)
next
  case False
  then show ?thesis by (auto simp: memset_def stosb_eq)
qed

subsection \<open>memcmp and memmove\<close>

primrec memcmp :: "bytes \<Rightarrow> nat \<Rightarrow> nat \<Rightarrow> nat \<Rightarrow> int" where
  "memcmp m s1 s2 0 = 0"
| "memcmp m s1 s2 (Suc n) =
     (if m s1 \<noteq> m s2 then uint (m s1) - uint (m s2) else memcmp m (Suc s1) (Suc s2) n)"

primrec copy_up :: "bytes \<Rightarrow> nat \<Rightarrow> nat \<Rightarrow> nat \<Rightarrow> bytes" where
  "copy_up m d s 0 = m"
| "copy_up m d s (Suc n) = copy_up (m(d := m s)) (Suc d) (Suc s) n"

primrec copy_down :: "bytes \<Rightarrow> nat \<Rightarrow> nat \<Rightarrow> nat \<Rightarrow> bytes" where
  "copy_down m d s 0 = m"
| "copy_down m d s (Suc n) = copy_down (m(d - 1 := m (s - 1))) (d - 1) (s - 1) n"

definition memmove :: "bytes \<Rightarrow> nat \<Rightarrow> nat \<Rightarrow> nat \<Rightarrow> bytes" where
  "memmove m dst src n =
     (if src < dst \<and> src + n > dst then copy_down m (dst + n) (src + n) n
      else copy_up m dst src n)"

lemma copy_up_eq:
  "d \<le> s \<or> s + n \<le> d \<Longrightarrow>
   copy_up m d s n = (\<lambda>x. if d \<le> x \<and> x < d + n then m (s + (x - d)) else m x)"
proof (induction n arbitrary: m d s)
  case 0
  then show ?case by (auto simp: fun_eq_iff)
next
  case (Suc n)
  then have "Suc d \<le> Suc s \<or> Suc s + n \<le> Suc d" by auto
  from Suc.IH [OF this, of "m(d := m s)"]
  have "copy_up m d s (Suc n) = (\<lambda>x. if Suc d \<le> x \<and> x < Suc d + n
    then (m(d := m s)) (Suc s + (x - Suc d)) else (m(d := m s)) x)"
    by (simp only: copy_up.simps)
  also have "\<dots> = (\<lambda>x. if d \<le> x \<and> x < d + Suc n then m (s + (x - d)) else m x)"
    using Suc.prems by (auto simp: fun_eq_iff Suc_diff_Suc)
  finally show ?case .
qed

lemma copy_down_eq:
  "s \<le> d \<Longrightarrow>
   copy_down m (d + n) (s + n) n = (\<lambda>x. if d \<le> x \<and> x < d + n then m (s + (x - d)) else m x)"
proof (induction n arbitrary: m)
  case 0
  then show ?case by (auto simp: fun_eq_iff)
next
  case (Suc n)
  have "copy_down m (d + Suc n) (s + Suc n) (Suc n) =
    copy_down (m(d + n := m (s + n))) (d + n) (s + n) n"
    by simp
  also have "\<dots> = (\<lambda>x. if d \<le> x \<and> x < d + n then (m(d + n := m (s + n))) (s + (x - d))
    else (m(d + n := m (s + n))) x)"
    using Suc by simp
  also have "\<dots> = (\<lambda>x. if d \<le> x \<and> x < d + Suc n then m (s + (x - d)) else m x)"
    using Suc.prems by (auto simp: fun_eq_iff)
  finally show ?case .
qed

lemma memcmp_zero_iff: "memcmp m a b n = 0 \<longleftrightarrow> (\<forall>i < n. m (a + i) = m (b + i))"
proof (induction n arbitrary: a b)
  case 0
  then show ?case by simp
next
  case (Suc n)
  show ?case
  proof (cases "m a = m b")
    case True
    then show ?thesis
      using Suc [of "Suc a" "Suc b"] by (auto simp: less_Suc_eq_0_disj)
  next
    case False
    then have "uint (m a) - uint (m b) \<noteq> 0" by (simp add: word_uint_eq_iff)
    with False show ?thesis by (auto intro: exI [of _ 0])
  qed
qed

subsection \<open>strncmp, strncpy, safestrcpy, strlen\<close>

primrec strncmp_from :: "cstr \<Rightarrow> cstr \<Rightarrow> nat \<Rightarrow> nat \<Rightarrow> int" where
  "strncmp_from p q i 0 = 0"
| "strncmp_from p q i (Suc n) =
     (if p i \<noteq> 0 \<and> p i = q i then strncmp_from p q (Suc i) n
      else uint (p i) - uint (q i))"

definition strncmp :: "cstr \<Rightarrow> cstr \<Rightarrow> nat \<Rightarrow> int" where
  "strncmp p q n = strncmp_from p q 0 n"

text \<open>\<^verbatim>\<open>while (n-- > 0 && (*s++ = *t++) != 0);\<close>: the first loop stops after the NUL it has copied.\<close>

primrec strncpy_fill :: "u8 list \<Rightarrow> nat \<Rightarrow> nat \<Rightarrow> u8 list" where
  "strncpy_fill s i 0 = s"
| "strncpy_fill s i (Suc n) = strncpy_fill (s[i := 0]) (Suc i) n"

primrec strncpy_from :: "u8 list \<Rightarrow> cstr \<Rightarrow> nat \<Rightarrow> nat \<Rightarrow> u8 list" where
  "strncpy_from s t i 0 = s"
| "strncpy_from s t i (Suc n) =
     (let s = s[i := t i]
      in if t i \<noteq> 0 then strncpy_from s t (Suc i) n else strncpy_fill s (Suc i) n)"

definition strncpy :: "u8 list \<Rightarrow> cstr \<Rightarrow> nat \<Rightarrow> u8 list" where
  "strncpy s t n = strncpy_from s t 0 n"

text \<open>\<^verbatim>\<open>while (--n > 0 && (*s++ = *t++) != 0); *s = 0;\<close>\<close>

primrec safestrcpy_from :: "u8 list \<Rightarrow> cstr \<Rightarrow> nat \<Rightarrow> nat \<Rightarrow> u8 list" where
  "safestrcpy_from s t i 0 = s[i := 0]"
| "safestrcpy_from s t i (Suc n) =
     (let s = s[i := t i]
      in if t i \<noteq> 0 then safestrcpy_from s t (Suc i) n else s[Suc i := 0])"

definition safestrcpy :: "u8 list \<Rightarrow> cstr \<Rightarrow> int \<Rightarrow> u8 list" where
  "safestrcpy s t n = (if n \<le> 0 then s else safestrcpy_from s t 0 (nat n - 1))"

text \<open>\<^verbatim>\<open>for (n = 0; s[n]; n++);\<close> does not return on a string with no NUL.\<close>

partial_function (option) strlen_from :: "cstr \<Rightarrow> nat \<Rightarrow> nat option" where
  "strlen_from s n = (if s n \<noteq> 0 then strlen_from s (Suc n) else Some n)"

definition strlen :: "cstr \<Rightarrow> nat option" where
  "strlen s = strlen_from s 0"

lemma strncmp_from_zero_iff:
  "strncmp_from p q i n = 0 \<longleftrightarrow>
   takeWhile (\<lambda>c. c \<noteq> 0) (map p [i..<i + n]) = takeWhile (\<lambda>c. c \<noteq> 0) (map q [i..<i + n])"
proof (induction n arbitrary: i)
  case 0
  then show ?case by simp
next
  case (Suc n)
  have u: "[i..<i + Suc n] = i # [Suc i..<Suc i + n]"
    by (simp add: upt_conv_Cons)
  have "p i \<noteq> q i \<Longrightarrow> uint (p i) - uint (q i) \<noteq> 0"
    by (simp add: word_uint_eq_iff)
  then show ?case
    using Suc [of "Suc i"] unfolding u by auto
qed

lemma strncmp_zero_iff: "strncmp p q n = 0 \<longleftrightarrow> str_upto n p = str_upto n q"
  by (simp add: strncmp_def str_upto_def strncmp_from_zero_iff)

lemma strncmp_refl [simp]: "strncmp p p n = 0"
  by (simp add: strncmp_zero_iff)

lemma length_strncpy_fill [simp]: "length (strncpy_fill s i n) = length s"
  by (induction n arbitrary: s i) auto

lemma nth_strncpy_fill:
  "k < length s \<Longrightarrow> strncpy_fill s i n ! k = (if i \<le> k \<and> k < i + n then 0 else s ! k)"
proof (induction n arbitrary: s i)
  case 0
  then show ?case by auto
next
  case (Suc n)
  then show ?case
    using Suc.IH [of "s[i := 0]" "Suc i"] by (auto simp: nth_update_cases)
qed

lemma length_strncpy_from [simp]: "length (strncpy_from s t i n) = length s"
  by (induction n arbitrary: s i) (auto simp: Let_def)

lemma length_strncpy [simp]: "length (strncpy s t n) = length s"
  by (simp add: strncpy_def)

text \<open>
  What \<^verbatim>\<open>strncpy\<close> leaves in the destination: the bytes of the source up to its NUL, then zeros up
  to \<open>n\<close>; a source of \<open>n\<close> or more bytes leaves no terminator.
\<close>

lemma nth_strncpy_from:
  "k < length s \<Longrightarrow>
   strncpy_from s t i n ! k =
     (if i \<le> k \<and> k < i + n then (if \<exists>j. i \<le> j \<and> j < k \<and> t j = 0 then 0 else t k) else s ! k)"
proof (induction n arbitrary: s i)
  case 0
  then show ?case by auto
next
  case (Suc n)
  show ?case
  proof (cases "t i = 0")
    case True
    then have "strncpy_from s t i (Suc n) ! k = strncpy_fill (s[i := 0]) (Suc i) n ! k"
      by simp
    moreover have "i < k \<Longrightarrow> \<exists>j. i \<le> j \<and> j < k \<and> t j = 0"
      using True by blast
    ultimately show ?thesis
      using True Suc.prems by (auto simp: nth_strncpy_fill nth_update_cases)
  next
    case False
    have "(\<exists>j. i \<le> j \<and> j < k \<and> t j = 0) \<longleftrightarrow> (\<exists>j. Suc i \<le> j \<and> j < k \<and> t j = 0)"
      using False by (metis Suc_leD Suc_leI le_eq_less_or_eq)
    with False Suc.prems Suc.IH [of "s[i := t i]" "Suc i"] show ?thesis
      by (auto simp: nth_update_cases le_eq_less_or_eq)
  qed
qed

lemma nth_strncpy:
  "k < length s \<Longrightarrow>
   strncpy s t n ! k = (if k < n then (if \<exists>j < k. t j = 0 then 0 else t k) else s ! k)"
  by (simp add: strncpy_def nth_strncpy_from)

lemma str_upto_cong: "(\<And>i. i < n \<Longrightarrow> p i = q i) \<Longrightarrow> str_upto n p = str_upto n q"
proof -
  assume "\<And>i. i < n \<Longrightarrow> p i = q i"
  then have "map p [0..<n] = map q [0..<n]" by simp
  then show ?thesis by (simp only: str_upto_def)
qed

lemma str_upto_cut:
  "str_upto n (\<lambda>k. if \<exists>j < k. t j = 0 then 0 else t k) = str_upto n t"
proof (cases "\<exists>k < n. t k = 0")
  case True
  then obtain k where k: "nul_at t k" "k < n"
    by (metis nul_at_ex order_le_less_trans)
  let ?c = "\<lambda>k. if \<exists>j < k. t j = 0 then 0 else t k"
  have "nul_at ?c k"
    using k(1) by (auto simp: nul_at_def)
  from str_upto_nul_at [OF this k(2)] str_upto_nul_at [OF k] k(1) show ?thesis
    by (auto simp: nul_at_def)
next
  case False
  then show ?thesis
    by (intro str_upto_cong) (metis order.strict_trans)
qed

lemma str_upto_strncpy:
  assumes "n \<le> length s"
  shows "str_upto n ((!) (strncpy s t n)) = str_upto n t"
proof -
  have "str_upto n ((!) (strncpy s t n)) = str_upto n (\<lambda>k. if \<exists>j < k. t j = 0 then 0 else t k)"
    using assms by (intro str_upto_cong) (simp add: nth_strncpy)
  then show ?thesis by (simp add: str_upto_cut)
qed

lemma length_safestrcpy_from [simp]: "length (safestrcpy_from s t i n) = length s"
  by (induction n arbitrary: s i) (auto simp: Let_def)

lemma length_safestrcpy [simp]: "length (safestrcpy s t n) = length s"
  by (simp add: safestrcpy_def)

lemma nth_safestrcpy_from_below: "k < i \<Longrightarrow> safestrcpy_from s t i n ! k = s ! k"
  by (induction n arbitrary: s i) (auto simp: Let_def)

lemma nth_safestrcpy_from:
  "i + n < length s \<Longrightarrow> i \<le> k \<Longrightarrow> k \<le> i + n \<Longrightarrow> \<forall>j. i \<le> j \<and> j < k \<longrightarrow> t j \<noteq> 0 \<Longrightarrow>
   safestrcpy_from s t i n ! k = (if k = i + n then 0 else t k)"
proof (induction n arbitrary: s i)
  case 0
  then show ?case by simp
next
  case (Suc n)
  show ?case
  proof (cases "k = i")
    case True
    with Suc.prems show ?thesis
      by (simp add: Let_def nth_safestrcpy_from_below)
  next
    case False
    with Suc.prems have "t i \<noteq> 0" "Suc i \<le> k" by auto
    with Suc.prems Suc.IH [of "Suc i" "s[i := t i]"] show ?thesis
      by auto
  qed
qed

lemma nth_safestrcpy:
  assumes "0 < n" "nat n \<le> length s" "k < nat n" "\<forall>j < k. t j \<noteq> 0"
  shows "safestrcpy s t n ! k = (if k = nat n - 1 then 0 else t k)"
  using assms nth_safestrcpy_from [of 0 "nat n - 1" s k t] by (simp add: safestrcpy_def)

lemma safestrcpy_nul_at:
  assumes "0 < n" "nat n \<le> length s"
  shows "nul_at ((!) (safestrcpy s t n)) (length (str_upto (nat n - 1) t))"
    and "str_upto (nat n) ((!) (safestrcpy s t n)) = str_upto (nat n - 1) t"
proof -
  let ?r = "(!) (safestrcpy s t n)" and ?N = "nat n - 1"
  obtain k where k: "k \<le> ?N" "\<forall>j < k. t j \<noteq> 0" "k = ?N \<or> t k = 0"
  proof (cases "\<exists>k < ?N. t k = 0")
    case True
    then show ?thesis
      using that nul_at_ex [of t] unfolding nul_at_def by (meson order.trans less_imp_le)
  next
    case False
    then show ?thesis using that [of ?N] by blast
  qed
  have "\<And>j. j \<le> k \<Longrightarrow> ?r j = (if j = ?N then 0 else t j)"
    using assms k nth_safestrcpy [of n s _ t] by simp
  then have r: "nul_at ?r k" "map ?r [0..<k] = map t [0..<k]"
    using k by (auto simp: nul_at_def)
  have t: "str_upto ?N t = map t [0..<k]"
  proof (cases "k = ?N")
    case True
    have "takeWhile (\<lambda>c. c \<noteq> 0) (map t [0..<k]) = map t [0..<k]"
      using k(2) by (intro takeWhile_eq_all_conv [THEN iffD2]) auto
    with True show ?thesis by (simp add: str_upto_def)
  next
    case False
    with k show ?thesis
      by (intro str_upto_nul_at) (auto simp: nul_at_def)
  qed
  have "k < nat n" using k(1) assms(1) by linarith
  with r(1) have "str_upto (nat n) ?r = map ?r [0..<k]"
    by (rule str_upto_nul_at)
  with r t show "nul_at ?r (length (str_upto ?N t))" "str_upto (nat n) ?r = str_upto ?N t"
    by simp_all
qed

lemma strlen_from_nul: "nul_at s k \<Longrightarrow> n \<le> k \<Longrightarrow> strlen_from s n = Some k"
proof (induction "k - n" arbitrary: n)
  case 0
  then show ?case by (simp add: strlen_from.simps nul_at_def)
next
  case (Suc d)
  then have "s n \<noteq> 0" by (auto simp: nul_at_def)
  with Suc show ?case by (simp add: strlen_from.simps [of s n])
qed

lemma strlen_nul_at: "nul_at s k \<Longrightarrow> strlen s = Some k"
  by (simp add: strlen_def strlen_from_nul)

section \<open>ulib.c\<close>

text \<open>\<^verbatim>\<open>while ((*s++ = *t++) != 0);\<close> the bytes stored are returned, terminator included.\<close>

partial_function (option) strcpy_from :: "u8 list \<Rightarrow> cstr \<Rightarrow> nat \<Rightarrow> u8 list option" where
  "strcpy_from s t i =
     (let s = s[i := t i] in if t i \<noteq> 0 then strcpy_from s t (Suc i) else Some s)"

definition strcpy :: "u8 list \<Rightarrow> cstr \<Rightarrow> u8 list option" where
  "strcpy s t = strcpy_from s t 0"

partial_function (option) strcmp_from :: "cstr \<Rightarrow> cstr \<Rightarrow> nat \<Rightarrow> int option" where
  "strcmp_from p q i =
     (if p i \<noteq> 0 \<and> p i = q i then strcmp_from p q (Suc i)
      else Some (uint (p i) - uint (q i)))"

definition strcmp :: "cstr \<Rightarrow> cstr \<Rightarrow> int option" where
  "strcmp p q = strcmp_from p q 0"

text \<open>\<^verbatim>\<open>strchr\<close>: the offset of the first \<open>c\<close> before the NUL, or 0 (here \<open>Some None\<close>).\<close>

partial_function (option) strchr_from :: "cstr \<Rightarrow> u8 \<Rightarrow> nat \<Rightarrow> nat option option" where
  "strchr_from s c i =
     (if s i \<noteq> 0 then (if s i = c then Some (Some i) else strchr_from s c (Suc i))
      else Some None)"

definition strchr :: "cstr \<Rightarrow> u8 \<Rightarrow> nat option option" where
  "strchr s c = strchr_from s c 0"

definition is_digit :: "u8 \<Rightarrow> bool" where
  "is_digit c \<longleftrightarrow> 48 \<le> c \<and> c \<le> 57"

text \<open>\<^verbatim>\<open>n = n * 10 + *s++ - '0'\<close> on a 32-bit accumulator.\<close>

partial_function (option) atoi_from :: "cstr \<Rightarrow> nat \<Rightarrow> u32 \<Rightarrow> u32 option" where
  "atoi_from s i n =
     (if is_digit (s i) then atoi_from s (Suc i) (n * 10 + ucast (s i) - 48) else Some n)"

definition atoi :: "cstr \<Rightarrow> u32 option" where
  "atoi s = atoi_from s 0 0"

text \<open>The user library's \<^verbatim>\<open>memmove\<close> always copies upwards.\<close>

definition ulib_memmove :: "bytes \<Rightarrow> nat \<Rightarrow> nat \<Rightarrow> int \<Rightarrow> bytes" where
  "ulib_memmove m dst src n = copy_up m dst src (nat n)"

definition ulib_memset :: "bytes \<Rightarrow> nat \<Rightarrow> u32 \<Rightarrow> nat \<Rightarrow> bytes" where
  "ulib_memset m dst c n = stosb m dst (ucast c) n"

lemma strcpy_from_nul:
  "nul_at t k \<Longrightarrow> i \<le> k \<Longrightarrow> strcpy_from s t i = Some (fold (\<lambda>j s. s[j := t j]) [i..<Suc k] s)"
proof (induction "k - i" arbitrary: i s)
  case 0
  then show ?case by (simp add: strcpy_from.simps nul_at_def)
next
  case (Suc d)
  then have "t i \<noteq> 0" by (auto simp: nul_at_def)
  with Suc show ?case
    by (simp add: strcpy_from.simps [of s t i] upt_conv_Cons)
qed

lemma strcmp_from_returns:
  "nul_at p k \<Longrightarrow> i \<le> k \<Longrightarrow>
   \<exists>r. strcmp_from p q i = Some r \<and> (r = 0 \<longleftrightarrow> (\<forall>j. i \<le> j \<and> j \<le> k \<longrightarrow> p j = q j))"
proof (induction "k - i" arbitrary: i)
  case 0
  then have "i = k" by simp
  with 0 show ?case
    by (auto simp: strcmp_from.simps nul_at_def uint_0_iff)
next
  case (Suc d)
  then have i: "p i \<noteq> 0" "Suc i \<le> k" by (auto simp: nul_at_def)
  show ?case
  proof (cases "p i = q i")
    case True
    have "d = k - Suc i" using Suc.hyps(2) by simp
    from Suc.hyps(1) [OF this Suc.prems(1) i(2)] obtain r where "strcmp_from p q (Suc i) = Some r"
      "r = 0 \<longleftrightarrow> (\<forall>j. Suc i \<le> j \<and> j \<le> k \<longrightarrow> p j = q j)"
      by blast
    moreover have "(\<forall>j. Suc i \<le> j \<and> j \<le> k \<longrightarrow> p j = q j) \<longleftrightarrow> (\<forall>j. i \<le> j \<and> j \<le> k \<longrightarrow> p j = q j)"
      using True by (metis Suc_leD Suc_leI le_eq_less_or_eq)
    ultimately show ?thesis
      using True i by (simp add: strcmp_from.simps [of p q i])
  next
    case False
    then have "uint (p i) - uint (q i) \<noteq> 0" by (simp add: word_uint_eq_iff)
    with False i show ?thesis
      by (auto simp: strcmp_from.simps [of p q i])
  qed
qed

section \<open>Properties\<close>

text \<open>C17. \<^verbatim>\<open>memmove\<close> is correct for every pair of ranges, overlapping or not: afterwards the
  destination holds the bytes the source held before the call, and nothing else has changed.\<close>

theorem memmove_correct:
  "memmove m dst src n = (\<lambda>x. if dst \<le> x \<and> x < dst + n then m (src + (x - dst)) else m x)"
proof (cases "src < dst \<and> src + n > dst")
  case True
  then show ?thesis by (simp add: memmove_def copy_down_eq)
next
  case False
  then have "dst \<le> src \<or> src + n \<le> dst" by auto
  then have "copy_up m dst src n = (\<lambda>x. if dst \<le> x \<and> x < dst + n then m (src + (x - dst)) else m x)"
    by (rule copy_up_eq)
  with False show ?thesis by (simp only: memmove_def if_False)
qed

text \<open>C18. \<^verbatim>\<open>memset\<close> fills exactly the \<open>n\<close> bytes at \<open>dst\<close> with the low byte of \<open>c\<close>: the word-wise
  path taken for aligned arguments has the same effect as the byte-wise one.\<close>

theorem memset_word_path_correct:
  "memset m dst c n = stosb m dst (ucast c) n \<and>
   memset m dst c n = (\<lambda>x. if dst \<le> x \<and> x < dst + n then ucast c else m x)"
  by (simp add: memset_eq stosb_eq)

text \<open>C19. \<^verbatim>\<open>safestrcpy\<close> into an array of at least \<open>n > 0\<close> bytes always leaves a terminated string,
  of less than \<open>n\<close> bytes, and that string is the source cut after \<open>n - 1\<close> bytes.\<close>

theorem safestrcpy_terminates:
  assumes "0 < n" "nat n \<le> length s"
  shows "\<exists>k < nat n. nul_at ((!) (safestrcpy s t n)) k \<and> k = length (str_upto (nat n - 1) t) \<and>
    str_upto (nat n) ((!) (safestrcpy s t n)) = str_upto (nat n - 1) t"
proof -
  have "length (str_upto (nat n - 1) t) < nat n"
    using length_str_upto [of "nat n - 1" t] assms(1) by linarith
  then show ?thesis using safestrcpy_nul_at [OF assms] by blast
qed

theorem safestrcpy_terminates_witness:
  "\<exists>k < nat 4. nul_at ((!) (safestrcpy (replicate 16 7) (lit ''request'') 4)) k \<and>
    k = length (str_upto (nat 4 - 1) (lit ''request'')) \<and>
    str_upto (nat 4) ((!) (safestrcpy (replicate 16 7) (lit ''request'') 4)) =
    str_upto (nat 4 - 1) (lit ''request'')"
  by (rule safestrcpy_terminates) simp_all

end
