(* ===== verification/Kalloc.thy ===== *)
theory Kalloc
  imports CString
begin

text \<open>
  The physical page allocator (\<^verbatim>\<open>kalloc.c\<close>). Kernel memory is a function from page addresses to
  page contents (bytes 0 to 4095); the free list is threaded through the first word of the free
  pages, as in the code. The record is extensible: later theories add their own state to it.
  The lemmas abstract the list in memory to a list of page addresses, show that \<^verbatim>\<open>kalloc\<close> and
  \<^verbatim>\<open>kfree\<close> implement a stack of pages, and state the contract of the allocator as the locale
  \<open>page_allocator\<close>, in which the clients' facts are proved.
\<close>

section \<open>Pages and words in pages\<close>

type_synonym page = "nat \<Rightarrow> u8"

definition KERNBASE :: u32 where "KERNBASE = 0x80000000"
definition PHYSTOP :: u32 where "PHYSTOP = 0xE000000"
definition EXTMEM :: u32 where "EXTMEM = 0x100000"
definition DEVSPACE :: u32 where "DEVSPACE = 0xFE000000"

definition v2p :: "u32 \<Rightarrow> u32" where
  "v2p a = a - KERNBASE"

definition p2v :: "u32 \<Rightarrow> u32" where
  "p2v a = a + KERNBASE"

lemma p2v_v2p [simp]: "p2v (v2p a) = a"
  by (simp add: p2v_def v2p_def)

lemma v2p_p2v [simp]: "v2p (p2v a) = a"
  by (simp add: p2v_def v2p_def)

text \<open>The \<open>i\<close>-th 32-bit word of a page, little endian.\<close>

definition load_le32 :: "page \<Rightarrow> nat \<Rightarrow> u32" where
  "load_le32 pg a =
     ucast (pg a) OR push_bit 8 (ucast (pg (a + 1))) OR push_bit 16 (ucast (pg (a + 2))) OR
     push_bit 24 (ucast (pg (a + 3)))"

definition pg_word :: "page \<Rightarrow> nat \<Rightarrow> u32" where
  "pg_word pg i = load_le32 pg (4 * i)"

definition pg_set_word :: "page \<Rightarrow> nat \<Rightarrow> u32 \<Rightarrow> page" where
  "pg_set_word pg i w = store_le32 pg (4 * i) w"

lemma byte_parts:
  fixes w :: u32
  shows "ucast (ucast w :: u8) OR push_bit 8 (ucast (ucast (drop_bit 8 w) :: u8)) OR
    push_bit 16 (ucast (ucast (drop_bit 16 w) :: u8)) OR
    push_bit 24 (ucast (ucast (drop_bit 24 w) :: u8)) = w" (is "?l = w")
proof (rule bit_word_eqI)
  fix n
  assume n: "n < LENGTH(32)"
  consider "n < 8" | "8 \<le> n" "n < 16" | "16 \<le> n" "n < 24" | "24 \<le> n" "n < 32"
    using n by fastforce
  then show "bit ?l n = bit w n"
    by cases (auto simp: bit_or_iff bit_ucast_iff bit_push_bit_iff bit_drop_bit_eq)
qed

lemma pg_word_set_same [simp]: "pg_word (pg_set_word pg i w) i = w"
  unfolding pg_word_def pg_set_word_def load_le32_def store_le32_def using byte_parts [of w] by simp

lemma pg_word_set_other [simp]: "i \<noteq> j \<Longrightarrow> pg_word (pg_set_word pg i w) j = pg_word pg j"
proof -
  assume "i \<noteq> j"
  then have "\<And>k l. k < 4 \<Longrightarrow> l < 4 \<Longrightarrow> 4 * i + k \<noteq> 4 * j + l" by presburger
  from this [of 0 0] this [of 0 1] this [of 0 2] this [of 0 3] this [of 1 0] this [of 1 1]
    this [of 1 2] this [of 1 3] this [of 2 0] this [of 2 1] this [of 2 2] this [of 2 3]
    this [of 3 0] this [of 3 1] this [of 3 2] this [of 3 3]
  show ?thesis
    by (simp add: pg_word_def pg_set_word_def load_le32_def store_le32_def)
qed

lemma pg_word_zero_fun: "pg_word (\<lambda>_. 0) i = 0"
  by (simp add: pg_word_def load_le32_def)

lemma pg_word_set: "pg_word (pg_set_word pg i w) j = (if i = j then w else pg_word pg j)"
  by simp

section \<open>The allocator\<close>

record kmem =
  pages :: "u32 \<Rightarrow> page"
  use_lock :: bool
  freelist :: u32

text \<open>\<open>kend\<close> is the linker's symbol \<^verbatim>\<open>end\<close>, the first address after the kernel image.\<close>

definition kfree :: "u32 \<Rightarrow> u32 \<Rightarrow> 'z kmem_scheme \<Rightarrow> 'z kmem_scheme outcome" where
  "kfree kend v s =
     (if unat v mod PGSIZE \<noteq> 0 \<or> v < kend \<or> v2p v \<ge> PHYSTOP then Inl (Panic ''kfree'')
      else let pg = memset (pages s v) 0 1 PGSIZE;
               pg = pg_set_word pg 0 (freelist s)
           in Inr (s\<lparr>pages := (pages s)(v := pg), freelist := v\<rparr>))"

definition kalloc :: "'z kmem_scheme \<Rightarrow> u32 \<times> 'z kmem_scheme" where
  "kalloc s =
     (let r = freelist s
      in if r \<noteq> 0 then (r, s\<lparr>freelist := pg_word (pages s r) 0\<rparr>) else (r, s))"

text \<open>
  \<^verbatim>\<open>for (; p + PGSIZE <= vend; p += PGSIZE) kfree(p);\<close> with 32-bit pointer arithmetic. The loop
  stops because \<^verbatim>\<open>kfree\<close> panics on a page at or above \<^verbatim>\<open>P2V(PHYSTOP)\<close>.
\<close>

lemma unat_below_PHYSTOP:
  assumes "v2p p < PHYSTOP"
  shows "unat p = unat (v2p p) + 0x80000000" "unat p + 4096 < 2 ^ 32"
proof -
  have "unat (v2p p) < 0xE000000"
    using assms by (simp add: PHYSTOP_def word_less_nat_alt)
  moreover have "unat p = unat (v2p p + KERNBASE)"
    by (simp add: v2p_def)
  ultimately show "unat p = unat (v2p p) + 0x80000000" "unat p + 4096 < 2 ^ 32"
    by (simp_all add: KERNBASE_def unat_word_ariths)
qed

lemma kfree_Inr_less: "kfree kend p s = Inr s' \<Longrightarrow> unat p + 4096 < 2 ^ 32"
  using unat_below_PHYSTOP(2) by (auto simp: kfree_def Let_def not_le split: if_splits)

function freerange_from :: "u32 \<Rightarrow> u32 \<Rightarrow> u32 \<Rightarrow> 'z kmem_scheme \<Rightarrow> 'z kmem_scheme outcome" where
  "freerange_from kend p vend s =
     (if p + 4096 \<le> vend
      then run (kfree kend p s) (\<lambda>s. freerange_from kend (p + 4096) vend s)
      else Inr s)"
  by pat_completeness auto
termination
proof (relation "measure (\<lambda>(kend, p, vend, s). 2 ^ 32 - unat p)", goal_cases)
  case 1
  then show ?case by simp
next
  case (2 kend p vend s s')
  then have "unat p + 4096 < 2 ^ 32" using kfree_Inr_less by blast
  moreover from this have "unat (p + 4096) = unat p + 4096"
    by (simp add: unat_word_ariths)
  ultimately show ?case by simp
qed

declare freerange_from.simps [simp del]

definition freerange :: "u32 \<Rightarrow> u32 \<Rightarrow> u32 \<Rightarrow> 'z kmem_scheme \<Rightarrow> 'z kmem_scheme outcome" where
  "freerange kend vstart vend s = freerange_from kend (PGROUNDUP vstart) vend s"

definition kinit1 :: "u32 \<Rightarrow> u32 \<Rightarrow> u32 \<Rightarrow> 'z kmem_scheme \<Rightarrow> 'z kmem_scheme outcome" where
  "kinit1 kend vstart vend s = freerange kend vstart vend (s\<lparr>use_lock := False\<rparr>)"

definition kinit2 :: "u32 \<Rightarrow> u32 \<Rightarrow> u32 \<Rightarrow> 'z kmem_scheme \<Rightarrow> 'z kmem_scheme outcome" where
  "kinit2 kend vstart vend s =
     run (freerange kend vstart vend s) (\<lambda>s. Inr (s\<lparr>use_lock := True\<rparr>))"

section \<open>The free list in memory\<close>

text \<open>\<open>flist m p ps\<close>: following the first words from \<open>p\<close> visits exactly the pages \<open>ps\<close>.\<close>

primrec flist :: "(u32 \<Rightarrow> page) \<Rightarrow> u32 \<Rightarrow> u32 list \<Rightarrow> bool" where
  "flist m p [] \<longleftrightarrow> p = 0"
| "flist m p (q # qs) \<longleftrightarrow> p = q \<and> q \<noteq> 0 \<and> flist m (pg_word (m q) 0) qs"

definition page_ok :: "u32 \<Rightarrow> u32 \<Rightarrow> bool" where
  "page_ok kend v \<longleftrightarrow> unat v mod PGSIZE = 0 \<and> kend \<le> v \<and> v2p v < PHYSTOP"

definition free_pages :: "u32 \<Rightarrow> 'z kmem_scheme \<Rightarrow> u32 list \<Rightarrow> bool" where
  "free_pages kend s ps \<longleftrightarrow>
     flist (pages s) (freelist s) ps \<and> distinct ps \<and> (\<forall>p \<in> set ps. page_ok kend p)"

definition put_page :: "u32 \<Rightarrow> page \<Rightarrow> 'z kmem_scheme \<Rightarrow> 'z kmem_scheme" where
  "put_page p pg s = s\<lparr>pages := (pages s)(p := pg)\<rparr>"

lemma flist_upd [simp]: "q \<notin> set ps \<Longrightarrow> flist (m(q := pg)) p ps = flist m p ps"
  by (induction ps arbitrary: p) auto

lemma flist_unique: "flist m p ps \<Longrightarrow> flist m p qs \<Longrightarrow> ps = qs"
proof (induction ps arbitrary: p qs)
  case Nil
  then show ?case by (cases qs) auto
next
  case (Cons a ps)
  then show ?case by (cases qs) auto
qed

lemma page_ok_nonzero: "page_ok kend v \<Longrightarrow> v \<noteq> 0"
  by (auto simp: page_ok_def v2p_def KERNBASE_def PHYSTOP_def word_less_nat_alt)

lemma kfree_eq:
  "kfree kend v s =
     (if page_ok kend v
      then Inr (s\<lparr>pages := (pages s)(v := pg_set_word (memset (pages s v) 0 1 PGSIZE) 0 (freelist s)),
                 freelist := v\<rparr>)
      else Inl (Panic ''kfree''))"
  by (auto simp: kfree_def page_ok_def Let_def)

text \<open>\<open>n\<close> allocations in a row.\<close>

primrec alloc_many :: "('s \<Rightarrow> u32 \<times> 's) \<Rightarrow> nat \<Rightarrow> 's \<Rightarrow> u32 list \<times> 's" where
  "alloc_many alloc 0 s = ([], s)"
| "alloc_many alloc (Suc n) s =
     (let (p, s) = alloc s; (ps, s) = alloc_many alloc n s in (p # ps, s))"

text \<open>The contract of a page allocator, as its clients rely on it.\<close>

locale page_allocator =
  fixes alloc :: "'s \<Rightarrow> u32 \<times> 's"
    and free :: "u32 \<Rightarrow> 's \<Rightarrow> 's outcome"
    and content :: "'s \<Rightarrow> u32 \<Rightarrow> page"
    and store :: "u32 \<Rightarrow> page \<Rightarrow> 's \<Rightarrow> 's"
    and avail :: "'s \<Rightarrow> u32 list \<Rightarrow> bool"
    and valid :: "u32 \<Rightarrow> bool"
  assumes avail_distinct: "avail s ps \<Longrightarrow> distinct ps"
    and avail_valid: "avail s ps \<Longrightarrow> p \<in> set ps \<Longrightarrow> valid p"
    and valid_nonzero: "valid p \<Longrightarrow> p \<noteq> 0"
    and alloc_Nil: "avail s [] \<Longrightarrow> alloc s = (0, s)"
    and alloc_Cons: "avail s (p # ps) \<Longrightarrow>
      \<exists>s'. alloc s = (p, s') \<and> avail s' ps \<and> content s' = content s"
    and free_valid: "avail s ps \<Longrightarrow> valid p \<Longrightarrow> p \<notin> set ps \<Longrightarrow>
      \<exists>s'. free p s = Inr s' \<and> avail s' (p # ps) \<and> (\<forall>q. q \<noteq> p \<longrightarrow> content s' q = content s q)"
    and free_invalid: "\<not> valid p \<Longrightarrow> \<exists>msg. free p s = Inl (Panic msg)"
    and avail_store: "p \<notin> set ps \<Longrightarrow> avail (store p pg s) ps \<longleftrightarrow> avail s ps"
    and content_store: "content (store p pg s) = (content s)(p := pg)"
begin

lemma alloc_many_take:
  "avail s ps \<Longrightarrow> n \<le> length ps \<Longrightarrow>
   \<exists>s'. alloc_many alloc n s = (take n ps, s') \<and> avail s' (drop n ps) \<and> content s' = content s"
proof (induction n arbitrary: s ps)
  case 0
  then show ?case by simp
next
  case (Suc n)
  then obtain p qs where ps: "ps = p # qs" by (cases ps) auto
  with Suc.prems alloc_Cons obtain s1 where
    s1: "alloc s = (p, s1)" "avail s1 qs" "content s1 = content s"
    by blast
  from Suc.IH [OF s1(2)] Suc.prems(2) ps obtain s' where
    "alloc_many alloc n s1 = (take n qs, s')" "avail s' (drop n qs)" "content s' = content s1"
    by auto
  with s1 ps show ?case by auto
qed

lemma alloc_many_fresh:
  assumes "avail s ps" "n \<le> length ps"
  shows "distinct (fst (alloc_many alloc n s))" "\<forall>p \<in> set (fst (alloc_many alloc n s)). valid p \<and> p \<noteq> 0"
proof -
  obtain s' where "alloc_many alloc n s = (take n ps, s')" using alloc_many_take [OF assms] by blast
  moreover have v: "valid p \<and> p \<noteq> 0" if "p \<in> set (take n ps)" for p
    using avail_valid [OF assms(1) in_set_takeD [OF that]] valid_nonzero by simp
  ultimately show "distinct (fst (alloc_many alloc n s))" "\<forall>p \<in> set (fst (alloc_many alloc n s)). valid p \<and> p \<noteq> 0"
    using avail_distinct [OF assms(1)] v by simp_all
qed

lemma alloc_zero_iff: "avail s ps \<Longrightarrow> fst (alloc s) = 0 \<longleftrightarrow> ps = []"
proof (cases ps)
  case Nil
  then show "avail s ps \<Longrightarrow> fst (alloc s) = 0 \<longleftrightarrow> ps = []" by (simp add: alloc_Nil)
next
  case (Cons p qs)
  then show "avail s ps \<Longrightarrow> fst (alloc s) = 0 \<longleftrightarrow> ps = []"
    using alloc_Cons [of s p qs] avail_valid [of s ps p] valid_nonzero [of p] by auto
qed

text \<open>Freeing a page that was just allocated makes it the next one handed out.\<close>

lemma free_alloc:
  assumes "avail s ps" "valid p" "p \<notin> set ps"
  shows "\<exists>s1 s2. free p s = Inr s1 \<and> alloc s1 = (p, s2) \<and> avail s2 ps"
  using free_valid [OF assms] alloc_Cons by blast

end

interpretation ka: page_allocator kalloc "kfree kend" pages put_page "free_pages kend" "page_ok kend"
  for kend
proof (unfold_locales, goal_cases)
  case (1 s ps)
  then show ?case by (simp add: free_pages_def)
next
  case (2 s ps p)
  then show ?case by (simp add: free_pages_def)
next
  case (3 p)
  then show ?case by (rule page_ok_nonzero)
next
  case (4 s)
  then show ?case by (simp add: free_pages_def kalloc_def)
next
  case (5 s p ps)
  then show ?case by (auto simp: free_pages_def kalloc_def)
next
  case (6 s ps p)
  then show ?case by (auto simp: free_pages_def kfree_eq page_ok_nonzero)
next
  case (7 p s)
  then show ?case by (auto simp: kfree_eq)
next
  case (8 p ps pg s)
  then show ?case by (simp add: free_pages_def put_page_def)
next
  case (9 p pg s)
  then show ?case by (simp add: put_page_def)
qed

section \<open>Properties\<close>

text \<open>\<open>page_run p k\<close>: \<open>k\<close> consecutive pages from \<open>p\<close>, highest first.\<close>

definition page_run :: "u32 \<Rightarrow> nat \<Rightarrow> u32 list" where
  "page_run p k = rev (map (\<lambda>i. p + of_nat (4096 * i)) [0..<k])"

lemma page_run_Suc: "page_run p (Suc k) = page_run (p + 4096) k @ [p]"
proof -
  have "map (\<lambda>i. p + of_nat (4096 * i)) [0..<Suc k] =
    p # map (\<lambda>i. p + 4096 + of_nat (4096 * i)) [0..<k]"
    unfolding upt_conv_Cons [OF zero_less_Suc] map_Suc_upt [symmetric]
    by (simp add: algebra_simps o_def del: upt_Suc)
  then show ?thesis by (simp add: page_run_def)
qed

lemma page_run_two: "page_run p 2 = [p + 4096, p]"
  by (simp add: numeral_2_eq_2 page_run_Suc) (simp add: page_run_def)

lemma page_run_range: "q \<in> set (page_run p k) \<Longrightarrow> \<exists>i < k. q = p + of_nat (4096 * i)"
  by (auto simp: page_run_def)

lemma freerange_from_pages:
  "free_pages kend s ps \<Longrightarrow> \<forall>q \<in> set (page_run p k). page_ok kend q \<and> q \<notin> set ps \<Longrightarrow>
   unat p + 4096 * k \<le> unat vend \<Longrightarrow> unat vend < unat p + 4096 * Suc k \<Longrightarrow>
   unat vend + 4096 < 2 ^ 32 \<Longrightarrow>
   \<exists>s'. freerange_from kend p vend s = Inr s' \<and> free_pages kend s' (page_run p k @ ps)"
proof (induction k arbitrary: p s ps)
  case 0
  then have "unat (p + 4096) = unat p + 4096" by (simp add: unat_word_ariths)
  with 0 have "\<not> p + 4096 \<le> vend" by (simp add: word_le_nat_alt)
  with 0 show ?case by (simp add: freerange_from.simps page_run_def)
next
  case (Suc k)
  have u: "unat (p + 4096) = unat p + 4096"
    using Suc.prems(3,5) by (simp add: unat_word_ariths)
  have le: "p + 4096 \<le> vend"
    using Suc.prems(3) u by (simp add: word_le_nat_alt)
  have p: "page_ok kend p" "p \<notin> set ps"
    using Suc.prems(2) by (auto simp: page_run_Suc)
  from ka.free_valid [OF Suc.prems(1) p] obtain s1 where
    s1: "kfree kend p s = Inr s1" "free_pages kend s1 (p # ps)"
    by blast
  have fresh: "\<forall>q \<in> set (page_run (p + 4096) k). page_ok kend q \<and> q \<notin> set (p # ps)"
  proof
    fix q
    assume q: "q \<in> set (page_run (p + 4096) k)"
    then obtain i where i: "i < k" "q = p + 4096 + of_nat (4096 * i)"
      by (auto dest: page_run_range)
    have "unat p + 4096 + 4096 * i < 2 ^ 32"
      using i(1) Suc.prems(3,5) by simp
    then have "unat q = unat p + 4096 + 4096 * i"
      using u by (simp add: i(2) unat_word_ariths unat_of_nat)
    then have "q \<noteq> p" by auto
    with q Suc.prems(2) show "page_ok kend q \<and> q \<notin> set (p # ps)"
      by (auto simp: page_run_Suc)
  qed
  from Suc.IH [OF s1(2) fresh] u Suc.prems(3-5) obtain s' where
    "freerange_from kend (p + 4096) vend s1 = Inr s'"
    "free_pages kend s' (page_run (p + 4096) k @ p # ps)"
    by auto
  with le s1(1) show ?case
    by (simp add: freerange_from.simps [of kend p] page_run_Suc)
qed

text \<open>C21. The allocator refines a stack of pages: on a free list holding the pages \<open>ps\<close>, \<^verbatim>\<open>kalloc\<close>
  pops the first page (or returns 0 when there is none) and changes no page's contents, \<^verbatim>\<open>kfree\<close> of
  a valid page that is not free pushes it and changes no other page, and \<^verbatim>\<open>kfree\<close> of an address
  that is unaligned, inside the kernel image or beyond physical memory panics.\<close>

theorem kalloc_kfree_stack:
  assumes "free_pages kend s ps"
  shows "(case ps of [] \<Rightarrow> kalloc s = (0, s)
          | p # qs \<Rightarrow> \<exists>s'. kalloc s = (p, s') \<and> p \<noteq> 0 \<and> free_pages kend s' qs \<and> pages s' = pages s) \<and>
    (if page_ok kend v
     then v \<notin> set ps \<longrightarrow> (\<exists>s'. kfree kend v s = Inr s' \<and> free_pages kend s' (v # ps) \<and>
       (\<forall>q. q \<noteq> v \<longrightarrow> pages s' q = pages s q))
     else kfree kend v s = Inl (Panic ''kfree''))"
proof (rule conjI)
  show "case ps of [] \<Rightarrow> kalloc s = (0, s)
    | p # qs \<Rightarrow> \<exists>s'. kalloc s = (p, s') \<and> p \<noteq> 0 \<and> free_pages kend s' qs \<and> pages s' = pages s"
  proof (cases ps)
    case Nil
    with assms show ?thesis by (simp add: ka.alloc_Nil)
  next
    case (Cons p qs)
    with assms have "p \<noteq> 0" using ka.avail_valid [OF assms, of p] ka.valid_nonzero by simp
    with Cons assms ka.alloc_Cons [of kend s p qs] show ?thesis by auto
  qed
  show "if page_ok kend v
     then v \<notin> set ps \<longrightarrow> (\<exists>s'. kfree kend v s = Inr s' \<and> free_pages kend s' (v # ps) \<and>
       (\<forall>q. q \<noteq> v \<longrightarrow> pages s' q = pages s q))
     else kfree kend v s = Inl (Panic ''kfree'')"
    using ka.free_valid [OF assms] by (simp add: kfree_eq)
qed

definition kmem0 :: kmem where
  "kmem0 = \<lparr>pages = (\<lambda>_ _. 0), use_lock = False, freelist = 0\<rparr>"

definition kmem1 :: kmem where
  "kmem1 = kmem0\<lparr>freelist := 0x80500000\<rparr>"

lemma kmem1_free: "free_pages 0x80400000 kmem1 [0x80500000]"
  by (simp add: free_pages_def kmem1_def kmem0_def pg_word_def load_le32_def page_ok_def PGSIZE_def
      v2p_def KERNBASE_def PHYSTOP_def)

theorem kalloc_kfree_stack_witness:
  "(\<exists>s'. kalloc kmem1 = (0x80500000, s') \<and> free_pages 0x80400000 s' [] \<and> pages s' = pages kmem1) \<and>
   (\<exists>s'. kfree 0x80400000 0x80600000 kmem1 = Inr s' \<and> free_pages 0x80400000 s' [0x80600000, 0x80500000] \<and>
      (\<forall>q. q \<noteq> 0x80600000 \<longrightarrow> pages s' q = pages kmem1 q))"
proof -
  have "page_ok 0x80400000 0x80600000" by (simp add: page_ok_def v2p_def KERNBASE_def PHYSTOP_def PGSIZE_def)
  with kalloc_kfree_stack [OF kmem1_free, of "0x80600000"] show ?thesis by simp
qed

text \<open>C22. \<^verbatim>\<open>freerange\<close> terminates and adds to the free list exactly the whole pages of its range, each
  once: those from \<^verbatim>\<open>PGROUNDUP(vstart)\<close> up to the last page ending at or before \<open>vend\<close>.\<close>

theorem freerange_adds_range:
  assumes "free_pages kend s ps"
    and "\<forall>q \<in> set (page_run (PGROUNDUP vstart) k). page_ok kend q \<and> q \<notin> set ps"
    and "unat (PGROUNDUP vstart) + 4096 * k \<le> unat vend"
    and "unat vend < unat (PGROUNDUP vstart) + 4096 * Suc k"
    and "unat vend + 4096 < 2 ^ 32"
  shows "\<exists>s'. freerange kend vstart vend s = Inr s' \<and>
    free_pages kend s' (page_run (PGROUNDUP vstart) k @ ps)"
  unfolding freerange_def using assms by (rule freerange_from_pages)

theorem freerange_adds_range_witness:
  "\<exists>s'. freerange 0x80400000 0x80500001 0x80503fff kmem0 = Inr s' \<and>
    free_pages 0x80400000 s' (page_run (PGROUNDUP 0x80500001) 2 @ [])"
  by (rule freerange_adds_range)
    (simp_all add: free_pages_def kmem0_def page_run_two PGROUNDUP_def page_ok_def PGSIZE_def v2p_def
      KERNBASE_def PHYSTOP_def)

text \<open>C23. Pages are never handed out twice: \<open>n\<close> successive calls of \<^verbatim>\<open>kalloc\<close> on a free list with
  at least \<open>n\<close> pages return \<open>n\<close> distinct valid non-null pages, none of which is left free.\<close>

theorem kalloc_distinct:
  assumes "free_pages kend s ps" "n \<le> length ps"
  shows "\<exists>s'. alloc_many kalloc n s = (take n ps, s') \<and> distinct (take n ps) \<and>
    (\<forall>p \<in> set (take n ps). page_ok kend p \<and> p \<noteq> 0 \<and> p \<notin> set (drop n ps)) \<and>
    free_pages kend s' (drop n ps)"
proof -
  obtain s' where s': "alloc_many kalloc n s = (take n ps, s')" "free_pages kend s' (drop n ps)"
    using ka.alloc_many_take [OF assms] by blast
  have d: "distinct ps"
    using assms(1) by (rule ka.avail_distinct)
  then have "set (take n ps) \<inter> set (drop n ps) = {}"
    by (simp add: set_take_disj_set_drop_if_distinct)
  moreover have "page_ok kend p \<and> p \<noteq> 0" if "p \<in> set (take n ps)" for p
    using ka.avail_valid [OF assms(1) in_set_takeD [OF that]] ka.valid_nonzero by simp
  ultimately have "\<forall>p \<in> set (take n ps). page_ok kend p \<and> p \<noteq> 0 \<and> p \<notin> set (drop n ps)"
    by blast
  with s' distinct_take [OF d] show ?thesis by blast
qed

theorem kalloc_distinct_witness:
  "\<exists>s'. alloc_many kalloc 1 kmem1 = (take 1 [0x80500000], s') \<and> distinct (take 1 [0x80500000 :: u32]) \<and>
    (\<forall>p \<in> set (take 1 [0x80500000]). page_ok 0x80400000 p \<and> p \<noteq> 0 \<and> p \<notin> set (drop 1 [0x80500000])) \<and>
    free_pages 0x80400000 s' (drop 1 [0x80500000])"
  by (rule kalloc_distinct [OF kmem1_free]) simp

end
