(* ===== verification/Vm.thy ===== *)
theory Vm
  imports Kalloc
begin

text \<open>
  Page tables and user memory (\<^verbatim>\<open>vm.c\<close>). A page directory is a page of kernel memory; its 1024
  words point to page-table pages. The state extends the allocator's by the table of shared-memory
  regions, which \<^verbatim>\<open>deallocuvm\<close> and \<^verbatim>\<open>copyuvm\<close> consult, and by the registers that
  \<^verbatim>\<open>switchkvm\<close> and \<^verbatim>\<open>switchuvm\<close> load. A pointer to a page-table entry is the address of the
  page and the index of the word. The loops carry fuel, the number of iterations their bounds
  allow; running out of it is the outcome \<open>Spin\<close>.
\<close>

section \<open>State\<close>

record shm =
  name_length :: int
  shm_nm :: "u8 list"
  numAccess :: int
  shmPhys :: u32

record vmem = kmem +
  shm_arr :: "shm list"
  used :: int
  kpgdir :: u32
  cr3 :: u32
  esp0 :: u32

type_synonym pte_ptr = "u32 \<times> nat"

definition NPDENTRIES :: nat where "NPDENTRIES = 1024"
definition NPTENTRIES :: nat where "NPTENTRIES = 1024"
definition PTE_P :: u32 where "PTE_P = 1"
definition PTE_W :: u32 where "PTE_W = 2"
definition PTE_U :: u32 where "PTE_U = 4"

definition PDX :: "u32 \<Rightarrow> nat" where
  "PDX va = unat (drop_bit 22 va AND 0x3FF)"

definition PTX :: "u32 \<Rightarrow> nat" where
  "PTX va = unat (drop_bit 12 va AND 0x3FF)"

definition PTE_ADDR :: "u32 \<Rightarrow> u32" where
  "PTE_ADDR pte = pte AND NOT 0xFFF"

definition PTE_FLAGS :: "u32 \<Rightarrow> u32" where
  "PTE_FLAGS pte = pte AND 0xFFF"

definition present :: "u32 \<Rightarrow> bool" where
  "present pte \<longleftrightarrow> pte AND PTE_P \<noteq> 0"

definition get_pte :: "pte_ptr \<Rightarrow> 'z kmem_scheme \<Rightarrow> u32" where
  "get_pte p s = pg_word (pages s (fst p)) (snd p)"

definition set_pte :: "pte_ptr \<Rightarrow> u32 \<Rightarrow> 'z kmem_scheme \<Rightarrow> 'z kmem_scheme" where
  "set_pte p w s = put_page (fst p) (pg_set_word (pages s (fst p)) (snd p) w) s"

definition zero_page :: "u32 \<Rightarrow> 'z kmem_scheme \<Rightarrow> 'z kmem_scheme" where
  "zero_page p s = put_page p (memset (pages s p) 0 0 PGSIZE) s"

section \<open>Operations\<close>

definition walkpgdir :: "u32 \<Rightarrow> u32 \<Rightarrow> bool \<Rightarrow> 'z kmem_scheme \<Rightarrow> pte_ptr option \<times> 'z kmem_scheme" where
  "walkpgdir pgdir va alloc s =
     (let pde = (pgdir, PDX va)
      in if present (get_pte pde s) then (Some (p2v (PTE_ADDR (get_pte pde s)), PTX va), s)
         else if \<not> alloc then (None, s)
         else let (pgtab, s) = kalloc s
              in if pgtab = 0 then (None, s)
                 else let s = zero_page pgtab s;
                          s = set_pte pde (v2p pgtab OR PTE_P OR PTE_W OR PTE_U) s
                      in (Some (pgtab, PTX va), s))"

text \<open>\<^verbatim>\<open>mappages\<close> returns 0 or -1 and panics when an entry is already present.\<close>

primrec mappages_from :: "nat \<Rightarrow> u32 \<Rightarrow> u32 \<Rightarrow> u32 \<Rightarrow> u32 \<Rightarrow> u32 \<Rightarrow> 'z kmem_scheme \<Rightarrow>
    (int \<times> 'z kmem_scheme) outcome" where
  "mappages_from 0 pgdir a la pa perm s = Inl Spin"
| "mappages_from (Suc n) pgdir a la pa perm s =
     (case walkpgdir pgdir a True s of
        (None, s) \<Rightarrow> Inr (-1, s)
      | (Some pte, s) \<Rightarrow>
          if present (get_pte pte s) then Inl (Panic ''remap'')
          else let s = set_pte pte (pa OR perm OR PTE_P) s
               in if a = la then Inr (0, s)
                  else mappages_from n pgdir (a + 4096) la (pa + 4096) perm s)"

definition mappages :: "u32 \<Rightarrow> u32 \<Rightarrow> u32 \<Rightarrow> u32 \<Rightarrow> u32 \<Rightarrow> 'z kmem_scheme \<Rightarrow>
    (int \<times> 'z kmem_scheme) outcome" where
  "mappages pgdir va n pa perm s =
     (let a = PGROUNDDOWN va; la = PGROUNDDOWN (va + n - 1)
      in mappages_from (Suc (unat (la - a) div 4096)) pgdir a la pa perm s)"

text \<open>\<open>kdata\<close> is the linker's symbol \<^verbatim>\<open>data\<close>, the start of the kernel's data.\<close>

definition kmap :: "u32 \<Rightarrow> (u32 \<times> u32 \<times> u32 \<times> u32) list" where
  "kmap kdata =
     [(KERNBASE, 0, EXTMEM, PTE_W),
      (KERNBASE + EXTMEM, v2p (KERNBASE + EXTMEM), v2p kdata, 0),
      (kdata, v2p kdata, PHYSTOP, PTE_W),
      (DEVSPACE, DEVSPACE, 0, PTE_W)]"

primrec map_kernel :: "(u32 \<times> u32 \<times> u32 \<times> u32) list \<Rightarrow> u32 \<Rightarrow> 'z kmem_scheme \<Rightarrow>
    (u32 \<times> 'z kmem_scheme) outcome" where
  "map_kernel [] pgdir s = Inr (pgdir, s)"
| "map_kernel (k # ks) pgdir s =
     (case k of (virt, pstart, pend, perm) \<Rightarrow>
        run (mappages pgdir virt (pend - pstart) pstart perm s)
          (\<lambda>(r, s). if r < 0 then Inr (0, s) else map_kernel ks pgdir s))"

definition setupkvm :: "u32 \<Rightarrow> 'z kmem_scheme \<Rightarrow> (u32 \<times> 'z kmem_scheme) outcome" where
  "setupkvm kdata s =
     (let (pgdir, s) = kalloc s
      in if pgdir = 0 then Inr (0, s)
         else let s = zero_page pgdir s
              in if p2v PHYSTOP > DEVSPACE then Inl (Panic ''PHYSTOP too high'')
                 else map_kernel (kmap kdata) pgdir s)"

definition switchkvm :: "'z vmem_scheme \<Rightarrow> 'z vmem_scheme" where
  "switchkvm s = s\<lparr>cr3 := v2p (kpgdir s)\<rparr>"

definition kvmalloc :: "u32 \<Rightarrow> 'z vmem_scheme \<Rightarrow> 'z vmem_scheme outcome" where
  "kvmalloc kdata s =
     run (setupkvm kdata s) (\<lambda>(pgdir, s). Inr (switchkvm (s\<lparr>kpgdir := pgdir\<rparr>)))"

text \<open>\<^verbatim>\<open>switchuvm(p)\<close>: \<open>kstack\<close> is the current process's kernel stack, \<open>pgdir\<close> the argument's.\<close>

definition switchuvm :: "u32 \<Rightarrow> u32 \<Rightarrow> 'z vmem_scheme \<Rightarrow> 'z vmem_scheme outcome" where
  "switchuvm kstack pgdir s =
     (let s = s\<lparr>esp0 := kstack + 4096\<rparr>
      in if pgdir = 0 then Inl (Panic ''switchuvm: no pgdir'')
         else Inr (s\<lparr>cr3 := v2p pgdir\<rparr>))"

text \<open>
  \<^verbatim>\<open>memmove\<close> of \<open>buf\<close> to offset \<open>off\<close> of a page, the source lying outside the page.
\<close>

definition page_write :: "page \<Rightarrow> nat \<Rightarrow> u8 list \<Rightarrow> page" where
  "page_write pg off buf = (\<lambda>i. if off \<le> i \<and> i < off + length buf then buf ! (i - off) else pg i)"

definition inituvm :: "u32 \<Rightarrow> u8 list \<Rightarrow> 'z kmem_scheme \<Rightarrow> 'z kmem_scheme outcome" where
  "inituvm pgdir init s =
     (if length init \<ge> PGSIZE then Inl (Panic ''inituvm: more than a page'')
      else let (mem, s) = kalloc s; s = zero_page mem s
           in run (mappages pgdir 0 4096 (v2p mem) (PTE_W OR PTE_U) s)
                (\<lambda>(_, s). Inr (put_page mem (page_write (pages s mem) 0 init) s)))"

text \<open>
  \<^verbatim>\<open>shm_arr_findPA\<close> (\<^verbatim>\<open>shm.h\<close>): the shared region at a physical address, its reference count
  adjusted; the result is the address, or -1 as an unsigned word.
\<close>

definition shm_arr_findPA :: "u32 \<Rightarrow> int \<Rightarrow> 'z vmem_scheme \<Rightarrow> u32 \<times> 'z vmem_scheme" where
  "shm_arr_findPA pa refChange s =
     (case scan (\<lambda>e. shmPhys e = pa) (shm_arr s) of
        Some i \<Rightarrow>
          let e = shm_arr s ! i;
              e = e\<lparr>numAccess := numAccess e + refChange\<rparr>
          in (shmPhys e, s\<lparr>shm_arr := (shm_arr s)[i := e]\<rparr>)
      | None \<Rightarrow> (-1, s))"

primrec deallocuvm_from :: "nat \<Rightarrow> u32 \<Rightarrow> u32 \<Rightarrow> u32 \<Rightarrow> u32 \<Rightarrow> int \<Rightarrow> 'z vmem_scheme \<Rightarrow>
    'z vmem_scheme outcome" where
  "deallocuvm_from 0 kend pgdir a oldsz accChange s = (if a < oldsz then Inl Spin else Inr s)"
| "deallocuvm_from (Suc n) kend pgdir a oldsz accChange s =
     (if a < oldsz then
        case fst (walkpgdir pgdir a False s) of
          None \<Rightarrow> deallocuvm_from n kend pgdir (a + (1024 - 1) * 4096 + 4096) oldsz accChange s
        | Some pte \<Rightarrow>
            if present (get_pte pte s) then
              let pa = PTE_ADDR (get_pte pte s)
              in if pa = 0 then Inl (Panic ''kfree'')
                 else let (foundPA, s) = shm_arr_findPA pa accChange s
                      in if foundPA \<noteq> -1
                         then deallocuvm_from n kend pgdir (a + 4096) oldsz accChange s
                         else run (kfree kend (p2v pa) s)
                           (\<lambda>s. deallocuvm_from n kend pgdir (a + 4096) oldsz accChange (set_pte pte 0 s))
            else deallocuvm_from n kend pgdir (a + 4096) oldsz accChange s
      else Inr s)"

definition deallocuvm :: "u32 \<Rightarrow> u32 \<Rightarrow> u32 \<Rightarrow> u32 \<Rightarrow> int \<Rightarrow> 'z vmem_scheme \<Rightarrow>
    (u32 \<times> 'z vmem_scheme) outcome" where
  "deallocuvm kend pgdir oldsz newsz accChange s =
     (if newsz \<ge> oldsz then Inr (oldsz, s)
      else run (deallocuvm_from (Suc (unat oldsz div 4096)) kend pgdir (PGROUNDUP newsz) oldsz accChange s)
             (\<lambda>s. Inr (newsz, s)))"

text \<open>\<^verbatim>\<open>allocuvm\<close> ignores the result of \<^verbatim>\<open>mappages\<close>.\<close>

primrec allocuvm_from :: "nat \<Rightarrow> u32 \<Rightarrow> u32 \<Rightarrow> u32 \<Rightarrow> u32 \<Rightarrow> u32 \<Rightarrow> 'z vmem_scheme \<Rightarrow>
    (u32 \<times> 'z vmem_scheme) outcome" where
  "allocuvm_from 0 kend pgdir a oldsz newsz s = (if a < newsz then Inl Spin else Inr (newsz, s))"
| "allocuvm_from (Suc n) kend pgdir a oldsz newsz s =
     (if a < newsz then
        let (mem, s) = kalloc s
        in if mem = 0 then run (deallocuvm kend pgdir newsz oldsz 0 s) (\<lambda>(_, s). Inr (0, s))
           else let s = zero_page mem s
                in run (mappages pgdir a 4096 (v2p mem) (PTE_W OR PTE_U) s)
                     (\<lambda>(_, s). allocuvm_from n kend pgdir (a + 4096) oldsz newsz s)
      else Inr (newsz, s))"

definition allocuvm :: "u32 \<Rightarrow> u32 \<Rightarrow> u32 \<Rightarrow> u32 \<Rightarrow> 'z vmem_scheme \<Rightarrow>
    (u32 \<times> 'z vmem_scheme) outcome" where
  "allocuvm kend pgdir oldsz newsz s =
     (if newsz \<ge> KERNBASE then Inr (0, s)
      else if newsz < oldsz then Inr (oldsz, s)
      else allocuvm_from (Suc (unat newsz div 4096)) kend pgdir (PGROUNDUP oldsz) oldsz newsz s)"

primrec free_tables :: "nat list \<Rightarrow> u32 \<Rightarrow> u32 \<Rightarrow> 'z kmem_scheme \<Rightarrow> 'z kmem_scheme outcome" where
  "free_tables [] kend pgdir s = Inr s"
| "free_tables (i # is) kend pgdir s =
     (if present (get_pte (pgdir, i) s)
      then run (kfree kend (p2v (PTE_ADDR (get_pte (pgdir, i) s))) s) (free_tables is kend pgdir)
      else free_tables is kend pgdir s)"

definition freevm :: "u32 \<Rightarrow> u32 \<Rightarrow> int \<Rightarrow> 'z vmem_scheme \<Rightarrow> 'z vmem_scheme outcome" where
  "freevm kend pgdir accessChange s =
     (if pgdir = 0 then Inl (Panic ''freevm: no pgdir'')
      else run (deallocuvm kend pgdir KERNBASE 0 accessChange s) (\<lambda>(_, s).
             run (free_tables [0..<NPDENTRIES] kend pgdir s) (kfree kend pgdir)))"

definition clearpteu :: "u32 \<Rightarrow> u32 \<Rightarrow> 'z kmem_scheme \<Rightarrow> 'z kmem_scheme outcome" where
  "clearpteu pgdir uva s =
     (case fst (walkpgdir pgdir uva False s) of
        None \<Rightarrow> Inl (Panic ''clearpteu'')
      | Some pte \<Rightarrow> Inr (set_pte pte (get_pte pte s AND NOT PTE_U) s))"

text \<open>The body of \<^verbatim>\<open>copyuvm\<close>'s loop at \<open>i\<close>: \<open>None\<close> is \<^verbatim>\<open>goto bad\<close>.\<close>

definition copyuvm_page :: "u32 \<Rightarrow> u32 \<Rightarrow> u32 \<Rightarrow> 'z vmem_scheme \<Rightarrow>
    (bool \<times> 'z vmem_scheme) outcome" where
  "copyuvm_page pgdir d i s =
     (case fst (walkpgdir pgdir i False s) of
        None \<Rightarrow> Inl (Panic ''copyuvm: pte should exist'')
      | Some pte \<Rightarrow>
          if \<not> present (get_pte pte s) then Inl (Panic ''copyuvm: page not present'')
          else let pa = PTE_ADDR (get_pte pte s);
                   flags = PTE_FLAGS (get_pte pte s);
                   (foundPA, s) = shm_arr_findPA pa 1 s
               in if foundPA \<noteq> -1
                  then run (mappages d i 4096 foundPA flags s) (\<lambda>(r, s). Inr (r < 0, s))
                  else let (mem, s) = kalloc s
                       in if mem = 0 then Inr (True, s)
                          else let s = put_page mem (pages s (p2v pa)) s
                               in run (mappages d i 4096 (v2p mem) flags s) (\<lambda>(r, s). Inr (r < 0, s)))"

primrec copyuvm_from :: "nat \<Rightarrow> u32 \<Rightarrow> u32 \<Rightarrow> u32 \<Rightarrow> u32 \<Rightarrow> u32 \<Rightarrow> 'z vmem_scheme \<Rightarrow>
    (u32 \<times> 'z vmem_scheme) outcome" where
  "copyuvm_from 0 kend pgdir d i sz s = (if i < sz then Inl Spin else Inr (d, s))"
| "copyuvm_from (Suc n) kend pgdir d i sz s =
     (if i < sz then
        run (copyuvm_page pgdir d i s) (\<lambda>(bad, s).
          if bad then run (freevm kend d 0 s) (\<lambda>s. Inr (0, s))
          else copyuvm_from n kend pgdir d (i + 4096) sz s)
      else Inr (d, s))"

definition copyuvm :: "u32 \<Rightarrow> u32 \<Rightarrow> u32 \<Rightarrow> u32 \<Rightarrow> 'z vmem_scheme \<Rightarrow>
    (u32 \<times> 'z vmem_scheme) outcome" where
  "copyuvm kend kdata pgdir sz s =
     run (setupkvm kdata s) (\<lambda>(d, s).
       if d = 0 then Inr (0, s)
       else copyuvm_from (Suc (unat sz div 4096)) kend pgdir d 0 sz s)"

text \<open>\<^verbatim>\<open>uva2ka\<close> dereferences the result of \<^verbatim>\<open>walkpgdir\<close> without a test.\<close>

definition uva2ka :: "u32 \<Rightarrow> u32 \<Rightarrow> 'z kmem_scheme \<Rightarrow> u32 outcome" where
  "uva2ka pgdir uva s =
     (case fst (walkpgdir pgdir uva False s) of
        None \<Rightarrow> Inl NullDeref
      | Some pte \<Rightarrow>
          if get_pte pte s AND PTE_P = 0 then Inr 0
          else if get_pte pte s AND PTE_U = 0 then Inr 0
          else Inr (p2v (PTE_ADDR (get_pte pte s))))"

function copyout :: "u32 \<Rightarrow> u32 \<Rightarrow> u8 list \<Rightarrow> 'z kmem_scheme \<Rightarrow>
    (int \<times> 'z kmem_scheme) outcome" where
  "copyout pgdir va buf s =
     (if buf = [] then Inr (0, s)
      else let va0 = PGROUNDDOWN va
           in run (uva2ka pgdir va0 s) (\<lambda>pa0.
                if pa0 = 0 then Inr (-1, s)
                else let n = 4096 - unat (va - va0);
                         n = (if n > length buf then length buf else n)
                     in copyout pgdir (va0 + 4096) (drop n buf)
                          (put_page pa0 (page_write (pages s pa0) (unat (va - va0)) (take n buf)) s)))"
  by pat_completeness auto

lemma page_offset: "unat (va - PGROUNDDOWN va) = unat va mod 4096"
proof -
  have u: "unat (PGROUNDDOWN va) = unat va div 4096 * 4096" by (rule unat_PGROUNDDOWN)
  then have "PGROUNDDOWN va \<le> va" by (simp add: word_le_nat_alt)
  then have "unat (va - PGROUNDDOWN va) = unat va - unat va div 4096 * 4096"
    by (simp add: unat_sub u)
  then show ?thesis by (simp add: minus_div_mult_eq_mod)
qed

termination copyout
proof (relation "measure (\<lambda>(pgdir, va, buf, s). length buf)", goal_cases)
  case 1
  then show ?case by simp
next
  case (2 pgdir va buf s va0 pa0 n n')
  then have "unat (va - va0) < 4096" by (simp add: page_offset)
  with 2 show ?case by auto
qed

declare copyout.simps [simp del]

section \<open>Address arithmetic\<close>

lemma unat_and_3ff: "unat (x AND 0x3FF :: u32) = unat x mod 1024"
proof -
  have "(0x3FF :: u32) = mask 10" by (simp add: mask_eq_exp_minus_1)
  then have "x AND 0x3FF = take_bit 10 x" by (simp add: take_bit_eq_mask)
  then show ?thesis by (simp add: unsigned_take_bit_eq take_bit_eq_mod [where a = "unat x"])
qed

lemma PDX_eq: "PDX va = unat va div 4194304"
proof -
  have "unat va div 4194304 < 1024" using unat_u32_less [of va] by simp
  then show ?thesis
    by (simp add: PDX_def unat_and_3ff unat_drop_bit_eq drop_bit_eq_div [where a = "unat va"])
qed

lemma PTX_eq: "PTX va = unat va div 4096 mod 1024"
  by (simp add: PTX_def unat_and_3ff unat_drop_bit_eq drop_bit_eq_div [where a = "unat va"])

lemma PDX_less: "PDX va < 1024"
  using unat_u32_less [of va] by (simp add: PDX_eq)

lemma PTX_less: "PTX va < 1024"
  by (simp add: PTX_eq)

definition vpn :: "u32 \<Rightarrow> nat" where
  "vpn va = unat va div 4096"

lemma same_entry_iff: "PDX a = PDX b \<and> PTX a = PTX b \<longleftrightarrow> vpn a = vpn b"
proof -
  have "PDX x = vpn x div 1024" for x
    by (simp add: PDX_eq vpn_def div_mult2_eq [symmetric])
  moreover have "PTX x = vpn x mod 1024" for x
    by (simp add: PTX_eq vpn_def)
  ultimately show ?thesis
    by (metis div_mult_mod_eq)
qed

text \<open>An entry made of a page-aligned address and flag bits.\<close>

definition aligned :: "u32 \<Rightarrow> bool" where
  "aligned a \<longleftrightarrow> unat a mod 4096 = 0"

lemma aligned_bits: "aligned a \<longleftrightarrow> a AND 0xFFF = 0"
proof -
  have "(0xFFF :: u32) = mask 12" by (simp add: mask_eq_exp_minus_1)
  then have "a AND 0xFFF = take_bit 12 a" by (simp add: take_bit_eq_mask)
  then have "unat (a AND 0xFFF) = unat a mod 4096"
    by (simp add: unsigned_take_bit_eq take_bit_eq_mod [where a = "unat a"])
  then show ?thesis by (simp add: aligned_def unat_eq_0 [symmetric])
qed

lemma and_not_if_and_zero: "a AND m = 0 \<Longrightarrow> a AND NOT m = (a :: u32)"
proof (rule bit_word_eqI)
  fix n
  assume "a AND m = 0" "n < LENGTH(32)"
  then have "bit (a AND m) n = bit (0 :: u32) n" by simp
  with \<open>n < LENGTH(32)\<close> show "bit (a AND NOT m) n = bit a n"
    by (auto simp: bit_and_iff bit_not_iff)
qed

lemma PTE_ADDR_or:
  assumes "aligned a" "f AND NOT 0xFFF = 0"
  shows "PTE_ADDR (a OR f) = a"
proof -
  have "(a OR f) AND NOT 0xFFF = (a AND NOT 0xFFF) OR (f AND NOT 0xFFF)"
    by (rule bit.conj_disj_distrib2)
  with assms and_not_if_and_zero [of a "0xFFF"] show ?thesis
    unfolding PTE_ADDR_def aligned_bits by (simp only: bit.disj_zero_right)
qed

lemma present_or: "present (a OR f OR PTE_P)"
proof -
  have "bit ((a OR f OR PTE_P) AND PTE_P) 0"
    by (simp add: PTE_P_def bit_and_iff bit_or_iff)
  then show ?thesis by (auto simp: present_def)
qed

lemma present_or3: "present (a OR PTE_P OR f OR g)"
proof -
  have "bit ((a OR PTE_P OR f OR g) AND PTE_P) 0"
    by (simp add: PTE_P_def bit_and_iff bit_or_iff)
  then show ?thesis by (auto simp: present_def)
qed

lemma not_present_0 [simp]: "\<not> present 0"
  by (simp add: present_def)

lemma aligned_v2p: "page_ok kend p \<Longrightarrow> aligned (v2p p)"
proof -
  assume p: "page_ok kend p"
  then have "unat p = unat (v2p p) + 0x80000000"
    by (simp add: page_ok_def unat_below_PHYSTOP(1))
  then have "unat p = unat (v2p p) + 524288 * 4096" by simp
  then have "unat p mod 4096 = unat (v2p p) mod 4096" by (simp only: mod_mult_self1)
  with p show ?thesis by (simp add: page_ok_def PGSIZE_def aligned_def)
qed

lemma table_entry:
  assumes "page_ok kend p"
  shows "p2v (PTE_ADDR (v2p p OR PTE_P OR PTE_W OR PTE_U)) = p"
    and "present (v2p p OR PTE_P OR PTE_W OR PTE_U)"
proof -
  have "PTE_ADDR (v2p p OR (PTE_P OR PTE_W OR PTE_U)) = v2p p"
    using aligned_v2p [OF assms] by (rule PTE_ADDR_or) (simp add: PTE_P_def PTE_W_def PTE_U_def)
  then show "p2v (PTE_ADDR (v2p p OR PTE_P OR PTE_W OR PTE_U)) = p"
    by (simp add: or.assoc)
  show "present (v2p p OR PTE_P OR PTE_W OR PTE_U)" by (rule present_or3)
qed

end
