(* ===== verification/Spinlock.thy ===== *)
theory Spinlock
  imports Prelude
begin

text \<open>
  Spin locks and interrupt nesting (\<^verbatim>\<open>spinlock.c\<close>). The first part models each function as a
  transformer of the calling CPU's state and of one lock; \<^verbatim>\<open>acquire\<close> on a lock that is taken
  spins. The second part is the machine of several CPUs using one lock, with one step per atomic
  action of \<^verbatim>\<open>acquire\<close> and \<^verbatim>\<open>release\<close>, and its mutual-exclusion invariant, which justifies that
  the other theories treat what runs under a lock as one atomic operation.
\<close>

section \<open>Operations\<close>

record cpu_state =
  eflags_IF :: bool
  ncli :: int
  intena :: bool

record spinlock =
  locked :: u32
  lk_name :: string
  lk_cpu :: "nat option"
  pcs :: "u32 list"

definition initlock :: "string \<Rightarrow> spinlock \<Rightarrow> spinlock" where
  "initlock name lk = lk\<lparr>lk_name := name, locked := 0, lk_cpu := None\<rparr>"

definition holding :: "nat \<Rightarrow> spinlock \<Rightarrow> bool" where
  "holding c lk \<longleftrightarrow> locked lk \<noteq> 0 \<and> lk_cpu lk = Some c"

definition pushcli :: "cpu_state \<Rightarrow> cpu_state" where
  "pushcli cp =
     (let eflags = eflags_IF cp;
          cp = cp\<lparr>eflags_IF := False\<rparr>;
          n = ncli cp;
          cp = cp\<lparr>ncli := n + 1\<rparr>
      in if n = 0 then cp\<lparr>intena := eflags\<rparr> else cp)"

definition popcli :: "cpu_state \<Rightarrow> cpu_state outcome" where
  "popcli cp =
     (if eflags_IF cp then Inl (Panic ''popcli - interruptible'')
      else let cp = cp\<lparr>ncli := ncli cp - 1\<rparr>
           in if ncli cp < 0 then Inl (Panic ''popcli'')
              else if ncli cp = 0 \<and> intena cp then Inr (cp\<lparr>eflags_IF := True\<rparr>)
              else Inr cp)"

text \<open>
  \<^verbatim>\<open>getcallerpcs\<close> follows the chain of saved frame pointers, reading memory through \<open>rd\<close>, for at
  most ten frames; it stops at an address outside the kernel and fills up with zeros.
\<close>

primrec follow_ebp :: "(u32 \<Rightarrow> u32) \<Rightarrow> u32 \<Rightarrow> nat \<Rightarrow> u32 list" where
  "follow_ebp rd ebp 0 = []"
| "follow_ebp rd ebp (Suc n) =
     (if ebp = 0 \<or> ebp < 0x80000000 \<or> ebp = 0xffffffff then replicate (Suc n) 0
      else rd (ebp + 4) # follow_ebp rd (rd ebp) n)"

definition getcallerpcs :: "(u32 \<Rightarrow> u32) \<Rightarrow> u32 \<Rightarrow> u32 list" where
  "getcallerpcs rd v = follow_ebp rd (v - 8) 10"

definition acquire :: "nat \<Rightarrow> (u32 \<Rightarrow> u32) \<Rightarrow> u32 \<Rightarrow> cpu_state \<Rightarrow> spinlock \<Rightarrow>
    (cpu_state \<times> spinlock) outcome" where
  "acquire c rd v cp lk =
     (let cp = pushcli cp
      in if holding c lk then Inl (Panic ''acquire'')
         else if locked lk \<noteq> 0 then Inl Spin
         else Inr (cp, lk\<lparr>locked := 1, lk_cpu := Some c, pcs := getcallerpcs rd v\<rparr>))"

definition release :: "nat \<Rightarrow> cpu_state \<Rightarrow> spinlock \<Rightarrow> (cpu_state \<times> spinlock) outcome" where
  "release c cp lk =
     (if \<not> holding c lk then Inl (Panic ''release'')
      else let lk = lk\<lparr>pcs := (pcs lk)[0 := 0], lk_cpu := None, locked := 0\<rparr>
           in run (popcli cp) (\<lambda>cp. Inr (cp, lk)))"

lemma length_follow_ebp: "length (follow_ebp rd ebp n) = n"
  by (induction n arbitrary: ebp) auto

lemma popcli_pushcli:
  assumes "0 \<le> ncli cp" "ncli cp > 0 \<Longrightarrow> \<not> eflags_IF cp"
  shows "\<exists>cp'. popcli (pushcli cp) = Inr cp' \<and> ncli cp' = ncli cp \<and> eflags_IF cp' = eflags_IF cp"
  using assms by (auto simp: popcli_def pushcli_def Let_def)

section \<open>Several CPUs and one lock\<close>

text \<open>
  Where a CPU stands: outside; spinning in \<^verbatim>\<open>acquire\<close>; past the successful \<^verbatim>\<open>xchg\<close> but not yet
  recorded as owner; in its critical section; in \<^verbatim>\<open>release\<close> between clearing the owner and the
  \<^verbatim>\<open>xchg\<close>; and about to call \<^verbatim>\<open>popcli\<close>.
\<close>

datatype lock_pc = Outside | Trying | Got | Critical | Releasing | Popping

record smp =
  smp_pc :: "nat \<Rightarrow> lock_pc"
  smp_cpu :: "nat \<Rightarrow> cpu_state"
  smp_lock :: spinlock

definition smp_init :: smp where
  "smp_init = \<lparr>smp_pc = (\<lambda>_. Outside),
     smp_cpu = (\<lambda>_. \<lparr>eflags_IF = True, ncli = 0, intena = False\<rparr>),
     smp_lock = \<lparr>locked = 0, lk_name = [], lk_cpu = None, pcs = replicate 10 0\<rparr>\<rparr>"

text \<open>The outcome of one atomic action of CPU \<open>c\<close>.\<close>

fun smp_action :: "nat \<Rightarrow> smp \<Rightarrow> smp outcome" where
  "smp_action c s =
     (case smp_pc s c of
        Outside \<Rightarrow>
          let cp = pushcli (smp_cpu s c)
          in if holding c (smp_lock s) then Inl (Panic ''acquire'')
             else Inr (s\<lparr>smp_cpu := (smp_cpu s)(c := cp), smp_pc := (smp_pc s)(c := Trying)\<rparr>)
      | Trying \<Rightarrow>
          let old = locked (smp_lock s)
          in Inr (s\<lparr>smp_lock := (smp_lock s)\<lparr>locked := 1\<rparr>,
                   smp_pc := (smp_pc s)(c := if old = 0 then Got else Trying)\<rparr>)
      | Got \<Rightarrow>
          Inr (s\<lparr>smp_lock := (smp_lock s)\<lparr>lk_cpu := Some c\<rparr>, smp_pc := (smp_pc s)(c := Critical)\<rparr>)
      | Critical \<Rightarrow>
          if \<not> holding c (smp_lock s) then Inl (Panic ''release'')
          else Inr (s\<lparr>smp_lock := (smp_lock s)\<lparr>lk_cpu := None\<rparr>,
                     smp_pc := (smp_pc s)(c := Releasing)\<rparr>)
      | Releasing \<Rightarrow>
          Inr (s\<lparr>smp_lock := (smp_lock s)\<lparr>locked := 0\<rparr>, smp_pc := (smp_pc s)(c := Popping)\<rparr>)
      | Popping \<Rightarrow>
          run (popcli (smp_cpu s c))
            (\<lambda>cp. Inr (s\<lparr>smp_cpu := (smp_cpu s)(c := cp), smp_pc := (smp_pc s)(c := Outside)\<rparr>)))"

inductive smp_reach :: "smp \<Rightarrow> bool" where
  start: "smp_reach smp_init"
| act: "smp_reach s \<Longrightarrow> smp_action c s = Inr t \<Longrightarrow> smp_reach t"

text \<open>A CPU owns the lock from its successful \<^verbatim>\<open>xchg\<close> to the \<^verbatim>\<open>xchg\<close> of \<^verbatim>\<open>release\<close>.\<close>

fun owning :: "lock_pc \<Rightarrow> bool" where
  "owning Got = True"
| "owning Critical = True"
| "owning Releasing = True"
| "owning _ = False"

definition owns :: "smp \<Rightarrow> nat \<Rightarrow> bool" where
  "owns s c = owning (smp_pc s c)"

text \<open>What the code keeps true between the lock word, the owner field and the CPUs.\<close>

definition lock_agrees :: "smp \<Rightarrow> bool" where
  "lock_agrees s \<longleftrightarrow>
     (\<forall>i j. owns s i \<and> owns s j \<longrightarrow> i = j) \<and>
     (locked (smp_lock s) = 0 \<longleftrightarrow> (\<forall>i. \<not> owns s i)) \<and>
     (\<forall>i. lk_cpu (smp_lock s) = Some i \<longleftrightarrow> smp_pc s i = Critical)"

fun cli_ok :: "lock_pc \<Rightarrow> cpu_state \<Rightarrow> bool" where
  "cli_ok Outside cp = (ncli cp = 0 \<and> eflags_IF cp)"
| "cli_ok _ cp = (ncli cp = 1 \<and> \<not> eflags_IF cp \<and> intena cp)"

definition cli_agrees :: "smp \<Rightarrow> bool" where
  "cli_agrees s \<longleftrightarrow> (\<forall>c. cli_ok (smp_pc s c) (smp_cpu s c))"

lemma smp_init_agrees: "lock_agrees smp_init" "cli_agrees smp_init"
  by (simp_all add: lock_agrees_def cli_agrees_def smp_init_def owns_def)

lemma smp_action_cli:
  assumes "cli_agrees s" "smp_action c s = Inr t"
  shows "cli_agrees t"
proof -
  have c: "cli_ok (smp_pc s c) (smp_cpu s c)"
    using assms(1) by (simp add: cli_agrees_def)
  have frame: "smp_pc t = (smp_pc s)(c := smp_pc t c)" "smp_cpu t = (smp_cpu s)(c := smp_cpu t c)"
    using assms(2) by (auto simp: Let_def fun_upd_idem split: lock_pc.splits if_splits)
  have "cli_ok (smp_pc t c) (smp_cpu t c)"
    using c assms(2)
    by (cases "smp_pc s c") (auto simp: pushcli_def popcli_def Let_def split: if_splits)
  with assms(1) frame show ?thesis
    unfolding cli_agrees_def by (metis fun_upd_apply)
qed

lemma lock_agrees_same:
  assumes "lock_agrees s" "\<And>i. owns t i = owns s i"
    "\<And>i. (smp_pc t i = Critical) = (smp_pc s i = Critical)"
    "(locked (smp_lock t) = 0) = (locked (smp_lock s) = 0)"
    "lk_cpu (smp_lock t) = lk_cpu (smp_lock s)"
  shows "lock_agrees t"
  using assms by (simp add: lock_agrees_def)

lemma lock_agrees_one:
  assumes "\<And>i. owns t i \<longleftrightarrow> i = c" "locked (smp_lock t) \<noteq> 0"
    "\<And>i. lk_cpu (smp_lock t) = Some i \<longleftrightarrow> smp_pc t i = Critical"
  shows "lock_agrees t"
  using assms by (simp add: lock_agrees_def)

lemma lock_agrees_none:
  assumes "\<And>i. \<not> owns t i" "locked (smp_lock t) = 0" "lk_cpu (smp_lock t) = None"
  shows "lock_agrees t"
proof -
  have "smp_pc t i \<noteq> Critical" for i
    using assms(1) [of i] by (auto simp: owns_def)
  with assms show ?thesis by (simp add: lock_agrees_def)
qed

lemma owner_only: "lock_agrees s \<Longrightarrow> owns s c \<Longrightarrow> owns s i \<longleftrightarrow> i = c"
  by (auto simp: lock_agrees_def)

lemma owner_locked: "lock_agrees s \<Longrightarrow> owns s c \<Longrightarrow> locked (smp_lock s) \<noteq> 0"
  by (auto simp: lock_agrees_def)

lemma owner_field: "lock_agrees s \<Longrightarrow> lk_cpu (smp_lock s) = Some i \<longleftrightarrow> smp_pc s i = Critical"
  by (auto simp: lock_agrees_def)

lemma smp_action_lock:
  assumes s: "lock_agrees s" and a: "smp_action c s = Inr t"
  shows "lock_agrees t"
proof (cases "smp_pc s c")
  case Outside
  then have "t = s\<lparr>smp_cpu := (smp_cpu s)(c := pushcli (smp_cpu s c)),
      smp_pc := (smp_pc s)(c := Trying)\<rparr>"
    using a by (simp add: Let_def split: if_splits)
  with Outside show ?thesis
    by (intro lock_agrees_same [OF s]) (simp_all add: owns_def)
next
  case Trying
  then have t: "t = s\<lparr>smp_lock := (smp_lock s)\<lparr>locked := 1\<rparr>,
      smp_pc := (smp_pc s)(c := if locked (smp_lock s) = 0 then Got else Trying)\<rparr>"
    using a by (simp add: Let_def)
  show ?thesis
  proof (cases "locked (smp_lock s) = 0")
    case True
    show ?thesis
    proof (rule lock_agrees_one [of _ c])
      fix i
      have n: "\<not> owns s i" using s True by (simp add: lock_agrees_def)
      show "owns t i \<longleftrightarrow> i = c" using n True by (simp add: t owns_def)
      have "smp_pc s i \<noteq> Critical" using n by (auto simp: owns_def)
      with owner_field [OF s, of i] show "lk_cpu (smp_lock t) = Some i \<longleftrightarrow> smp_pc t i = Critical"
        using True by (simp add: t)
    qed (simp add: t)
  next
    case False
    with Trying show ?thesis
      by (intro lock_agrees_same [OF s]) (simp_all add: t owns_def)
  qed
next
  case Got
  then have c: "owns s c" and t: "t = s\<lparr>smp_lock := (smp_lock s)\<lparr>lk_cpu := Some c\<rparr>,
      smp_pc := (smp_pc s)(c := Critical)\<rparr>"
    using a by (simp_all add: owns_def)
  show ?thesis
  proof (rule lock_agrees_one [of _ c])
    fix i
    show "owns t i \<longleftrightarrow> i = c"
      using owner_only [OF s c, of i] by (simp add: t owns_def)
    show "lk_cpu (smp_lock t) = Some i \<longleftrightarrow> smp_pc t i = Critical"
      using owner_only [OF s c, of i] by (cases "smp_pc s i") (auto simp: t owns_def)
  qed (use owner_locked [OF s c] in \<open>simp add: t\<close>)
next
  case Critical
  then have c: "owns s c" and t: "t = s\<lparr>smp_lock := (smp_lock s)\<lparr>lk_cpu := None\<rparr>,
      smp_pc := (smp_pc s)(c := Releasing)\<rparr>"
    using a by (simp_all add: owns_def split: if_splits)
  show ?thesis
  proof (rule lock_agrees_one [of _ c])
    fix i
    show "owns t i \<longleftrightarrow> i = c"
      using owner_only [OF s c, of i] by (simp add: t owns_def)
    show "lk_cpu (smp_lock t) = Some i \<longleftrightarrow> smp_pc t i = Critical"
      using owner_only [OF s c, of i] by (cases "smp_pc s i") (auto simp: t owns_def)
  qed (use owner_locked [OF s c] in \<open>simp add: t\<close>)
next
  case Releasing
  then have c: "owns s c" and t: "t = s\<lparr>smp_lock := (smp_lock s)\<lparr>locked := 0\<rparr>,
      smp_pc := (smp_pc s)(c := Popping)\<rparr>"
    using a by (simp_all add: owns_def)
  have "smp_pc s i \<noteq> Critical" for i
    using owner_only [OF s c, of i] Releasing by (auto simp: owns_def)
  then have "lk_cpu (smp_lock s) = None"
    using owner_field [OF s] by (meson option.exhaust)
  moreover have "\<not> owns t i" for i
    using owner_only [OF s c, of i] by (simp add: t owns_def)
  ultimately show ?thesis
    by (intro lock_agrees_none) (simp_all add: t)
next
  case Popping
  then obtain cp where "t = s\<lparr>smp_cpu := (smp_cpu s)(c := cp), smp_pc := (smp_pc s)(c := Outside)\<rparr>"
    using a by auto
  with Popping show ?thesis
    by (intro lock_agrees_same [OF s]) (simp_all add: owns_def)
qed

lemma smp_reach_agrees:
  assumes "smp_reach s"
  shows "lock_agrees s" "cli_agrees s"
  using assms
  by (induction rule: smp_reach.induct) (blast intro: smp_init_agrees smp_action_lock smp_action_cli)+

section \<open>Properties\<close>

lemma smp_action_safe:
  assumes "lock_agrees s" "cli_agrees s"
  shows "\<exists>t. smp_action c s = Inr t"
proof -
  have "cli_ok (smp_pc s c) (smp_cpu s c)"
    using assms(2) by (simp add: cli_agrees_def)
  moreover have "smp_pc s c = Critical \<Longrightarrow> holding c (smp_lock s)"
    using assms(1) owner_locked [of s c] by (simp add: lock_agrees_def holding_def owns_def)
  moreover have "smp_pc s c = Outside \<Longrightarrow> \<not> holding c (smp_lock s)"
    using assms(1) by (simp add: lock_agrees_def holding_def)
  ultimately show ?thesis
    by (cases "smp_pc s c") (auto simp: popcli_def Let_def)
qed

text \<open>C10. Mutual exclusion: in every reachable state of any number of CPUs interleaving the
  atomic actions of \<^verbatim>\<open>acquire\<close> and \<^verbatim>\<open>release\<close> on one lock, at most one of them is between its
  successful \<^verbatim>\<open>xchg\<close> and the \<^verbatim>\<open>xchg\<close> that frees the lock, no action panics (\<^verbatim>\<open>holding\<close> and
  \<^verbatim>\<open>popcli\<close> find what they expect), and a CPU inside has its interrupts off.\<close>

theorem spinlock_mutual_exclusion:
  assumes "smp_reach s"
  shows "(owns s i \<and> owns s j \<longrightarrow> i = j) \<and> (\<exists>t. smp_action i s = Inr t) \<and>
    (owns s i \<longrightarrow> \<not> eflags_IF (smp_cpu s i))"
proof (intro conjI impI)
  note inv = smp_reach_agrees [OF assms]
  show "i = j" if "owns s i \<and> owns s j" using inv(1) that by (simp add: lock_agrees_def)
  show "\<exists>t. smp_action i s = Inr t" using inv by (rule smp_action_safe)
  have "cli_ok (smp_pc s i) (smp_cpu s i)" using inv(2) by (simp add: cli_agrees_def)
  then show "\<not> eflags_IF (smp_cpu s i)" if "owns s i"
    using that by (cases "smp_pc s i") (simp_all add: owns_def)
qed

text \<open>CPU 0 has taken the lock, in two actions.\<close>

definition smp_example1 :: smp where
  "smp_example1 = smp_init\<lparr>smp_cpu := (smp_cpu smp_init)(0 := \<lparr>eflags_IF = False, ncli = 1, intena = True\<rparr>),
     smp_pc := (\<lambda>_. Outside)(0 := Trying)\<rparr>"

definition smp_example :: smp where
  "smp_example = smp_example1\<lparr>smp_lock := (smp_lock smp_init)\<lparr>locked := 1\<rparr>, smp_pc := (\<lambda>_. Outside)(0 := Got)\<rparr>"

lemma smp_example_reach: "smp_reach smp_example"
proof (rule smp_reach.act [of smp_example1 0])
  show "smp_reach smp_example1"
    by (rule smp_reach.act [OF smp_reach.start, of 0])
      (simp add: smp_example1_def smp_init_def holding_def pushcli_def Let_def)
  show "smp_action 0 smp_example1 = Inr smp_example"
    by (simp add: smp_example_def smp_example1_def smp_init_def)
qed

theorem spinlock_mutual_exclusion_witness:
  "owns smp_example 0 \<and> \<not> owns smp_example 1 \<and> (\<exists>t. smp_action 0 smp_example = Inr t) \<and>
   \<not> eflags_IF (smp_cpu smp_example 0)"
proof -
  have "owns smp_example 0" by (simp add: owns_def smp_example_def)
  with spinlock_mutual_exclusion [OF smp_example_reach, of 0 1] show ?thesis by auto
qed

text \<open>C20. \<^verbatim>\<open>release\<close> undoes \<^verbatim>\<open>acquire\<close>: a CPU that takes a free lock and releases it again never
  panics, finds the lock free, its nesting depth unchanged, and interrupts enabled exactly if they
  were before, at every nesting depth at which the kernel runs. Inside an outer lock the flag that
  the outer lock saved survives, so that its own release restores it; at depth 0 the saved flag is
  the state of the interrupts before.\<close>

theorem acquire_release_restores:
  assumes "locked lk = 0" "0 \<le> ncli cp" "ncli cp > 0 \<longrightarrow> \<not> eflags_IF cp"
  shows "\<exists>cp1 lk1 cp2 lk2. acquire c rd v cp lk = Inr (cp1, lk1) \<and> \<not> eflags_IF cp1 \<and>
    holding c lk1 \<and> release c cp1 lk1 = Inr (cp2, lk2) \<and>
    locked lk2 = 0 \<and> ncli cp2 = ncli cp \<and> eflags_IF cp2 = eflags_IF cp \<and>
    intena cp2 = (if ncli cp = 0 then eflags_IF cp else intena cp)"
  using assms
  by (auto simp: acquire_def release_def holding_def popcli_def pushcli_def Let_def)

theorem acquire_release_restores_witness:
  "\<exists>cp1 lk1 cp2 lk2. acquire 0 (\<lambda>_. 0) 0 (smp_cpu smp_init 0) (smp_lock smp_init) = Inr (cp1, lk1) \<and>
    \<not> eflags_IF cp1 \<and> holding 0 lk1 \<and> release 0 cp1 lk1 = Inr (cp2, lk2) \<and>
    locked lk2 = 0 \<and> ncli cp2 = ncli (smp_cpu smp_init 0) \<and>
    eflags_IF cp2 = eflags_IF (smp_cpu smp_init 0) \<and>
    intena cp2 = (if ncli (smp_cpu smp_init 0) = 0 then eflags_IF (smp_cpu smp_init 0) else intena (smp_cpu smp_init 0))"
  by (rule acquire_release_restores) (simp_all add: smp_init_def)

end
