(* ===== verification/ProcTable.thy ===== *)
theory ProcTable
  imports Vm Spinlock
begin

text \<open>
  The process table and the scheduler (\<^verbatim>\<open>proc.c\<close>, \<^verbatim>\<open>proc.h\<close>). The state extends the memory
  state by the table, the counters and the current process of the single CPU modelled here; the code
  between \<^verbatim>\<open>acquire(&ptable.lock)\<close> and \<^verbatim>\<open>release(&ptable.lock)\<close> is one step. A process pointer is an
  index into the table, null being \<open>None\<close>; the trap frame and the context, which the code keeps at the
  top of the kernel stack, are components of the process.

  A process gives up the CPU in \<^verbatim>\<open>sched\<close>, which the model ends where the scheduler has run
  \<^verbatim>\<open>switchkvm(); proc = 0;\<close>. The scheduler's position between two dispatches is an explicit
  program counter.
\<close>

section \<open>State\<close>

datatype procstate = UNUSED | EMBRYO | SLEEPING | RUNNABLE | RUNNING | ZOMBIE

record trapframe =
  tf_eax :: u32
  tf_trapno :: u32
  tf_err :: u32
  tf_eip :: u32
  tf_cs :: u32
  tf_ds :: u32
  tf_es :: u32
  tf_ss :: u32
  tf_eflags :: u32
  tf_esp :: u32

datatype resume = Forkret | In_sched

record proc =
  sz :: u32
  pgdir :: u32
  kstack :: u32
  state :: procstate
  pid :: int
  parent :: "nat option"
  tf :: trapframe
  pcontext :: resume
  chan :: "chan option"
  killed :: bool
  ofile :: "nat option list"
  cwd :: "nat option"
  pname :: "u8 list"
  shm_name :: "u8 list list"
  shm_vir :: "u32 list"
  shm_phys :: "u32 list"
  mxproc :: "int list"

definition NPROC :: nat where "NPROC = 64"
definition NOFILE :: nat where "NOFILE = 16"
definition SHM_MAXNUM :: nat where "SHM_MAXNUM = 32"
definition MUX_MAXNUM :: nat where "MUX_MAXNUM = 10"

record kern = vmem +
  ptable :: "proc list"
  highpid :: int
  initproc :: "nat option"
  nextpid :: int
  curproc :: "nat option"

definition upd_proc :: "nat \<Rightarrow> (proc \<Rightarrow> proc) \<Rightarrow> 'z kern_scheme \<Rightarrow> 'z kern_scheme" where
  "upd_proc i f s = s\<lparr>ptable := (ptable s)[i := f (ptable s ! i)]\<rparr>"

text \<open>Code that dereferences the global \<^verbatim>\<open>proc\<close>.\<close>

definition with_proc :: "'z kern_scheme \<Rightarrow> (nat \<Rightarrow> 'a outcome) \<Rightarrow> 'a outcome" where
  "with_proc s f = (case curproc s of None \<Rightarrow> Inl NullDeref | Some i \<Rightarrow> f i)"

section \<open>Operations on the table\<close>

definition pinit :: "'z kern_scheme \<Rightarrow> 'z kern_scheme" where
  "pinit s = s\<lparr>highpid := 0\<rparr>"

definition allocproc :: "'z kern_scheme \<Rightarrow> nat option \<times> 'z kern_scheme" where
  "allocproc s =
     (case scan (\<lambda>p. state p = UNUSED) (ptable s) of
        None \<Rightarrow> (None, s)
      | Some i \<Rightarrow>
          let s = upd_proc i (\<lambda>p. p\<lparr>state := EMBRYO, pid := nextpid s, mxproc := replicate MUX_MAXNUM (-1)\<rparr>) s;
              s = s\<lparr>nextpid := nextpid s + 1\<rparr>;
              (k, s) = kalloc s;
              s = upd_proc i (\<lambda>p. p\<lparr>kstack := k\<rparr>) s
          in if k = 0 then (None, upd_proc i (\<lambda>p. p\<lparr>state := UNUSED\<rparr>) s)
             else (Some i, upd_proc i (\<lambda>p. p\<lparr>pcontext := Forkret\<rparr>) s))"

definition wakeup1 :: "chan option \<Rightarrow> 'z kern_scheme \<Rightarrow> 'z kern_scheme" where
  "wakeup1 c s = s\<lparr>ptable :=
     map (\<lambda>p. if state p = SLEEPING \<and> chan p = c then p\<lparr>state := RUNNABLE\<rparr> else p) (ptable s)\<rparr>"

definition wakeup :: "chan \<Rightarrow> 'z kern_scheme \<Rightarrow> 'z kern_scheme" where
  "wakeup c s = wakeup1 (Some c) s"

definition kill :: "int \<Rightarrow> 'z kern_scheme \<Rightarrow> int \<times> 'z kern_scheme" where
  "kill n s =
     (case scan (\<lambda>p. pid p = n) (ptable s) of
        Some i \<Rightarrow> (0, upd_proc i (\<lambda>p. p\<lparr>killed := True, state := (if state p = SLEEPING then RUNNABLE else state p)\<rparr>) s)
      | None \<Rightarrow> (-1, s))"

definition setHighPrio :: "'z kern_scheme \<Rightarrow> (int \<times> 'z kern_scheme) outcome" where
  "setHighPrio s = with_proc s (\<lambda>i. Inr (0, s\<lparr>highpid := pid (ptable s ! i)\<rparr>))"

section \<open>Giving up and getting the CPU\<close>

text \<open>
  \<^verbatim>\<open>sched\<close>: the arguments are what its first checks read, that \<^verbatim>\<open>ptable.lock\<close> is held, the depth of
  \<^verbatim>\<open>pushcli\<close> and the interrupt flag.
\<close>

definition sched :: "bool \<Rightarrow> nat \<Rightarrow> bool \<Rightarrow> 'z kern_scheme \<Rightarrow> 'z kern_scheme outcome" where
  "sched held depth intr s =
     (if \<not> held then Inl (Panic ''sched ptable.lock'')
      else if depth \<noteq> 1 then Inl (Panic ''sched locks'')
      else with_proc s (\<lambda>i.
        if state (ptable s ! i) = RUNNING then Inl (Panic ''sched running'')
        else if intr then Inl (Panic ''sched interruptible'')
        else Inr (switchkvm (upd_proc i (\<lambda>p. p\<lparr>pcontext := In_sched\<rparr>) s) \<lparr>curproc := None\<rparr>)))"

definition yield :: "'z kern_scheme \<Rightarrow> 'z kern_scheme outcome" where
  "yield s = with_proc s (\<lambda>i. sched True 1 False (upd_proc i (\<lambda>p. p\<lparr>state := RUNNABLE\<rparr>) s))"

text \<open>
  \<^verbatim>\<open>sleep\<close> up to its call of \<^verbatim>\<open>sched\<close>, with \<open>lk\<close> whether a lock was passed, and its continuation once
  the process is scheduled again.
\<close>

definition sleep :: "chan \<Rightarrow> bool \<Rightarrow> 'z kern_scheme \<Rightarrow> 'z kern_scheme outcome" where
  "sleep c lk s =
     (case curproc s of
        None \<Rightarrow> Inl (Panic ''sleep'')
      | Some i \<Rightarrow>
          if \<not> lk then Inl (Panic ''sleep without lk'')
          else sched True 1 False (upd_proc i (\<lambda>p. p\<lparr>chan := Some c, state := SLEEPING\<rparr>) s))"

definition sleep_return :: "'z kern_scheme \<Rightarrow> 'z kern_scheme outcome" where
  "sleep_return s = with_proc s (\<lambda>i. Inr (upd_proc i (\<lambda>p. p\<lparr>chan := None\<rparr>) s))"

datatype sched_pc = Top | Scan nat

text \<open>The scheduler's choice among the processes, at the top of its loop and inside the table scan.\<close>

definition pick_high :: "'z kern_scheme \<Rightarrow> nat option" where
  "pick_high s =
     (if highpid s \<noteq> 0 then scan (\<lambda>p. state p = RUNNABLE \<and> pid p = highpid s) (ptable s) else None)"

definition pick_scan :: "nat \<Rightarrow> 'z kern_scheme \<Rightarrow> nat option" where
  "pick_scan k s = map_option (\<lambda>j. k + j) (scan (\<lambda>p. state p = RUNNABLE) (drop k (ptable s)))"

definition dispatch :: "nat \<Rightarrow> 'z kern_scheme \<Rightarrow> 'z kern_scheme outcome" where
  "dispatch i s =
     (let s = s\<lparr>curproc := Some i\<rparr>
      in run (switchuvm (kstack (ptable s ! i)) (pgdir (ptable s ! i)) s)
           (\<lambda>s. Inr (upd_proc i (\<lambda>p. p\<lparr>state := RUNNING\<rparr>) s)))"

text \<open>One step of \<^verbatim>\<open>scheduler\<close>: run until a process is dispatched or the loop is back at its top.\<close>

definition scheduler :: "sched_pc \<Rightarrow> 'z kern_scheme \<Rightarrow> (nat option \<times> sched_pc \<times> 'z kern_scheme) outcome" where
  "scheduler pc s =
     (case (pc, pick_high s) of
        (Top, Some i) \<Rightarrow> run (dispatch i s) (\<lambda>s. Inr (Some i, Top, s))
      | _ \<Rightarrow>
          let k = (case pc of Top \<Rightarrow> 0 | Scan k \<Rightarrow> k)
          in case pick_scan k s of
               Some i \<Rightarrow> run (dispatch i s) (\<lambda>s. Inr (Some i, Scan (Suc i), s))
             | None \<Rightarrow> Inr (None, Top, s))"


text \<open>The part of \<^verbatim>\<open>exit\<close> under \<^verbatim>\<open>ptable.lock\<close>: wake the parent, pass the children on, become a zombie.\<close>

definition exit_tail :: "'z kern_scheme \<Rightarrow> 'z kern_scheme outcome" where
  "exit_tail s = with_proc s (\<lambda>i.
     let s = wakeup1 (map_option ChProc (parent (ptable s ! i))) s;
         orphan = (\<lambda>p. parent p = Some i);
         zombies = (\<exists>p \<in> set (ptable s). orphan p \<and> state p = ZOMBIE);
         s = s\<lparr>ptable := map (\<lambda>p. if orphan p then p\<lparr>parent := initproc s\<rparr> else p) (ptable s)\<rparr>;
         s = (if zombies then wakeup1 (map_option ChProc (initproc s)) s else s)
     in sched True 1 False (upd_proc i (\<lambda>p. p\<lparr>state := ZOMBIE\<rparr>) s))"

text \<open>The end of \<^verbatim>\<open>fork\<close>, and the fields of a zombie that \<^verbatim>\<open>wait\<close> resets.\<close>

definition make_runnable :: "nat \<Rightarrow> 'z kern_scheme \<Rightarrow> 'z kern_scheme" where
  "make_runnable i s = upd_proc i (\<lambda>p. p\<lparr>state := RUNNABLE\<rparr>) s"

definition clear_proc :: "proc \<Rightarrow> proc" where
  "clear_proc p = p\<lparr>state := UNUSED, pid := 0, parent := None, pname := (pname p)[0 := 0], killed := False\<rparr>"

section \<open>Every state of the table\<close>

text \<open>
  The moves of the table: the scheduler's, those of the running process, and wakeups, which interrupt
  handlers also perform. A process that \<^verbatim>\<open>fork\<close> or \<^verbatim>\<open>userinit\<close> makes runnable has its page
  directory.
\<close>

inductive kstep :: "sched_pc \<times> kern \<Rightarrow> sched_pc \<times> kern \<Rightarrow> bool" where
  Sched: "curproc s = None \<Longrightarrow> scheduler pc s = Inr (r, pc', s') \<Longrightarrow> kstep (pc, s) (pc', s')"
| Yield: "yield s = Inr s' \<Longrightarrow> kstep (pc, s) (pc, s')"
| Sleep: "sleep c lk s = Inr s' \<Longrightarrow> kstep (pc, s) (pc, s')"
| Sleep_return: "sleep_return s = Inr s' \<Longrightarrow> kstep (pc, s) (pc, s')"
| Wakeup: "kstep (pc, s) (pc, wakeup c s)"
| Kill: "kill n s = (r, s') \<Longrightarrow> kstep (pc, s) (pc, s')"
| High: "setHighPrio s = Inr (r, s') \<Longrightarrow> kstep (pc, s) (pc, s')"
| Alloc: "allocproc s = (r, s') \<Longrightarrow> kstep (pc, s) (pc, s')"
| Image: "i < length (ptable s) \<Longrightarrow> state (ptable s ! i) = EMBRYO \<Longrightarrow> d \<noteq> 0 \<Longrightarrow>
    kstep (pc, s) (pc, upd_proc i (\<lambda>p. p\<lparr>pgdir := d\<rparr>) s)"
| Runnable: "i < length (ptable s) \<Longrightarrow> state (ptable s ! i) = EMBRYO \<Longrightarrow> pgdir (ptable s ! i) \<noteq> 0 \<Longrightarrow>
    kstep (pc, s) (pc, make_runnable i s)"
| Exit: "exit_tail s = Inr s' \<Longrightarrow> kstep (pc, s) (pc, s')"
| Reap: "i < length (ptable s) \<Longrightarrow> state (ptable s ! i) = ZOMBIE \<Longrightarrow>
    kstep (pc, s) (pc, upd_proc i clear_proc s)"

text \<open>
  What holds in every state, of one process and of the table.
\<close>

definition proc_ok :: "int \<Rightarrow> nat option \<Rightarrow> nat \<Rightarrow> proc \<Rightarrow> bool" where
  "proc_ok nxt cur i p \<longleftrightarrow>
     (state p = RUNNING \<longleftrightarrow> cur = Some i) \<and>
     (state p \<noteq> UNUSED \<longrightarrow> 0 < pid p \<and> pid p < nxt) \<and>
     (state p \<in> {SLEEPING, RUNNABLE, RUNNING} \<longrightarrow> pgdir p \<noteq> 0) \<and>
     (state p = SLEEPING \<longrightarrow> chan p \<noteq> None)"

definition table_ok :: "'z kern_scheme \<Rightarrow> bool" where
  "table_ok s \<longleftrightarrow>
     (\<forall>i < length (ptable s). proc_ok (nextpid s) (curproc s) i (ptable s ! i)) \<and>
     (\<forall>i < length (ptable s). \<forall>j < length (ptable s). state (ptable s ! i) \<noteq> UNUSED \<longrightarrow>
        state (ptable s ! j) \<noteq> UNUSED \<longrightarrow> pid (ptable s ! i) = pid (ptable s ! j) \<longrightarrow> i = j) \<and>
     (\<forall>i. curproc s = Some i \<longrightarrow> i < length (ptable s)) \<and> 0 < nextpid s"

text \<open>Changing one process of the table, and the current process with it.\<close>

lemma table_ok_upd:
  assumes "table_ok s" "i < length (ptable s)" "proc_ok n cur i (f (ptable s ! i))"
    and "\<And>j. j < length (ptable s) \<Longrightarrow> j \<noteq> i \<Longrightarrow> proc_ok n cur j (ptable s ! j)"
    and "\<And>j. j < length (ptable s) \<Longrightarrow> j \<noteq> i \<Longrightarrow> state (f (ptable s ! i)) \<noteq> UNUSED \<Longrightarrow>
      state (ptable s ! j) \<noteq> UNUSED \<Longrightarrow> pid (f (ptable s ! i)) \<noteq> pid (ptable s ! j)"
    and "\<And>j. cur = Some j \<Longrightarrow> j < length (ptable s)" "0 < n"
    and s': "ptable s' = (ptable s)[i := f (ptable s ! i)]" "nextpid s' = n" "curproc s' = cur"
  shows "table_ok s'"
proof -
  have "proc_ok n cur j (ptable s' ! j)" if "j < length (ptable s)" for j
    using assms(2-4) that by (cases "j = i") (simp_all add: s')
  moreover have "j = k" if "j < length (ptable s)" "k < length (ptable s)"
      "state (ptable s' ! j) \<noteq> UNUSED" "state (ptable s' ! k) \<noteq> UNUSED"
      "pid (ptable s' ! j) = pid (ptable s' ! k)" for j k
    using assms(1,2) assms(5) [of j] assms(5) [of k] that
    by (cases "j = i"; cases "k = i") (auto simp: s' table_ok_def)
  ultimately show ?thesis using assms(2,6,7) by (auto simp: table_ok_def s')
qed

lemma table_okD:
  assumes "table_ok s" "i < length (ptable s)"
  shows "proc_ok (nextpid s) (curproc s) i (ptable s ! i)"
  using assms by (simp add: table_ok_def)

text \<open>An update that keeps the pid, on a state with the same counter.\<close>

lemma table_ok_upd_same_pid:
  assumes ok: "table_ok s" and i: "i < length (ptable s)" and p: "proc_ok (nextpid s) cur i (f (ptable s ! i))"
    and cur: "\<And>j. j < length (ptable s) \<Longrightarrow> j \<noteq> i \<Longrightarrow> (cur = Some j) = (curproc s = Some j)"
      "\<And>j. cur = Some j \<Longrightarrow> j < length (ptable s)"
    and pid: "state (f (ptable s ! i)) \<noteq> UNUSED \<Longrightarrow> state (ptable s ! i) \<noteq> UNUSED \<and> pid (f (ptable s ! i)) = pid (ptable s ! i)"
    and s': "ptable s' = (ptable s)[i := f (ptable s ! i)]" "nextpid s' = nextpid s" "curproc s' = cur"
  shows "table_ok s'"
  using ok i p
proof (rule table_ok_upd)
  fix j assume j: "j < length (ptable s)" "j \<noteq> i"
  show "proc_ok (nextpid s) cur j (ptable s ! j)"
    using table_okD [OF ok j(1)] cur(1) [OF j] by (simp add: proc_ok_def)
  show "state (f (ptable s ! i)) \<noteq> UNUSED \<Longrightarrow> state (ptable s ! j) \<noteq> UNUSED \<Longrightarrow>
      pid (f (ptable s ! i)) \<noteq> pid (ptable s ! j)"
    using ok i j pid unfolding table_ok_def by metis
qed (use ok cur s' in \<open>auto simp: table_ok_def\<close>)


lemma table_ok_map:
  assumes ok: "table_ok s" and f: "\<And>p. pid (f p) = pid p" "\<And>p. pgdir (f p) = pgdir p" "\<And>p. chan (f p) = chan p"
    "\<And>p. state (f p) = state p \<or> state p = SLEEPING \<and> state (f p) = RUNNABLE"
    and s': "ptable s' = map f (ptable s)" "nextpid s' = nextpid s" "curproc s' = curproc s"
  shows "table_ok s'"
proof -
  have "proc_ok n c i (f p)" if "proc_ok n c i p" for n c i p
    using that f(4) [of p] by (auto simp: proc_ok_def f(1-3))
  moreover have "state (f p) = UNUSED \<longleftrightarrow> state p = UNUSED" for p using f(4) [of p] by auto
  ultimately show ?thesis using ok by (simp add: table_ok_def s' f(1))
qed

lemma table_ok_wakeup1: "table_ok s \<Longrightarrow> table_ok (wakeup1 c s)"
  by (rule table_ok_map [where f = "\<lambda>p. if state p = SLEEPING \<and> chan p = c then p\<lparr>state := RUNNABLE\<rparr> else p"])
    (auto simp: wakeup1_def)

text \<open>Leaving the CPU in a state other than \<open>RUNNING\<close>.\<close>

lemma table_ok_leave:
  assumes ok: "table_ok s" and c: "curproc s = Some i"
    and f: "pid (f (ptable s ! i)) = pid (ptable s ! i)" "pgdir (f (ptable s ! i)) = pgdir (ptable s ! i)"
      "state (f (ptable s ! i)) \<in> {SLEEPING, RUNNABLE, ZOMBIE}"
      "state (f (ptable s ! i)) = SLEEPING \<Longrightarrow> chan (f (ptable s ! i)) \<noteq> None"
    and r: "sched True 1 False (upd_proc i f s) = Inr s'"
  shows "table_ok s'"
proof -
  have i: "i < length (ptable s)" using ok c by (simp add: table_ok_def)
  have p: "proc_ok (nextpid s) (Some i) i (ptable s ! i)" using table_okD [OF ok i] by (simp add: c)
  have s': "ptable s' = (ptable s)[i := (f (ptable s ! i))\<lparr>pcontext := In_sched\<rparr>]" "nextpid s' = nextpid s"
    "curproc s' = None"
  proof -
    have "state (f (ptable s ! i)) \<noteq> RUNNING" using f(3) by auto
    then have "s' = switchkvm (upd_proc i (\<lambda>p. p\<lparr>pcontext := In_sched\<rparr>) (upd_proc i f s))\<lparr>curproc := None\<rparr>"
      using r i c by (simp add: sched_def with_proc_def upd_proc_def)
    then show "ptable s' = (ptable s)[i := (f (ptable s ! i))\<lparr>pcontext := In_sched\<rparr>]" "nextpid s' = nextpid s"
      "curproc s' = None" using i by (simp_all add: upd_proc_def switchkvm_def)
  qed
  have q: "proc_ok (nextpid s) None i ((f (ptable s ! i))\<lparr>pcontext := In_sched\<rparr>)"
    using p f unfolding proc_ok_def by auto
  show ?thesis
    by (rule table_ok_upd_same_pid [OF ok i, where f = "\<lambda>p. (f p)\<lparr>pcontext := In_sched\<rparr>" and cur = None])
      (use p q f(1) c s' in \<open>simp_all add: proc_ok_def\<close>)
qed

lemma table_ok_yield: "table_ok s \<Longrightarrow> yield s = Inr s' \<Longrightarrow> table_ok s'"
proof -
  assume ok: "table_ok s" and y: "yield s = Inr s'"
  obtain i where i: "curproc s = Some i" using y by (cases "curproc s") (auto simp: yield_def with_proc_def)
  show "table_ok s'"
    by (rule table_ok_leave [OF ok i, where f = "\<lambda>p. p\<lparr>state := RUNNABLE\<rparr>"])
      (use y i in \<open>simp_all add: yield_def with_proc_def\<close>)
qed

lemma table_ok_sleep: "table_ok s \<Longrightarrow> sleep c lk s = Inr s' \<Longrightarrow> table_ok s'"
proof -
  assume ok: "table_ok s" and y: "sleep c lk s = Inr s'"
  obtain i where i: "curproc s = Some i" using y by (cases "curproc s") (auto simp: sleep_def)
  have lk: "lk" using y i by (cases lk) (simp_all add: sleep_def)
  show "table_ok s'"
    by (rule table_ok_leave [OF ok i, where f = "\<lambda>p. p\<lparr>chan := Some c, state := SLEEPING\<rparr>"])
      (use y i lk in \<open>simp_all add: sleep_def\<close>)
qed

lemma table_ok_exit_tail: "table_ok s \<Longrightarrow> exit_tail s = Inr s' \<Longrightarrow> table_ok s'"
proof -
  assume ok: "table_ok s" and e: "exit_tail s = Inr s'"
  obtain i where i: "curproc s = Some i" using e by (auto simp: exit_tail_def with_proc_def split: option.splits)
  define s1 where "s1 = wakeup1 (map_option ChProc (parent (ptable s ! i))) s"
  define s2 where "s2 = s1\<lparr>ptable := map (\<lambda>p. if parent p = Some i then p\<lparr>parent := initproc s1\<rparr> else p) (ptable s1)\<rparr>"
  define s3 where "s3 = (if \<exists>p \<in> set (ptable s1). parent p = Some i \<and> state p = ZOMBIE
    then wakeup1 (map_option ChProc (initproc s2)) s2 else s2)"
  have 1: "table_ok s1" using ok by (simp add: s1_def table_ok_wakeup1)
  then have "table_ok s2"
    by (rule table_ok_map [where f = "\<lambda>p. if parent p = Some i then p\<lparr>parent := initproc s1\<rparr> else p"])
      (auto simp: s2_def)
  then have 3: "table_ok s3" by (simp add: s3_def table_ok_wakeup1)
  have c: "curproc s3 = Some i" by (simp add: s3_def s2_def s1_def wakeup1_def i)
  have r: "sched True 1 False (upd_proc i (\<lambda>p. p\<lparr>state := ZOMBIE\<rparr>) s3) = Inr s'"
    using e unfolding exit_tail_def with_proc_def Let_def i option.case s1_def [symmetric]
      s2_def [symmetric] s3_def [symmetric] .
  show "table_ok s'"
    by (rule table_ok_leave [OF 3 c _ _ _ _ r]) simp_all
qed

text \<open>Getting the CPU.\<close>

lemma table_ok_dispatch:
  assumes ok: "table_ok s" and c: "curproc s = None" and i: "i < length (ptable s)" "state (ptable s ! i) = RUNNABLE"
  shows "\<exists>s'. dispatch i s = Inr s' \<and> table_ok s' \<and> curproc s' = Some i \<and>
    ptable s' = (ptable s)[i := (ptable s ! i)\<lparr>state := RUNNING\<rparr>] \<and> highpid s' = highpid s"
proof -
  have p: "proc_ok (nextpid s) None i (ptable s ! i)" using table_okD [OF ok i(1)] by (simp add: c)
  then have d: "pgdir (ptable s ! i) \<noteq> 0" using i(2) by (simp add: proc_ok_def)
  define s' where "s' = upd_proc i (\<lambda>p. p\<lparr>state := RUNNING\<rparr>) (s\<lparr>curproc := Some i,
    esp0 := kstack (ptable s ! i) + 4096, cr3 := v2p (pgdir (ptable s ! i))\<rparr>)"
  have "dispatch i s = Inr s'" using d by (simp add: dispatch_def switchuvm_def s'_def)
  moreover have s': "ptable s' = (ptable s)[i := (ptable s ! i)\<lparr>state := RUNNING\<rparr>]" "nextpid s' = nextpid s"
    "curproc s' = Some i" "highpid s' = highpid s"
    by (simp_all add: s'_def upd_proc_def)
  moreover have "proc_ok (nextpid s) (Some i) i ((ptable s ! i)\<lparr>state := RUNNING\<rparr>)"
    using p i(2) d by (simp add: proc_ok_def)
  then have "table_ok s'"
    by (rule table_ok_upd_same_pid [OF ok i(1), where cur = "Some i"]) (use i c s' in simp_all)
  ultimately show ?thesis by blast
qed

lemma pick_high_SomeD:
  "pick_high s = Some i \<Longrightarrow> i < length (ptable s) \<and> state (ptable s ! i) = RUNNABLE \<and> pid (ptable s ! i) = highpid s"
  by (auto simp: pick_high_def split: if_splits dest: scan_SomeD)

lemma pick_scan_SomeD:
  assumes "pick_scan k s = Some i"
  shows "k \<le> i" "i < length (ptable s)" "state (ptable s ! i) = RUNNABLE"
    "\<And>j. k \<le> j \<Longrightarrow> j < i \<Longrightarrow> state (ptable s ! j) \<noteq> RUNNABLE"
proof -
  obtain j where j: "scan (\<lambda>p. state p = RUNNABLE) (drop k (ptable s)) = Some j" "i = k + j"
    using assms by (auto simp: pick_scan_def)
  have sc: "j < length (ptable s) - k" "state (drop k (ptable s) ! j) = RUNNABLE"
    "\<forall>m < j. state (drop k (ptable s) ! m) \<noteq> RUNNABLE"
    using j(1) by (simp_all add: scan_Some_iff)
  show "k \<le> i" "i < length (ptable s)" using sc(1) j(2) by simp_all
  show "state (ptable s ! i) = RUNNABLE" using sc(1,2) j(2) by simp
  fix m assume m: "k \<le> m" "m < i"
  have "m - k < j" using m j(2) by simp
  with sc(3) have "state (drop k (ptable s) ! (m - k)) \<noteq> RUNNABLE" by simp
  then show "state (ptable s ! m) \<noteq> RUNNABLE" using m sc(1) j(2) by simp
qed

lemma pick_scan_None: "pick_scan k s = None \<Longrightarrow> k \<le> i \<Longrightarrow> i < length (ptable s) \<Longrightarrow> state (ptable s ! i) \<noteq> RUNNABLE"
  using nth_mem [of "i - k" "drop k (ptable s)"] by (auto simp: pick_scan_def scan_None_iff)

lemma table_ok_scheduler:
  assumes ok: "table_ok s" "curproc s = None"
  shows "\<exists>r pc' s'. scheduler pc s = Inr (r, pc', s') \<and> table_ok s' \<and> curproc s' = r"
proof -
  have go: "\<exists>s'. dispatch i s = Inr s' \<and> table_ok s' \<and> curproc s' = Some i"
    if "i < length (ptable s)" "state (ptable s ! i) = RUNNABLE" for i
    using table_ok_dispatch [OF ok that] by blast
  show ?thesis
  proof (cases "pc = Top \<and> pick_high s \<noteq> None")
    case True
    then obtain i where i: "pc = Top" "pick_high s = Some i" by auto
    then obtain s' where "dispatch i s = Inr s'" "table_ok s'" "curproc s' = Some i"
      using go pick_high_SomeD [OF i(2)] by blast
    with i show ?thesis by (simp add: scheduler_def)
  next
    case False
    let ?k = "case pc of Top \<Rightarrow> 0 | Scan k \<Rightarrow> k"
    have e: "scheduler pc s = (case pick_scan ?k s of
        Some i \<Rightarrow> run (dispatch i s) (\<lambda>s. Inr (Some i, Scan (Suc i), s)) | None \<Rightarrow> Inr (None, Top, s))"
      using False by (auto simp: scheduler_def split: sched_pc.split option.split)
    show ?thesis
    proof (cases "pick_scan ?k s")
      case None
      with ok show ?thesis by (simp add: e)
    next
      case (Some i)
      then obtain s' where "dispatch i s = Inr s'" "table_ok s'" "curproc s' = Some i"
        using go pick_scan_SomeD(2,3) [OF Some] by blast
      with Some show ?thesis by (simp add: e)
    qed
  qed
qed

end
