(* ===== verification/PageTable.thy ===== *)
theory PageTable
  imports Vm
begin

text \<open>
  Facts about page tables. \<open>leaf s pgdir va\<close> is the page-table entry the hardware finds for \<open>va\<close>
  (0 where no table is present) and \<open>pt_ok\<close> the well-formedness of a page directory: its tables are
  allocated, distinct pages. The lemmas show that walking and mapping keep \<open>pt_ok\<close> and
  the allocator's invariant, and how they change \<open>leaf\<close>; the properties are the correctness of
  \<^verbatim>\<open>mappages\<close> and \<^verbatim>\<open>allocuvm\<close>.
\<close>

section \<open>The view of a page directory\<close>

definition tab :: "'z kmem_scheme \<Rightarrow> u32 \<Rightarrow> nat \<Rightarrow> u32" where
  "tab s pgdir i = p2v (PTE_ADDR (get_pte (pgdir, i) s))"

definition leaf :: "'z kmem_scheme \<Rightarrow> u32 \<Rightarrow> u32 \<Rightarrow> u32" where
  "leaf s pgdir va =
     (if present (get_pte (pgdir, PDX va) s) then get_pte (tab s pgdir (PDX va), PTX va) s else 0)"

definition tables :: "'z kmem_scheme \<Rightarrow> u32 \<Rightarrow> u32 set" where
  "tables s pgdir = {tab s pgdir i | i. i < 1024 \<and> present (get_pte (pgdir, i) s)}"

definition pt_ok :: "u32 \<Rightarrow> 'z kmem_scheme \<Rightarrow> u32 list \<Rightarrow> u32 \<Rightarrow> bool" where
  "pt_ok kend s ps pgdir \<longleftrightarrow>
     page_ok kend pgdir \<and> pgdir \<notin> set ps \<and>
     (\<forall>p \<in> tables s pgdir. page_ok kend p \<and> p \<notin> set ps \<and> p \<noteq> pgdir) \<and>
     (\<forall>i < 1024. \<forall>j < 1024. present (get_pte (pgdir, i) s) \<longrightarrow> present (get_pte (pgdir, j) s) \<longrightarrow>
        tab s pgdir i = tab s pgdir j \<longrightarrow> i = j)"

lemma pages_put_page [simp]: "pages (put_page p pg s) q = (if q = p then pg else pages s q)"
  by (simp add: put_page_def)

lemma freelist_put_page [simp]: "freelist (put_page p pg s) = freelist s"
  by (simp add: put_page_def)

lemma get_pte_set_pte:
  "get_pte (q, j) (set_pte (p, i) w s) = (if q = p \<and> j = i then w else get_pte (q, j) s)"
  by (auto simp: get_pte_def set_pte_def)

lemma pages_set_pte: "q \<noteq> p \<Longrightarrow> pages (set_pte (p, i) w s) q = pages s q"
  by (simp add: set_pte_def)

lemma pg_word_zero: "j < 1024 \<Longrightarrow> pg_word (memset pg 0 0 PGSIZE) j = 0"
  by (simp add: pg_word_def load_le32_def memset_eq PGSIZE_def)

lemma get_pte_zero_page:
  "j < 1024 \<Longrightarrow> get_pte (q, j) (zero_page p s) = (if q = p then 0 else get_pte (q, j) s)"
  by (simp add: get_pte_def zero_page_def pg_word_zero)

lemma pages_zero_page: "q \<noteq> p \<Longrightarrow> pages (zero_page p s) q = pages s q"
  by (simp add: zero_page_def)

lemma free_pages_set_pte: "p \<notin> set ps \<Longrightarrow> free_pages kend (set_pte (p, i) w s) ps = free_pages kend s ps"
  by (simp add: set_pte_def ka.avail_store)

lemma free_pages_zero_page: "p \<notin> set ps \<Longrightarrow> free_pages kend (zero_page p s) ps = free_pages kend s ps"
  by (simp add: zero_page_def ka.avail_store)

lemma tab_in_tables: "i < 1024 \<Longrightarrow> present (get_pte (pgdir, i) s) \<Longrightarrow> tab s pgdir i \<in> tables s pgdir"
  by (auto simp: tables_def)

lemma pt_ok_tab:
  assumes "pt_ok kend s ps pgdir" "i < 1024" "present (get_pte (pgdir, i) s)"
  shows "page_ok kend (tab s pgdir i)" "tab s pgdir i \<notin> set ps" "tab s pgdir i \<noteq> pgdir"
  using assms tab_in_tables [OF assms(2,3)] by (auto simp: pt_ok_def)

section \<open>Walking\<close>

lemma walk_present:
  "present (get_pte (pgdir, PDX va) s) \<Longrightarrow>
   walkpgdir pgdir va alloc s = (Some (tab s pgdir (PDX va), PTX va), s)"
  by (simp add: walkpgdir_def tab_def)

lemma walk_absent: "\<not> present (get_pte (pgdir, PDX va) s) \<Longrightarrow> walkpgdir pgdir va False s = (None, s)"
  by (simp add: walkpgdir_def)

lemma walk_leaf:
  "(case fst (walkpgdir pgdir va False s) of None \<Rightarrow> 0 | Some p \<Rightarrow> get_pte p s) = leaf s pgdir va"
  by (simp add: walkpgdir_def leaf_def tab_def)

text \<open>Adding a page table: the new entry, and what stays.\<close>

lemma walk_new_table:
  assumes free: "free_pages kend s (p # qs)" and ok: "pt_ok kend s (p # qs) pgdir"
    and absent: "\<not> present (get_pte (pgdir, PDX va) s)"
  obtains s' where "walkpgdir pgdir va True s = (Some (p, PTX va), s')"
    "free_pages kend s' qs" "pt_ok kend s' qs pgdir"
    "present (get_pte (pgdir, PDX va) s')" "tab s' pgdir (PDX va) = p"
    "leaf s' pgdir = leaf s pgdir" "tables s' pgdir = insert p (tables s pgdir)"
    "\<forall>q. q \<noteq> p \<longrightarrow> q \<noteq> pgdir \<longrightarrow> pages s' q = pages s q"
proof -
  let ?w = "v2p p OR PTE_P OR PTE_W OR PTE_U" and ?i = "PDX va"
  obtain s1 where s1: "kalloc s = (p, s1)" "free_pages kend s1 qs" "pages s1 = pages s"
    using ka.alloc_Cons [OF free] by blast
  define s' where "s' = set_pte (pgdir, ?i) ?w (zero_page p s1)"
  have p: "page_ok kend p" "p \<noteq> 0" "p \<notin> set qs" "p \<noteq> pgdir" "pgdir \<notin> set qs"
    using free ok ka.avail_valid [OF free] ka.avail_distinct [OF free] ka.valid_nonzero
    by (auto simp: pt_ok_def)
  have g1: "get_pte x s1 = get_pte x s" for x by (simp add: get_pte_def s1(3))
  have g: "get_pte (q, j) s' = (if q = pgdir \<and> j = ?i then ?w else if q = p then 0 else get_pte (q, j) s)"
    if "j < 1024" for q j
    using that p(4) by (simp add: s'_def get_pte_set_pte get_pte_zero_page g1)
  have w: "present ?w" "p2v (PTE_ADDR ?w) = p" using table_entry [OF p(1)] by simp_all
  have pd: "get_pte (pgdir, j) s' = (if j = ?i then ?w else get_pte (pgdir, j) s)" if "j < 1024" for j
    using g [OF that] p(4) by auto
  have t: "tab s' pgdir j = (if j = ?i then p else tab s pgdir j)" if "j < 1024" for j
    using pd [OF that] w by (simp add: tab_def)
  have tabs: "tables s' pgdir = insert p (tables s pgdir)"
    using pd t w absent PDX_less [of va] by (auto simp: tables_def) metis+
  have p_new: "p \<notin> tables s pgdir" using ok by (auto simp: pt_ok_def)
  have free': "free_pages kend s' qs"
    using s1(2) p by (simp add: s'_def free_pages_set_pte free_pages_zero_page)
  have "pt_ok kend s' qs pgdir"
    unfolding pt_ok_def
  proof (intro conjI ballI allI impI)
    show "page_ok kend pgdir" "pgdir \<notin> set qs" using ok by (auto simp: pt_ok_def)
    fix q assume "q \<in> tables s' pgdir"
    then show "page_ok kend q" "q \<notin> set qs" "q \<noteq> pgdir"
      using ok p by (auto simp: tabs pt_ok_def)
  next
    fix i j assume ij: "i < 1024" "j < 1024" "present (get_pte (pgdir, i) s')"
      "present (get_pte (pgdir, j) s')" "tab s' pgdir i = tab s' pgdir j"
    have "k \<noteq> ?i \<Longrightarrow> k < 1024 \<Longrightarrow> present (get_pte (pgdir, k) s') \<Longrightarrow> tab s pgdir k \<noteq> p" for k
      using p_new tab_in_tables [of k pgdir s] pd [of k] by auto
    with ij show "i = j"
      using t pd ok unfolding pt_ok_def by (metis (full_types))
  qed
  moreover have "leaf s' pgdir va' = leaf s pgdir va'" for va'
  proof (cases "PDX va' = ?i")
    case True
    then show ?thesis
      using absent w t [OF PDX_less] pd [OF PDX_less] g [OF PTX_less, of p] p(4)
      by (simp add: leaf_def)
  next
    case False
    have "present (get_pte (pgdir, PDX va') s) \<Longrightarrow> tab s pgdir (PDX va') \<noteq> p \<and> tab s pgdir (PDX va') \<noteq> pgdir"
      using pt_ok_tab [OF ok PDX_less] by auto
    with False show ?thesis
      using pd [OF PDX_less] t [OF PDX_less] g [OF PTX_less] by (simp add: leaf_def)
  qed
  moreover have "walkpgdir pgdir va True s = (Some (p, PTX va), s')"
    using absent s1(1) p(2) by (simp add: walkpgdir_def s'_def)
  moreover have "pages s' q = pages s q" if "q \<noteq> p" "q \<noteq> pgdir" for q
    using that by (simp add: s'_def pages_set_pte pages_zero_page s1(3))
  ultimately show ?thesis
    using that [of s'] free' tabs t [OF PDX_less] pd [OF PDX_less] w(1) by (simp add: fun_eq_iff)
qed


lemma walk_alloc_cases:
  assumes free: "free_pages kend s ps" and ok: "pt_ok kend s ps pgdir"
  obtains (fail) "ps = []" "walkpgdir pgdir va True s = (None, s)"
  | (entry) s' qs where "walkpgdir pgdir va True s = (Some (tab s' pgdir (PDX va), PTX va), s')"
      "free_pages kend s' qs" "pt_ok kend s' qs pgdir" "present (get_pte (pgdir, PDX va) s')"
      "leaf s' pgdir = leaf s pgdir" "tables s' pgdir \<subseteq> tables s pgdir \<union> set ps"
      "set qs \<subseteq> set ps" "length ps \<le> Suc (length qs)"
      "\<forall>q. q \<notin> set ps \<longrightarrow> q \<noteq> pgdir \<longrightarrow> pages s' q = pages s q"
proof (cases "present (get_pte (pgdir, PDX va) s)")
  case True
  then show ?thesis using entry [OF walk_present] free ok by auto
next
  case absent: False
  show ?thesis
  proof (cases ps)
    case Nil
    with ka.alloc_Nil free have "kalloc s = (0, s)" by blast
    with Nil absent show ?thesis by (intro fail) (auto simp: walkpgdir_def)
  next
    case (Cons p qs)
    obtain s' where s': "walkpgdir pgdir va True s = (Some (p, PTX va), s')"
      "free_pages kend s' qs" "pt_ok kend s' qs pgdir"
      "present (get_pte (pgdir, PDX va) s')" "tab s' pgdir (PDX va) = p"
      "leaf s' pgdir = leaf s pgdir" "tables s' pgdir = insert p (tables s pgdir)"
      "\<forall>q. q \<noteq> p \<longrightarrow> q \<noteq> pgdir \<longrightarrow> pages s' q = pages s q"
      by (rule walk_new_table [OF free [unfolded Cons] ok [unfolded Cons] absent])
    then show ?thesis by (intro entry [of s' qs]) (auto simp: Cons)
  qed
qed

lemma set_leaf:
  fixes w :: u32
  assumes free: "free_pages kend s ps" and ok: "pt_ok kend s ps pgdir"
    and pde: "present (get_pte (pgdir, PDX va) s)"
  defines "s' \<equiv> set_pte (tab s pgdir (PDX va), PTX va) w s"
  shows "free_pages kend s' ps" "pt_ok kend s' ps pgdir" "tables s' pgdir = tables s pgdir"
    "leaf s' pgdir x = (if vpn x = vpn va then w else leaf s pgdir x)"
    "q \<notin> tables s pgdir \<Longrightarrow> pages s' q = pages s q"
proof -
  note t = pt_ok_tab [OF ok PDX_less pde]
  have g: "get_pte (pgdir, i) s' = get_pte (pgdir, i) s" for i
    using t(3) by (simp add: s'_def get_pte_set_pte)
  then have tb: "tab s' pgdir = tab s pgdir" by (simp add: tab_def fun_eq_iff)
  show ts: "tables s' pgdir = tables s pgdir" by (simp add: tables_def g tb)
  show "free_pages kend s' ps" using free t(2) by (simp add: s'_def free_pages_set_pte)
  show "pt_ok kend s' ps pgdir" using ok by (simp add: pt_ok_def g tb ts)
  have inj: "tab s pgdir (PDX x) = tab s pgdir (PDX va) \<longleftrightarrow> PDX x = PDX va"
    if "present (get_pte (pgdir, PDX x) s)"
    using ok that pde PDX_less by (auto simp: pt_ok_def)
  show "leaf s' pgdir x = (if vpn x = vpn va then w else leaf s pgdir x)"
    using pde inj same_entry_iff [of x va]
    by (cases "present (get_pte (pgdir, PDX x) s)")
      (auto simp: leaf_def g tb, auto simp: s'_def get_pte_set_pte)
  show "q \<notin> tables s pgdir \<Longrightarrow> pages s' q = pages s q"
    using tab_in_tables [OF PDX_less pde] unfolding s'_def by (intro pages_set_pte) auto
qed

section \<open>Mapping\<close>

text \<open>What mapping the pages \<open>A\<close> of a directory does: all of them, or the allocator is empty.\<close>

definition mapped :: "u32 \<Rightarrow> u32 \<Rightarrow> (nat \<Rightarrow> u32) \<Rightarrow> nat set \<Rightarrow> u32 list \<Rightarrow> 'z kmem_scheme \<Rightarrow>
    int \<times> 'z kmem_scheme \<Rightarrow> bool" where
  "mapped kend pgdir entry A ps s rs \<longleftrightarrow>
     (case rs of (r, s') \<Rightarrow>
       (\<exists>qs. free_pages kend s' qs \<and> pt_ok kend s' qs pgdir \<and> set qs \<subseteq> set ps \<and>
          length ps \<le> length qs + card A \<and> (r = 0 \<or> r = -1 \<and> qs = [])) \<and>
       tables s' pgdir \<subseteq> tables s pgdir \<union> set ps \<and>
       (\<forall>q. q \<notin> set ps \<longrightarrow> q \<noteq> pgdir \<longrightarrow> q \<notin> tables s pgdir \<longrightarrow> pages s' q = pages s q) \<and>
       (r = 0 \<longrightarrow> (\<forall>x. leaf s' pgdir x = (if vpn x \<in> A then entry (vpn x) else leaf s pgdir x))))"

lemma vpn_add: "unat a + 4096 < 2 ^ 32 \<Longrightarrow> vpn (a + 4096) = Suc (vpn a)"
  by (simp add: vpn_def unat_word_ariths)

lemma mapped_step:
  assumes m: "mapped kend pgdir entry' {Suc v .. Suc v + m} qs s' (r, s2)"
    and q: "set qs \<subseteq> set ps" "length ps \<le> Suc (length qs)"
    and t: "tables s' pgdir \<subseteq> tables s pgdir \<union> set ps"
    and pg: "\<And>q. q \<notin> set ps \<Longrightarrow> q \<noteq> pgdir \<Longrightarrow> q \<notin> tables s pgdir \<Longrightarrow> pages s' q = pages s q"
    and l: "\<And>x. leaf s' pgdir x = (if vpn x = v then entry v else leaf s pgdir x)"
    and e: "\<And>k. Suc v \<le> k \<Longrightarrow> entry' k = entry k"
  shows "mapped kend pgdir entry {v .. v + Suc m} ps s (r, s2)"
proof -
  obtain rs where rs: "free_pages kend s2 rs" "pt_ok kend s2 rs pgdir" "set rs \<subseteq> set qs"
    "length qs \<le> length rs + Suc m" "r = 0 \<or> r = -1 \<and> rs = []"
    using m by (auto simp: mapped_def)
  have t2: "tables s2 pgdir \<subseteq> tables s pgdir \<union> set ps"
    using m q t by (auto simp: mapped_def)
  have pg2: "pages s2 q = pages s q" if "q \<notin> set ps" "q \<noteq> pgdir" "q \<notin> tables s pgdir" for q
  proof -
    have "q \<notin> set qs" "q \<notin> tables s' pgdir" using that q(1) t by auto
    with m that have "pages s2 q = pages s' q" by (auto simp: mapped_def)
    with pg [OF that] show ?thesis by simp
  qed
  have l2: "leaf s2 pgdir x = (if vpn x \<in> {v .. v + Suc m} then entry (vpn x) else leaf s pgdir x)"
    if "r = 0" for x
    using m that by (auto simp: mapped_def l e)
  have "set rs \<subseteq> set ps" "length ps \<le> length rs + card {v .. v + Suc m}" using rs q by auto
  with rs t2 pg2 l2 show ?thesis unfolding mapped_def by (simp del: atLeastAtMost_iff) blast
qed

lemma map_one:
  assumes free: "free_pages kend s ps" and ok: "pt_ok kend s ps pgdir"
    and absent: "\<not> present (leaf s pgdir a)"
  obtains (fail) "ps = []" "\<And>n la. mappages_from (Suc n) pgdir a la pa perm s = Inr (-1, s)"
  | (entry) s' qs where "free_pages kend s' qs" "pt_ok kend s' qs pgdir"
      "set qs \<subseteq> set ps" "length ps \<le> Suc (length qs)"
      "\<And>n la. mappages_from (Suc n) pgdir a la pa perm s =
        (if a = la then Inr (0, s') else mappages_from n pgdir (a + 4096) la (pa + 4096) perm s')"
      "\<And>x. leaf s' pgdir x = (if vpn x = vpn a then pa OR perm OR PTE_P else leaf s pgdir x)"
      "tables s' pgdir \<subseteq> tables s pgdir \<union> set ps"
      "\<And>q. q \<notin> set ps \<Longrightarrow> q \<noteq> pgdir \<Longrightarrow> q \<notin> tables s pgdir \<Longrightarrow> pages s' q = pages s q"
proof (rule walk_alloc_cases [OF free ok, of a])
  assume "ps = []" "walkpgdir pgdir a True s = (None, s)"
  then show thesis by (intro fail) simp_all
next
  fix s1 qs
  assume w: "walkpgdir pgdir a True s = (Some (tab s1 pgdir (PDX a), PTX a), s1)"
    and s1: "free_pages kend s1 qs" "pt_ok kend s1 qs pgdir" "present (get_pte (pgdir, PDX a) s1)"
    and l: "leaf s1 pgdir = leaf s pgdir" and t: "tables s1 pgdir \<subseteq> tables s pgdir \<union> set ps"
    and q: "set qs \<subseteq> set ps" "length ps \<le> Suc (length qs)"
    and pg: "\<forall>q. q \<notin> set ps \<longrightarrow> q \<noteq> pgdir \<longrightarrow> pages s1 q = pages s q"
  have "get_pte (tab s1 pgdir (PDX a), PTX a) s1 = leaf s pgdir a"
    using s1(3) by (simp add: l [symmetric] leaf_def)
  moreover have "pages (set_pte (tab s1 pgdir (PDX a), PTX a) w s1) q = pages s q"
    if "q \<notin> set ps" "q \<noteq> pgdir" "q \<notin> tables s pgdir" for q w
    using set_leaf(5) [OF s1, of q w] subsetD [OF t, of q] pg that by auto
  ultimately show thesis using absent w t
    by (intro entry [OF set_leaf(1,2) [OF s1] q, of "pa OR perm OR PTE_P"])
      (auto simp: set_leaf(3,4) [OF s1] l Let_def)
qed

lemma mappages_from_mapped:
  assumes "free_pages kend s ps" "pt_ok kend s ps pgdir"
    and "unat a + 4096 * m < 2 ^ 32" "la = a + of_nat (4096 * m)"
    and "\<forall>x. vpn x \<in> {vpn a .. vpn a + m} \<longrightarrow> \<not> present (leaf s pgdir x)"
  shows "\<exists>rs. mappages_from (Suc m) pgdir a la pa perm s = Inr rs \<and>
    mapped kend pgdir (\<lambda>k. (pa + of_nat (4096 * (k - vpn a))) OR perm OR PTE_P)
      {vpn a .. vpn a + m} ps s rs"
  using assms
proof (induction m arbitrary: s ps a pa)
  case 0
  have "\<not> present (leaf s pgdir a)" using 0 by simp
  from 0(1,2) this show ?case
  proof (rule map_one [where pa = pa and perm = perm])
    assume "ps = []" "\<And>n la. mappages_from (Suc n) pgdir a la pa perm s = Inr (-1, s)"
    with 0 show ?case by (auto simp: mapped_def)
  next
    fix s' qs
    assume "free_pages kend s' qs" "pt_ok kend s' qs pgdir"
      "set qs \<subseteq> set ps" "length ps \<le> Suc (length qs)"
      "\<And>n la. mappages_from (Suc n) pgdir a la pa perm s =
        (if a = la then Inr (0, s') else mappages_from n pgdir (a + 4096) la (pa + 4096) perm s')"
      "\<And>x. leaf s' pgdir x = (if vpn x = vpn a then pa OR perm OR PTE_P else leaf s pgdir x)"
      "tables s' pgdir \<subseteq> tables s pgdir \<union> set ps"
      "\<And>q. q \<notin> set ps \<Longrightarrow> q \<noteq> pgdir \<Longrightarrow> q \<notin> tables s pgdir \<Longrightarrow> pages s' q = pages s q"
    with 0 show ?case by (auto simp del: mappages_from.simps simp: mapped_def)
  qed
next
  case (Suc m)
  have absent: "\<not> present (leaf s pgdir a)" using Suc.prems by simp
  have v: "vpn (a + 4096) = Suc (vpn a)" and u: "unat (a + 4096) = unat a + 4096"
    using Suc.prems(3) by (simp_all add: vpn_add unat_word_ariths)
  have ne: "a \<noteq> la"
  proof
    assume "a = la"
    then have "unat (of_nat (4096 * Suc m) :: u32) = 0" using Suc.prems(4) by simp
    moreover have "4096 * Suc m < 2 ^ 32" using Suc.prems(3) by simp
    ultimately show False by (simp only: unat_of_nat) simp
  qed
  from Suc.prems(1,2) absent show ?case
  proof (rule map_one [where pa = pa and perm = perm])
    assume "ps = []" "\<And>n la. mappages_from (Suc n) pgdir a la pa perm s = Inr (-1, s)"
    with Suc.prems show ?case by (auto simp: mapped_def)
  next
    fix s' qs
    assume s': "free_pages kend s' qs" "pt_ok kend s' qs pgdir"
      and q: "set qs \<subseteq> set ps" "length ps \<le> Suc (length qs)"
      and step: "\<And>n la. mappages_from (Suc n) pgdir a la pa perm s =
        (if a = la then Inr (0, s') else mappages_from n pgdir (a + 4096) la (pa + 4096) perm s')"
      and l: "\<And>x. leaf s' pgdir x = (if vpn x = vpn a then pa OR perm OR PTE_P else leaf s pgdir x)"
      and t: "tables s' pgdir \<subseteq> tables s pgdir \<union> set ps"
      and pg: "\<And>q. q \<notin> set ps \<Longrightarrow> q \<noteq> pgdir \<Longrightarrow> q \<notin> tables s pgdir \<Longrightarrow> pages s' q = pages s q"
    have "\<exists>rs. mappages_from (Suc m) pgdir (a + 4096) la (pa + 4096) perm s' = Inr rs \<and>
      mapped kend pgdir (\<lambda>k. (pa + 4096 + of_nat (4096 * (k - vpn (a + 4096)))) OR perm OR PTE_P)
        {vpn (a + 4096) .. vpn (a + 4096) + m} qs s' rs"
      using Suc.prems(3-5) by (intro Suc.IH [OF s']) (auto simp: v u l algebra_simps)
    then obtain r s2 where r: "mappages_from (Suc m) pgdir (a + 4096) la (pa + 4096) perm s' = Inr (r, s2)"
      "mapped kend pgdir (\<lambda>k. (pa + 4096 + of_nat (4096 * (k - vpn (a + 4096)))) OR perm OR PTE_P)
        {Suc (vpn a) .. Suc (vpn a) + m} qs s' (r, s2)" by (auto simp: v)
    have e: "pa + 4096 + of_nat (4096 * (k - Suc (vpn a))) = pa + of_nat (4096 * (k - vpn a))"
      if "Suc (vpn a) \<le> k" for k
    proof -
      have "k - vpn a = Suc (k - Suc (vpn a))" using that by simp
      then show ?thesis by simp
    qed
    have "mapped kend pgdir (\<lambda>k. (pa + of_nat (4096 * (k - vpn a))) OR perm OR PTE_P)
      {vpn a .. vpn a + Suc m} ps s (r, s2)"
      using r(2) q t pg by (rule mapped_step) (simp_all add: l e v)
    with step ne r(1) show ?case by (auto simp del: mappages_from.simps)
  qed
qed


text \<open>\<^verbatim>\<open>mappages\<close> on a range that does not wrap is its loop over the pages of the range.\<close>

lemma mappages_loop:
  assumes n: "0 < n" "unat va + unat n \<le> 2 ^ 32"
  obtains a la m where "\<And>pgdir pa perm (s :: 'a kmem_scheme). mappages pgdir va n pa perm s = mappages_from (Suc m) pgdir a la pa perm s"
    "vpn a = vpn va" "vpn (va + n - 1) = vpn va + m" "unat a + 4096 * m < 2 ^ 32" "la = a + of_nat (4096 * m)"
proof -
  let ?e = "va + n - 1" and ?a = "PGROUNDDOWN va" and ?la = "PGROUNDDOWN (va + n - 1)"
  have "0 < unat n" using n(1) by (simp add: word_less_nat_alt)
  then have e: "unat ?e = unat va + unat n - 1"
  proof -
    have "?e = va + (n - 1)" by simp
    moreover have "unat (n - 1) = unat n - 1" using n(1) by (intro unat_minus_one) auto
    ultimately show ?thesis
      using n(2) \<open>0 < unat n\<close> by (simp only: unat_word_ariths(1) [of va "n - 1"]) simp
  qed
  have a: "unat ?a = 4096 * vpn va" and la: "unat ?la = 4096 * vpn ?e"
    by (simp_all add: unat_PGROUNDDOWN vpn_def)
  have le: "vpn va \<le> vpn ?e" using e \<open>0 < unat n\<close> by (simp add: vpn_def div_le_mono)
  have "?a \<le> ?la" using a la le by (simp add: word_le_nat_alt)
  then have d: "unat (?la - ?a) = 4096 * (vpn ?e - vpn va)"
    using a la by (simp add: unat_sub diff_mult_distrib2)
  have "unat ?la < 2 ^ 32" by (rule unat_u32_less)
  then have bound: "unat ?a + 4096 * (vpn ?e - vpn va) < 2 ^ 32" using a la le by simp
  have eq: "?la = ?a + of_nat (4096 * (vpn ?e - vpn va))" by (simp only: d [symmetric]) simp
  have va: "vpn ?a = vpn va" using a by (simp add: vpn_def)
  have "mappages pgdir va n pa perm s = mappages_from (Suc (vpn ?e - vpn va)) pgdir ?a ?la pa perm s"
    for pgdir pa perm and s :: "'a kmem_scheme"
    by (simp add: mappages_def d del: mappages_from.simps)
  from that [OF this va _ bound eq] le show thesis by simp
qed

lemma mappages_mapped:
  assumes "free_pages kend s ps" "pt_ok kend s ps pgdir"
    and "0 < n" "unat va + unat n \<le> 2 ^ 32"
    and "\<forall>x. vpn x \<in> {vpn va .. vpn (va + n - 1)} \<longrightarrow> \<not> present (leaf s pgdir x)"
  shows "\<exists>rs. mappages pgdir va n pa perm s = Inr rs \<and>
    mapped kend pgdir (\<lambda>k. (pa + of_nat (4096 * (k - vpn va))) OR perm OR PTE_P)
      {vpn va .. vpn (va + n - 1)} ps s rs"
proof (rule mappages_loop [OF assms(3,4)])
  fix a la m
  assume l: "\<And>pgdir pa perm (s :: 'a kmem_scheme).
      mappages pgdir va n pa perm s = mappages_from (Suc m) pgdir a la pa perm s"
    and v: "vpn a = vpn va" "vpn (va + n - 1) = vpn va + m"
    and b: "unat a + 4096 * m < 2 ^ 32" "la = a + of_nat (4096 * m)"
  show ?thesis
    using mappages_from_mapped [OF assms(1,2) b, of pa perm] assms(5) unfolding l v by simp
qed

text \<open>C4. \<^verbatim>\<open>mappages\<close> on a range of pages none of which is mapped (otherwise it panics) returns 0
  or -1, and -1 only with the free list empty. Returning 0, it has mapped the pages of the range, and
  those only, to consecutive frames with the given permissions. In either case the directory stays
  well formed, the allocator's invariant holds, at most one page is taken per mapped page, and
  no page outside the directory, its tables and the free list is written.\<close>

theorem mappages_correct:
  assumes "free_pages kend s ps" "pt_ok kend s ps pgdir"
    and "0 < n" "unat va + unat n \<le> 2 ^ 32"
    and "\<forall>x. vpn x \<in> {vpn va .. vpn (va + n - 1)} \<longrightarrow> \<not> present (leaf s pgdir x)"
  shows "\<exists>rs. mappages pgdir va n pa perm s = Inr rs \<and>
    mapped kend pgdir (\<lambda>k. (pa + of_nat (4096 * (k - vpn va))) OR perm OR PTE_P)
      {vpn va .. vpn (va + n - 1)} ps s rs"
  by (rule mappages_mapped [OF assms])

text \<open>A directory with no entries, and one free page.\<close>

lemma kmem1_pte: "j < 1024 \<Longrightarrow> get_pte (q, j) kmem1 = 0"
  by (simp add: get_pte_def kmem1_def kmem0_def pg_word_def load_le32_def)

lemma kmem1_pt_ok: "pt_ok 0x80400000 kmem1 [0x80500000] 0x80600000"
  by (auto simp: pt_ok_def tables_def kmem1_pte page_ok_def PGSIZE_def v2p_def KERNBASE_def PHYSTOP_def)

lemma kmem1_leaf: "leaf kmem1 pgdir x = 0"
  by (simp add: leaf_def kmem1_pte PDX_less PTX_less)

theorem mappages_correct_witness:
  "\<exists>rs. mappages 0x80600000 0x1004 0x1000 0x00700000 PTE_W kmem1 = Inr rs \<and>
    mapped 0x80400000 0x80600000 (\<lambda>k. (0x00700000 + of_nat (4096 * (k - vpn 0x1004))) OR PTE_W OR PTE_P)
      {vpn 0x1004 .. vpn (0x1004 + 0x1000 - 1)} [0x80500000] kmem1 rs"
  by (rule mappages_correct [OF kmem1_free kmem1_pt_ok]) (simp_all add: kmem1_leaf)

section \<open>Growing a process\<close>

text \<open>
  \<open>grown\<close>: the pages \<open>A\<close> of the directory map to distinct zeroed frames taken from the free list, and
  the other pages map to what they did.
\<close>

definition grown :: "u32 \<Rightarrow> u32 \<Rightarrow> nat set \<Rightarrow> u32 list \<Rightarrow> 'z kmem_scheme \<Rightarrow> 'z kmem_scheme \<Rightarrow> bool" where
  "grown kend pgdir A ps s s' \<longleftrightarrow> (\<exists>qs fr.
     free_pages kend s' qs \<and> pt_ok kend s' qs pgdir \<and> set qs \<subseteq> set ps \<and>
     inj_on fr A \<and> fr ` A \<subseteq> set ps - set qs - tables s' pgdir \<and>
     tables s' pgdir \<subseteq> tables s pgdir \<union> set ps \<and>
     (\<forall>q. q \<notin> set ps \<longrightarrow> q \<noteq> pgdir \<longrightarrow> q \<notin> tables s pgdir \<longrightarrow> pages s' q = pages s q) \<and>
     (\<forall>k \<in> A. \<forall>i < 4096. pages s' (fr k) i = 0) \<and>
     (\<forall>x. leaf s' pgdir x =
        (if vpn x \<in> A then v2p (fr (vpn x)) OR (PTE_W OR PTE_U) OR PTE_P else leaf s pgdir x)))"

lemma mappages_page:
  assumes "aligned a"
  shows "mappages pgdir a 4096 pa perm s = mappages_from (Suc 0) pgdir a a pa perm s"
proof -
  obtain k where k: "unat a = 4096 * k" using assms by (auto simp: aligned_def)
  then have "k < 1048576" using unat_u32_less [of a] by simp
  then have e: "unat (a + 4095) = 4096 * k + 4095" using k by (simp add: unat_word_ariths)
  have "PGROUNDDOWN a = a"
    by (rule word_unat_eq_iff [THEN iffD2]) (simp add: unat_PGROUNDDOWN k)
  moreover have "PGROUNDDOWN (a + 4095) = a"
    by (rule word_unat_eq_iff [THEN iffD2]) (simp add: unat_PGROUNDDOWN e k)
  ultimately show ?thesis by (simp add: mappages_def add.commute [of 4095] Let_def del: mappages_from.simps)
qed

text \<open>
  Taking a free page, filling it and mapping it: in \<open>s2\<close> page \<open>v\<close> maps to the frame \<open>mem\<close>, which
  holds \<open>pg\<close>; \<open>qs\<close> are the pages still free.
\<close>

definition page_added :: "u32 \<Rightarrow> u32 \<Rightarrow> nat \<Rightarrow> u32 \<Rightarrow> u32 \<Rightarrow> page \<Rightarrow> u32 list \<Rightarrow> 'z kmem_scheme \<Rightarrow>
    'z kmem_scheme \<Rightarrow> u32 list \<Rightarrow> bool" where
  "page_added kend pgdir v perm mem pg ps s s2 qs \<longleftrightarrow>
     free_pages kend s2 qs \<and> pt_ok kend s2 qs pgdir \<and> set qs \<subseteq> set ps \<and> length ps \<le> 2 + length qs \<and>
     mem \<in> set ps - set qs - tables s2 pgdir \<and> mem \<noteq> pgdir \<and> pages s2 mem = pg \<and>
     tables s2 pgdir \<subseteq> tables s pgdir \<union> set ps \<and>
     (\<forall>q. q \<notin> set ps \<longrightarrow> q \<noteq> pgdir \<longrightarrow> q \<notin> tables s pgdir \<longrightarrow> pages s2 q = pages s q) \<and>
     (\<forall>x. leaf s2 pgdir x = (if vpn x = v then v2p mem OR perm OR PTE_P else leaf s pgdir x))"

lemma alloc_map_page:
  assumes free: "free_pages kend s ps" and ok: "pt_ok kend s ps pgdir" and len: "2 \<le> length ps"
    and a: "aligned a" "\<not> present (leaf s pgdir a)"
  obtains mem s1 where "kalloc s = (mem, s1)" "pages s1 = pages s" "mem \<noteq> 0"
    "\<And>pg perm. \<exists>s2 qs. mappages pgdir a 4096 (v2p mem) perm (put_page mem pg s1) = Inr (0, s2) \<and>
      page_added kend pgdir (vpn a) perm mem pg ps s s2 qs"
proof -
  obtain mem ps' where ps: "ps = mem # ps'" using len by (cases ps) auto
  obtain s1 where s1: "kalloc s = (mem, s1)" "free_pages kend s1 ps'" "pages s1 = pages s"
    using ka.alloc_Cons free ps by blast
  have mem: "mem \<noteq> 0" "mem \<notin> set ps'" "mem \<noteq> pgdir" "mem \<notin> tables s pgdir"
    using free ok ka.avail_valid [OF free] ka.avail_distinct [OF free] ka.valid_nonzero
    by (auto simp: pt_ok_def ps)
  have "\<exists>s2 qs. mappages pgdir a 4096 (v2p mem) perm (put_page mem pg s1) = Inr (0, s2) \<and>
      page_added kend pgdir (vpn a) perm mem pg ps s s2 qs"
    for pg perm
  proof -
    let ?z = "put_page mem pg s1"
    have z: "free_pages kend ?z ps'" using s1(2) mem by (simp add: ka.avail_store)
    have g: "get_pte (q, j) ?z = get_pte (q, j) s" if "q \<noteq> mem" for q j
      using that by (simp add: get_pte_def s1(3))
    have t: "tab ?z pgdir = tab s pgdir" using mem(3) by (simp add: tab_def g fun_eq_iff)
    have ts: "tables ?z pgdir = tables s pgdir" using mem(3) by (simp add: tables_def t g)
    have zok: "pt_ok kend ?z ps' pgdir" using ok mem(3) by (auto simp: pt_ok_def t ts g ps)
    have l: "leaf ?z pgdir x = leaf s pgdir x" for x
    proof (cases "present (get_pte (pgdir, PDX x) s)")
      case True
      then have "tab s pgdir (PDX x) \<noteq> mem" using mem(4) tab_in_tables [OF PDX_less True] by auto
      with mem(3) show ?thesis by (simp add: leaf_def t g)
    qed (use mem(3) in \<open>simp add: leaf_def g\<close>)
    have "\<not> present (leaf ?z pgdir a)" using a(2) by (simp add: l)
    from z zok this show ?thesis
    proof (rule map_one [where pa = "v2p mem" and perm = perm])
      assume "ps' = []"
      with len ps show ?thesis by simp
    next
      fix s2 qs
      assume s2: "free_pages kend s2 qs" "pt_ok kend s2 qs pgdir" "set qs \<subseteq> set ps'"
          "length ps' \<le> Suc (length qs)"
        and m: "\<And>n la. mappages_from (Suc n) pgdir a la (v2p mem) perm ?z =
          (if a = la then Inr (0, s2)
           else mappages_from n pgdir (a + 4096) la (v2p mem + 4096) perm s2)"
        and l2: "\<And>x. leaf s2 pgdir x =
          (if vpn x = vpn a then v2p mem OR perm OR PTE_P else leaf ?z pgdir x)"
        and t2: "tables s2 pgdir \<subseteq> tables ?z pgdir \<union> set ps'"
        and pg: "\<And>q. q \<notin> set ps' \<Longrightarrow> q \<noteq> pgdir \<Longrightarrow> q \<notin> tables ?z pgdir \<Longrightarrow> pages s2 q = pages ?z q"
      have "pages s2 mem = pg" using pg [of mem] mem ts by simp
      moreover have "pages s2 q = pages s q" if "q \<notin> set ps" "q \<noteq> pgdir" "q \<notin> tables s pgdir" for q
        using pg [of q] that ps ts by (simp add: s1(3))
      ultimately show ?thesis
        using s2 mem t2 ts m
        by (intro exI [of _ s2] exI [of _ qs])
          (auto simp: page_added_def ps l2 l mappages_page [OF a(1)] simp del: mappages_from.simps)
    qed
  qed
  then show thesis by (rule that [OF s1(1,3) mem(1)])
qed

lemma grown_step:
  assumes add: "page_added kend pgdir v (PTE_W OR PTE_U) mem pg ps s s2 qs" "\<forall>i < 4096. pg i = 0"
    and g: "grown kend pgdir A qs s2 s'" and v: "v \<notin> A"
  shows "grown kend pgdir (insert v A) ps s s'"
proof -
  have mem: "mem \<in> set ps - set qs - tables s2 pgdir" "mem \<noteq> pgdir" "\<forall>i < 4096. pages s2 mem i = 0"
    and q: "set qs \<subseteq> set ps" and t: "tables s2 pgdir \<subseteq> tables s pgdir \<union> set ps"
    and pg: "\<And>q. q \<notin> set ps \<Longrightarrow> q \<noteq> pgdir \<Longrightarrow> q \<notin> tables s pgdir \<Longrightarrow> pages s2 q = pages s q"
    and l: "\<And>x. leaf s2 pgdir x =
      (if vpn x = v then v2p mem OR (PTE_W OR PTE_U) OR PTE_P else leaf s pgdir x)"
    using add by (auto simp: page_added_def)
  obtain rs fr where g: "free_pages kend s' rs" "pt_ok kend s' rs pgdir" "set rs \<subseteq> set qs"
    "inj_on fr A" "fr ` A \<subseteq> set qs - set rs - tables s' pgdir"
    "tables s' pgdir \<subseteq> tables s2 pgdir \<union> set qs"
    and gp: "\<And>q. q \<notin> set qs \<Longrightarrow> q \<noteq> pgdir \<Longrightarrow> q \<notin> tables s2 pgdir \<Longrightarrow> pages s' q = pages s2 q"
    and z: "\<forall>k \<in> A. \<forall>i < 4096. pages s' (fr k) i = 0"
    and gl: "\<And>x. leaf s' pgdir x =
      (if vpn x \<in> A then v2p (fr (vpn x)) OR (PTE_W OR PTE_U) OR PTE_P else leaf s2 pgdir x)"
    using g unfolding grown_def by blast
  let ?f = "fr(v := mem)"
  have upd: "?f k = fr k" if "k \<in> A" for k using v that by auto
  have "inj_on ?f (insert v A)"
    using g(4,5) mem(1) v by (auto simp: inj_on_def upd)
  moreover have "?f ` insert v A \<subseteq> set ps - set rs - tables s' pgdir"
    using g(3,5,6) mem(1) q by (auto simp: upd)
  moreover have "tables s' pgdir \<subseteq> tables s pgdir \<union> set ps" "set rs \<subseteq> set ps"
    using g(3,6) t q by blast+
  moreover have "pages s' r = pages s r" if "r \<notin> set ps" "r \<noteq> pgdir" "r \<notin> tables s pgdir" for r
  proof -
    have "r \<notin> set qs" "r \<notin> tables s2 pgdir" using that q t by auto
    then show ?thesis using gp [of r] pg that by simp
  qed
  moreover have "\<forall>k \<in> insert v A. \<forall>i < 4096. pages s' (?f k) i = 0"
    using z mem gp [of mem] by (auto simp: upd)
  moreover have "leaf s' pgdir x = (if vpn x \<in> insert v A
      then v2p (?f (vpn x)) OR (PTE_W OR PTE_U) OR PTE_P else leaf s pgdir x)" for x
    using v by (auto simp: gl l upd)
  ultimately show ?thesis
    unfolding grown_def using g(1,2) by blast
qed

lemma allocuvm_from_grown:
  assumes "free_pages kend s ps" "pt_ok kend s ps pgdir" "2 * n \<le> length ps" "n \<le> m"
    and "aligned a" "unat newsz \<le> unat a + 4096 * n" "unat a + 4096 * n < unat newsz + 4096"
    and "unat newsz + 4096 < 2 ^ 32"
    and "\<forall>x. vpn x \<in> {vpn a ..< vpn a + n} \<longrightarrow> \<not> present (leaf s pgdir x)"
  shows "\<exists>s'. allocuvm_from m kend pgdir a oldsz newsz s = Inr (newsz, s') \<and>
    grown kend pgdir {vpn a ..< vpn a + n} ps s s'"
  using assms
proof (induction n arbitrary: m s ps a)
  case 0
  then have "\<not> a < newsz" by (simp add: word_less_nat_alt)
  then have "allocuvm_from m kend pgdir a oldsz newsz s = Inr (newsz, s)" by (cases m) simp_all
  with 0 show ?case by (auto simp: grown_def)
next
  case (Suc n)
  obtain m' where m: "m = Suc m'" "n \<le> m'" using Suc.prems(4) by (cases m) auto
  have lt: "a < newsz" using Suc.prems(7) by (simp add: word_less_nat_alt)
  have bound: "unat a + 4096 < 2 ^ 32" using Suc.prems(7,8) by simp
  then have u: "unat (a + 4096) = unat a + 4096" by (simp add: unat_word_ariths)
  then have al: "aligned (a + 4096)" using Suc.prems(5) by (simp add: aligned_def)
  have v: "vpn (a + 4096) = Suc (vpn a)" by (rule vpn_add [OF bound])
  have ivl: "{vpn a ..< vpn a + Suc n} = insert (vpn a) {Suc (vpn a) ..< Suc (vpn a) + n}" by auto
  have now: "2 \<le> length ps" "\<not> present (leaf s pgdir a)" using Suc.prems(3,9) by auto
  obtain mem s1 s2 qs where k: "kalloc s = (mem, s1)" "mem \<noteq> 0"
    and mp: "mappages pgdir a 4096 (v2p mem) (PTE_W OR PTE_U) (zero_page mem s1) = Inr (0, s2)"
    and add: "page_added kend pgdir (vpn a) (PTE_W OR PTE_U) mem (memset (pages s1 mem) 0 0 PGSIZE) ps s s2 qs"
    using alloc_map_page [OF Suc.prems(1,2) now(1) Suc.prems(5) now(2)] unfolding zero_page_def by metis
  have s2: "free_pages kend s2 qs" "pt_ok kend s2 qs pgdir" and q: "length ps \<le> 2 + length qs"
    and l: "\<And>x. leaf s2 pgdir x =
      (if vpn x = vpn a then v2p mem OR (PTE_W OR PTE_U) OR PTE_P else leaf s pgdir x)"
    using add by (auto simp: page_added_def)
  have "\<exists>s'. allocuvm_from m' kend pgdir (a + 4096) oldsz newsz s2 = Inr (newsz, s') \<and>
    grown kend pgdir {vpn (a + 4096) ..< vpn (a + 4096) + n} qs s2 s'"
    using Suc.prems(3,6-9) q by (intro Suc.IH [OF s2 _ m(2) al]) (auto simp: u v l)
  then obtain s' where s': "allocuvm_from m' kend pgdir (a + 4096) oldsz newsz s2 = Inr (newsz, s')"
    "grown kend pgdir {Suc (vpn a) ..< Suc (vpn a) + n} qs s2 s'" by (auto simp: v)
  have "grown kend pgdir (insert (vpn a) {Suc (vpn a) ..< Suc (vpn a) + n}) ps s s'"
    by (rule grown_step [OF add _ s'(2)]) (auto simp: memset_eq PGSIZE_def)
  then have "grown kend pgdir {vpn a ..< vpn a + Suc n} ps s s'" by (simp only: ivl)
  with s'(1) k mp lt show ?case by (simp add: m(1))
qed

text \<open>C24. \<^verbatim>\<open>allocuvm\<close> from \<open>oldsz\<close> to \<open>newsz\<close> below the kernel's addresses, with the pages of the
  new region unmapped and two free pages for each of them, returns \<open>newsz\<close>; every new page is then
  mapped, writable and for the user, to its own zeroed frame taken from the free list, and all
  other translations are as before.\<close>

theorem allocuvm_grows:
  assumes "free_pages kend s ps" "pt_ok kend s ps pgdir"
    and "oldsz \<le> newsz" "newsz < KERNBASE"
    and "n = (unat newsz + 4095) div 4096 - (unat oldsz + 4095) div 4096" "2 * n \<le> length ps"
    and "\<forall>x. vpn x \<in> {vpn (PGROUNDUP oldsz) ..< vpn (PGROUNDUP oldsz) + n} \<longrightarrow> \<not> present (leaf s pgdir x)"
  shows "\<exists>s'. allocuvm kend pgdir oldsz newsz s = Inr (newsz, s') \<and>
    grown kend pgdir {vpn (PGROUNDUP oldsz) ..< vpn (PGROUNDUP oldsz) + n} ps s s'"
proof -
  have kb: "unat newsz < 2 ^ 31" using assms(4) by (simp add: word_less_nat_alt KERNBASE_def)
  have le: "unat oldsz \<le> unat newsz" using assms(3) by (simp add: word_le_nat_alt)
  have a: "unat (PGROUNDUP oldsz) = (unat oldsz + 4095) div 4096 * 4096"
    using kb le by (intro unat_PGROUNDUP) simp
  have "(unat oldsz + 4095) div 4096 \<le> (unat newsz + 4095) div 4096" using le by (intro div_le_mono) simp
  then have e: "unat (PGROUNDUP oldsz) + 4096 * n = (unat newsz + 4095) div 4096 * 4096"
    using a assms(5) by (simp add: algebra_simps)
  have "n \<le> Suc (unat newsz div 4096)" using assms(5) by simp
  moreover have "aligned (PGROUNDUP oldsz)" using a by (simp add: aligned_def)
  moreover have "unat newsz \<le> unat (PGROUNDUP oldsz) + 4096 * n"
    "unat (PGROUNDUP oldsz) + 4096 * n < unat newsz + 4096" using e by simp_all
  ultimately have "\<exists>s'. allocuvm_from (Suc (unat newsz div 4096)) kend pgdir (PGROUNDUP oldsz) oldsz newsz s
      = Inr (newsz, s') \<and> grown kend pgdir {vpn (PGROUNDUP oldsz) ..< vpn (PGROUNDUP oldsz) + n} ps s s'"
    using assms(1,2,6,7) kb by (intro allocuvm_from_grown) simp_all
  moreover have "\<not> KERNBASE \<le> newsz" "\<not> newsz < oldsz" using assms(3,4) by (simp_all add: not_le not_less)
  ultimately show ?thesis by (simp add: allocuvm_def del: allocuvm_from.simps)
qed

text \<open>A directory with no entries, and two free pages.\<close>

definition vmem2 :: vmem where
  "vmem2 = \<lparr>pages = (\<lambda>p. if p = 0x80500000 then pg_set_word (\<lambda>_. 0) 0 0x80501000 else (\<lambda>_. 0)),
     use_lock = False, freelist = 0x80500000, shm_arr = [], used = 0, kpgdir = 0, cr3 = 0, esp0 = 0\<rparr>"

lemma vmem2_free: "free_pages 0x80400000 vmem2 [0x80500000, 0x80501000]"
  by (simp add: free_pages_def vmem2_def page_ok_def PGSIZE_def v2p_def KERNBASE_def PHYSTOP_def)
    (simp add: pg_word_def load_le32_def)

lemma vmem2_pte: "get_pte (0x80600000, j) vmem2 = 0"
  by (simp add: get_pte_def vmem2_def pg_word_def load_le32_def)

theorem allocuvm_grows_witness:
  "\<exists>s'. allocuvm 0x80400000 0x80600000 0x1000 0x1fff vmem2 = Inr (0x1fff, s') \<and>
    grown 0x80400000 0x80600000 {vpn (PGROUNDUP 0x1000) ..< vpn (PGROUNDUP 0x1000) + 1}
      [0x80500000, 0x80501000] vmem2 s'"
  by (rule allocuvm_grows [OF vmem2_free])
    (auto simp: pt_ok_def tables_def vmem2_pte leaf_def page_ok_def PGSIZE_def v2p_def KERNBASE_def PHYSTOP_def)

end
