(* ===== verification/Kvm.thy ===== *)
theory Kvm
  imports PageTable
begin

text \<open>
  The kernel part of an address space (\<^verbatim>\<open>setupkvm\<close> in \<^verbatim>\<open>vm.c\<close>): how many pages building page tables takes,
  counted by the entries of the directory, and what the finished directory maps.
\<close>

section \<open>Counting page tables\<close>

definition pdes :: "'z kmem_scheme \<Rightarrow> u32 \<Rightarrow> nat set" where
  "pdes s d = {i. i < 1024 \<and> present (get_pte (d, i) s)}"

lemma finite_pdes [simp]: "finite (pdes s d)"
  by (simp add: pdes_def)

lemma PDX_vpn: "PDX x = vpn x div 1024"
  by (simp add: PDX_eq vpn_def div_mult2_eq [symmetric])

text \<open>From \<open>s\<close> to \<open>s'\<close> the directory \<open>d\<close> gets tables for entries in \<open>D\<close> only, each from one free page.\<close>

definition tabled :: "u32 \<Rightarrow> u32 \<Rightarrow> nat set \<Rightarrow> u32 list \<Rightarrow> 'z kmem_scheme \<Rightarrow> 'z kmem_scheme \<Rightarrow> bool" where
  "tabled kend d D ps s s' \<longleftrightarrow> (\<exists>qs. free_pages kend s' qs \<and> pt_ok kend s' qs d \<and>
     pdes s' d \<subseteq> pdes s d \<union> D \<and> length ps + card (pdes s d) = length qs + card (pdes s' d))"

lemma walk_tabled:
  assumes free: "free_pages kend s ps" and ok: "pt_ok kend s ps d" and w: "walkpgdir d va True s = (r, s')"
  shows "tabled kend d {PDX va} ps s s'"
proof (cases "present (get_pte (d, PDX va) s)")
  case True
  with w free ok show ?thesis by (auto simp: walk_present tabled_def)
next
  case absent: False
  show ?thesis
  proof (cases ps)
    case Nil
    with ka.alloc_Nil free have "kalloc s = (0, s)" by blast
    with absent w have "s' = s" by (simp add: walkpgdir_def)
    with free ok show ?thesis by (auto simp: tabled_def)
  next
    case (Cons p qs)
    obtain s1 where s1: "kalloc s = (p, s1)" "pages s1 = pages s"
      using ka.alloc_Cons [OF free [unfolded Cons]] by blast
    have p: "p \<noteq> 0" "p \<noteq> d"
      using free ok ka.avail_valid [OF free [unfolded Cons]] ka.valid_nonzero by (auto simp: pt_ok_def Cons)
    obtain s2 where s2: "walkpgdir d va True s = (Some (p, PTX va), s2)" "free_pages kend s2 qs" "pt_ok kend s2 qs d"
      "present (get_pte (d, PDX va) s2)"
      using walk_new_table [OF free [unfolded Cons] ok [unfolded Cons] absent] by metis
    have s': "s' = s2" using w s2(1) by simp
    have "s2 = set_pte (d, PDX va) (v2p p OR PTE_P OR PTE_W OR PTE_U) (zero_page p s1)"
      using s2(1) absent s1(1) p(1) by (simp add: walkpgdir_def)
    then have "get_pte (d, j) s2 = get_pte (d, j) s" if "j \<noteq> PDX va" for j
      using that p(2) by (simp add: get_pte_set_pte) (simp add: get_pte_def pages_zero_page s1(2))
    then have "pdes s2 d = insert (PDX va) (pdes s d)"
      using s2(4) PDX_less [of va] by (auto simp: pdes_def) metis+
    moreover have "PDX va \<notin> pdes s d" using absent by (simp add: pdes_def)
    ultimately show ?thesis using s2(2,3) by (auto simp: tabled_def s' Cons)
  qed
qed

lemma set_pte_tabled:
  assumes "free_pages kend s ps" "pt_ok kend s ps d" "present (get_pte (d, PDX va) s)"
  shows "tabled kend d {} ps s (set_pte (tab s d (PDX va), PTX va) w s)"
proof -
  have "pdes (set_pte (tab s d (PDX va), PTX va) w s) d = pdes s d"
    using pt_ok_tab(3) [OF assms(2) PDX_less assms(3)] by (simp add: pdes_def get_pte_set_pte)
  with set_leaf(1,2) [OF assms] show ?thesis by (auto simp: tabled_def)
qed

lemma tabled_trans:
  assumes "tabled kend d D ps s s1" "\<And>qs. free_pages kend s1 qs \<Longrightarrow> pt_ok kend s1 qs d \<Longrightarrow> tabled kend d E qs s1 s2"
  shows "tabled kend d (D \<union> E) ps s s2"
proof -
  obtain qs where q: "free_pages kend s1 qs" "pt_ok kend s1 qs d" "pdes s1 d \<subseteq> pdes s d \<union> D"
    "length ps + card (pdes s d) = length qs + card (pdes s1 d)" using assms(1) by (auto simp: tabled_def)
  obtain rs where r: "free_pages kend s2 rs" "pt_ok kend s2 rs d" "pdes s2 d \<subseteq> pdes s1 d \<union> E"
    "length qs + card (pdes s1 d) = length rs + card (pdes s2 d)"
    using assms(2) [OF q(1,2)] by (auto simp: tabled_def)
  have "pdes s2 d \<subseteq> pdes s d \<union> (D \<union> E)" using q(3) r(3) by blast
  with q(4) r show ?thesis unfolding tabled_def by auto
qed

lemma tabled_mono: "tabled kend d D ps s s' \<Longrightarrow> D \<subseteq> E \<Longrightarrow> tabled kend d E ps s s'"
  unfolding tabled_def by blast

lemma walk_entry:
  "walkpgdir d va True s = (Some pte, s') \<Longrightarrow> free_pages kend s ps \<Longrightarrow> pt_ok kend s ps d \<Longrightarrow>
   pte = (tab s' d (PDX va), PTX va) \<and> present (get_pte (d, PDX va) s')"
  by (rule walk_alloc_cases [of kend s ps d va]) auto

lemma mappages_from_tabled:
  assumes "mappages_from (Suc m) d a la pa perm s = Inr (r, s')" "free_pages kend s ps" "pt_ok kend s ps d"
    and "unat a + 4096 * m < 2 ^ 32"
  shows "tabled kend d ((\<lambda>v. v div 1024) ` {vpn a .. vpn a + m}) ps s s'"
  using assms
proof (induction m arbitrary: a pa s ps)
  case 0
  show ?case
  proof (cases "walkpgdir d a True s")
    case (Pair x s1)
    note w = walk_tabled [OF 0(2,3) Pair]
    show ?thesis
    proof (cases x)
      case None
      with 0(1) Pair w show ?thesis by (auto simp: PDX_vpn)
    next
      case (Some pte)
      note e = walk_entry [OF Pair [unfolded Some] 0(2,3)]
      have "s' = set_pte pte (pa OR perm OR PTE_P) s1"
        using 0(1) Pair Some by (auto simp: Let_def split: if_splits)
      then have "tabled kend d ({PDX a} \<union> {}) ps s s'"
        using e by (intro tabled_trans [OF w]) (auto intro: set_pte_tabled)
      then show ?thesis by (simp add: PDX_vpn)
    qed
  qed
next
  case (Suc m)
  have v: "vpn (a + 4096) = Suc (vpn a)" and u: "unat (a + 4096) = unat a + 4096"
    using Suc.prems(4) by (simp_all add: vpn_add unat_word_ariths)
  let ?E = "(\<lambda>v. v div 1024) ` {Suc (vpn a) .. Suc (vpn a) + m}"
  have D: "{PDX a} \<union> {} \<union> ?E \<subseteq> (\<lambda>v. v div 1024) ` {vpn a .. vpn a + Suc m}" by (auto simp: PDX_vpn)
  show ?case
  proof (cases "walkpgdir d a True s")
    case (Pair x s1)
    note w = walk_tabled [OF Suc.prems(2,3) Pair]
    show ?thesis
    proof (cases x)
      case None
      with Suc.prems(1) Pair have "s' = s1" by simp
      with w D show ?thesis by (auto intro: tabled_mono)
    next
      case (Some pte)
      note e = walk_entry [OF Pair [unfolded Some] Suc.prems(2,3)]
      define s2 where "s2 = set_pte pte (pa OR perm OR PTE_P) s1"
      have w2: "tabled kend d ({PDX a} \<union> {}) ps s s2"
        using e unfolding s2_def by (intro tabled_trans [OF w]) (auto intro: set_pte_tabled)
      have "s' = s2 \<or> mappages_from (Suc m) d (a + 4096) la (pa + 4096) perm s2 = Inr (r, s')"
        using Suc.prems(1) Pair Some
        by (auto simp: s2_def Let_def simp del: mappages_from.simps(2) simp: mappages_from.simps(2) [of "Suc m"] split: if_splits)
      then show ?thesis
      proof
        assume "s' = s2"
        with w2 D show ?thesis by (auto intro: tabled_mono)
      next
        assume m: "mappages_from (Suc m) d (a + 4096) la (pa + 4096) perm s2 = Inr (r, s')"
        have "tabled kend d ({PDX a} \<union> {} \<union> ?E) ps s s'"
          using Suc.IH [OF m] Suc.prems(4) by (intro tabled_trans [OF w2]) (auto simp: u v)
        with D show ?thesis by (rule tabled_mono [rotated])
      qed
    qed
  qed
qed

section \<open>One segment\<close>

text \<open>The pages \<^verbatim>\<open>mappages\<close> covers, and the effect of a mapping for which there is room.\<close>

definition span :: "u32 \<Rightarrow> u32 \<Rightarrow> nat set" where
  "span va n = {vpn va .. vpn (va + n - 1)}"

lemma mappages_tabled:
  assumes "mappages d va n pa perm s = Inr (r, s')" "free_pages kend s ps" "pt_ok kend s ps d"
    and "0 < n" "unat va + unat n \<le> 2 ^ 32"
  shows "tabled kend d ((\<lambda>v. v div 1024) ` span va n) ps s s'"
proof (rule mappages_loop [OF assms(4,5)])
  fix a la m
  assume l: "\<And>pgdir pa perm (s :: 'a kmem_scheme).
      mappages pgdir va n pa perm s = mappages_from (Suc m) pgdir a la pa perm s"
    and v: "vpn a = vpn va" "vpn (va + n - 1) = vpn va + m" and b: "unat a + 4096 * m < 2 ^ 32"
  show ?thesis
    using mappages_from_tabled [OF assms(1) [unfolded l] assms(2,3) b] by (simp only: v span_def)
qed

lemma free_pages_unique: "free_pages kend s ps \<Longrightarrow> free_pages kend s qs \<Longrightarrow> ps = qs"
  by (auto simp: free_pages_def dest: flist_unique)

lemma mappages_room:
  assumes free: "free_pages kend s ps" and ok: "pt_ok kend s ps d"
    and n: "0 < n" "unat va + unat n \<le> 2 ^ 32"
    and absent: "\<forall>x. vpn x \<in> span va n \<longrightarrow> \<not> present (leaf s d x)"
    and S: "finite S" "pdes s d \<union> (\<lambda>v. v div 1024) ` span va n \<subseteq> S" "card S < length ps + card (pdes s d)"
  shows "\<exists>s' qs. mappages d va n pa perm s = Inr (0, s') \<and> free_pages kend s' qs \<and> pt_ok kend s' qs d \<and>
    set qs \<subseteq> set ps \<and> pdes s' d \<subseteq> S \<and> length ps + card (pdes s d) = length qs + card (pdes s' d) \<and>
    tables s' d \<subseteq> tables s d \<union> set ps \<and>
    (\<forall>q. q \<notin> set ps \<longrightarrow> q \<noteq> d \<longrightarrow> q \<notin> tables s d \<longrightarrow> pages s' q = pages s q) \<and>
    (\<forall>x. leaf s' d x = (if vpn x \<in> span va n then (pa + of_nat (4096 * (vpn x - vpn va))) OR perm OR PTE_P
       else leaf s d x))"
proof -
  obtain r s' where m: "mappages d va n pa perm s = Inr (r, s')"
    "mapped kend d (\<lambda>k. (pa + of_nat (4096 * (k - vpn va))) OR perm OR PTE_P) (span va n) ps s (r, s')"
    using mappages_mapped [OF free ok n, of pa perm] absent by (auto simp: span_def)
  obtain qs where q: "free_pages kend s' qs" "pt_ok kend s' qs d" "set qs \<subseteq> set ps" "r = 0 \<or> r = -1 \<and> qs = []"
    using m(2) by (auto simp: mapped_def)
  obtain qs' where q': "free_pages kend s' qs'" "pdes s' d \<subseteq> pdes s d \<union> (\<lambda>v. v div 1024) ` span va n"
    "length ps + card (pdes s d) = length qs' + card (pdes s' d)"
    using mappages_tabled [OF m(1) free ok n] by (auto simp: tabled_def)
  have eq: "qs' = qs" by (rule free_pages_unique [OF q'(1) q(1)])
  have sub: "pdes s' d \<subseteq> S" using q'(2) S(2) by blast
  then have "card (pdes s' d) \<le> card S" by (rule card_mono [OF S(1)])
  then have "qs \<noteq> []" using q'(3) S(3) by (auto simp: eq)
  then have r: "r = 0" using q(4) by simp
  show ?thesis
    using m q(1-3) q'(3) sub unfolding mapped_def eq r by (intro exI [of _ s'] exI [of _ qs]) simp
qed

section \<open>All segments\<close>

text \<open>What a list of segments (virtual start, physical start and end, permissions) makes of an entry.\<close>

primrec kentry :: "(u32 \<times> u32 \<times> u32 \<times> u32) list \<Rightarrow> nat \<Rightarrow> u32 \<Rightarrow> u32" where
  "kentry [] k w = w"
| "kentry (seg # ks) k w = (case seg of (v, p, e, perm) \<Rightarrow>
     if k \<in> span v (e - p) then (p + of_nat (4096 * (k - vpn v))) OR perm OR PTE_P else kentry ks k w)"

definition seg_span :: "u32 \<times> u32 \<times> u32 \<times> u32 \<Rightarrow> nat set" where
  "seg_span k = (case k of (v, p, e, perm) \<Rightarrow> span v (e - p))"

definition seg_ok :: "nat set \<Rightarrow> u32 \<times> u32 \<times> u32 \<times> u32 \<Rightarrow> bool" where
  "seg_ok S k = (case k of (v, p, e, perm) \<Rightarrow> 0 < e - p \<and> unat v + unat (e - p) \<le> 2 ^ 32 \<and>
     (\<lambda>v. v div 1024) ` span v (e - p) \<subseteq> S)"

lemma kentry_outside: "\<forall>k \<in> set ks. n \<notin> seg_span k \<Longrightarrow> kentry ks n w = w"
  by (induction ks) (auto simp: seg_span_def)

lemma map_kernel_maps:
  assumes "free_pages kend s ps" "pt_ok kend s ps d" "finite S" "pdes s d \<subseteq> S" "card S < length ps + card (pdes s d)"
    and "\<forall>k \<in> set ks. seg_ok S k" "sorted_wrt (\<lambda>k l. seg_span k \<inter> seg_span l = {}) ks"
    and "\<forall>k \<in> set ks. \<forall>x. vpn x \<in> seg_span k \<longrightarrow> \<not> present (leaf s d x)"
  shows "\<exists>s' qs. map_kernel ks d s = Inr (d, s') \<and> free_pages kend s' qs \<and> pt_ok kend s' qs d \<and>
    set qs \<subseteq> set ps \<and> pdes s' d \<subseteq> S \<and> length ps + card (pdes s d) = length qs + card (pdes s' d) \<and>
    tables s' d \<subseteq> tables s d \<union> set ps \<and>
    (\<forall>q. q \<notin> set ps \<longrightarrow> q \<noteq> d \<longrightarrow> q \<notin> tables s d \<longrightarrow> pages s' q = pages s q) \<and>
    (\<forall>x. leaf s' d x = kentry ks (vpn x) (leaf s d x))"
  using assms
proof (induction ks arbitrary: s ps)
  case Nil
  then show ?case by auto
next
  case (Cons k ks)
  obtain v p e perm where k: "k = (v, p, e, perm)" by (cases k)
  have seg: "0 < e - p" "unat v + unat (e - p) \<le> 2 ^ 32" "(\<lambda>v. v div 1024) ` span v (e - p) \<subseteq> S"
    using Cons.prems(6) by (auto simp: k seg_ok_def)
  have sp: "seg_span k = span v (e - p)" by (simp add: k seg_span_def)
  have "\<forall>x. vpn x \<in> span v (e - p) \<longrightarrow> \<not> present (leaf s d x)" using Cons.prems(8) sp by auto
  moreover have "pdes s d \<union> (\<lambda>v. v div 1024) ` span v (e - p) \<subseteq> S" using Cons.prems(4) seg(3) by blast
  ultimately obtain s1 qs where s1: "mappages d v (e - p) p perm s = Inr (0, s1)"
    "free_pages kend s1 qs" "pt_ok kend s1 qs d" "set qs \<subseteq> set ps" "pdes s1 d \<subseteq> S"
    "length ps + card (pdes s d) = length qs + card (pdes s1 d)" "tables s1 d \<subseteq> tables s d \<union> set ps"
    "\<forall>q. q \<notin> set ps \<longrightarrow> q \<noteq> d \<longrightarrow> q \<notin> tables s d \<longrightarrow> pages s1 q = pages s q"
    "\<forall>x. leaf s1 d x = (if vpn x \<in> span v (e - p) then (p + of_nat (4096 * (vpn x - vpn v))) OR perm OR PTE_P
       else leaf s d x)"
    using mappages_room [OF Cons.prems(1,2) seg(1,2) _ Cons.prems(3) _ Cons.prems(5), of p perm] by blast
  have disj: "\<forall>l \<in> set ks. span v (e - p) \<inter> seg_span l = {}" using Cons.prems(7) sp by simp
  have absent: "\<forall>l \<in> set ks. \<forall>x. vpn x \<in> seg_span l \<longrightarrow> \<not> present (leaf s1 d x)"
  proof (intro ballI allI impI)
    fix l x assume l: "l \<in> set ks" "vpn x \<in> seg_span l"
    then have "vpn x \<notin> span v (e - p)" using disj by auto
    then have "leaf s1 d x = leaf s d x" using s1(9) by simp
    with Cons.prems(8) l show "\<not> present (leaf s1 d x)" by simp
  qed
  have room: "card S < length qs + card (pdes s1 d)" using Cons.prems(5) s1(6) by simp
  have "\<forall>k \<in> set ks. seg_ok S k" "sorted_wrt (\<lambda>k l. seg_span k \<inter> seg_span l = {}) ks"
    using Cons.prems(6,7) by simp_all
  from Cons.IH [OF s1(2,3) Cons.prems(3) s1(5) room this absent]
  obtain s' rs where s': "map_kernel ks d s1 = Inr (d, s')" "free_pages kend s' rs" "pt_ok kend s' rs d"
    "set rs \<subseteq> set qs" "pdes s' d \<subseteq> S" "length qs + card (pdes s1 d) = length rs + card (pdes s' d)"
    "tables s' d \<subseteq> tables s1 d \<union> set qs"
    "\<forall>q. q \<notin> set qs \<longrightarrow> q \<noteq> d \<longrightarrow> q \<notin> tables s1 d \<longrightarrow> pages s' q = pages s1 q"
    "\<forall>x. leaf s' d x = kentry ks (vpn x) (leaf s1 d x)" by blast
  have "map_kernel (k # ks) d s = Inr (d, s')" using s1(1) s'(1) by (simp add: k)
  moreover have "leaf s' d x = kentry (k # ks) (vpn x) (leaf s d x)" for x
  proof (cases "vpn x \<in> span v (e - p)")
    case True
    then have "\<forall>l \<in> set ks. vpn x \<notin> seg_span l" using disj by auto
    with True s'(9) s1(9) show ?thesis by (simp add: k kentry_outside)
  next
    case False
    with s'(9) s1(9) show ?thesis by (simp add: k)
  qed
  moreover have "pages s' q = pages s q" if "q \<notin> set ps" "q \<noteq> d" "q \<notin> tables s d" for q
  proof -
    have "q \<notin> set qs" "q \<notin> tables s1 d" using that s1(4,7) by auto
    then have "pages s' q = pages s1 q" using s'(8) that(2) by simp
    also have "\<dots> = pages s q" using s1(8) that by simp
    finally show ?thesis .
  qed
  moreover have "set rs \<subseteq> set ps" "tables s' d \<subseteq> tables s d \<union> set ps" using s1(4,7) s'(4,7) by blast+
  ultimately show ?case using s'(2,3,5,6) s1(6) by (intro exI [of _ s'] exI [of _ rs]) simp
qed

section \<open>The kernel's address space\<close>

text \<open>
  What the entry of the page of \<open>x\<close> is to be: nothing below \<^verbatim>\<open>KERNBASE\<close>; above it physical memory shifted by
  \<^verbatim>\<open>KERNBASE\<close>, writable except for the kernel's text and read-only data; devices at their own addresses.
\<close>

definition kernel_map :: "u32 \<Rightarrow> u32 \<Rightarrow> u32" where
  "kernel_map kdata x =
     (if x < KERNBASE then 0
      else if x < KERNBASE + EXTMEM then v2p (PGROUNDDOWN x) OR PTE_W OR PTE_P
      else if x < kdata then v2p (PGROUNDDOWN x) OR PTE_P
      else if x < p2v PHYSTOP then v2p (PGROUNDDOWN x) OR PTE_W OR PTE_P
      else if x < DEVSPACE then 0
      else PGROUNDDOWN x OR PTE_W OR PTE_P)"

text \<open>The linker places \<^verbatim>\<open>data\<close> at the start of a page of the kernel, above its text.\<close>

definition kdata_ok :: "u32 \<Rightarrow> bool" where
  "kdata_ok kdata \<longleftrightarrow> aligned kdata \<and> KERNBASE + EXTMEM < kdata \<and> kdata < p2v PHYSTOP"

lemma shifted_page:
  assumes "aligned v" "vpn v \<le> vpn x"
  shows "v + of_nat (4096 * (vpn x - vpn v)) = PGROUNDDOWN x"
proof -
  have "unat v = 4096 * vpn v" using assms(1) by (auto simp: aligned_def vpn_def)
  then have "v = of_nat (4096 * vpn v)" by (metis unat_eq_nat_uint word_of_nat_eq_iff of_nat_unat ucast_id)
  then have "v + of_nat (4096 * (vpn x - vpn v)) = (of_nat (4096 * vpn v + 4096 * (vpn x - vpn v)) :: u32)"
    by (metis of_nat_add)
  also have "4096 * vpn v + 4096 * (vpn x - vpn v) = unat (PGROUNDDOWN x)"
    using assms(2) by (simp add: unat_PGROUNDDOWN vpn_def diff_mult_distrib2)
  finally show ?thesis by simp
qed

lemma shifted_phys:
  assumes "aligned v" "vpn v \<le> vpn x"
  shows "v2p v + of_nat (4096 * (vpn x - vpn v)) = v2p (PGROUNDDOWN x)"
  using shifted_page [OF assms] by (simp add: v2p_def)

lemma kdata_nat:
  assumes "kdata_ok kdata"
  shows "0x80100000 < unat kdata" "unat kdata < 0x8E000000" "unat kdata mod 4096 = 0"
    "unat (kdata - 1) = unat kdata - 1" "unat (0x8E000000 - kdata) = 0x8E000000 - unat kdata"
    "unat (kdata - 0x80100000) = unat kdata - 0x80100000"
proof -
  show b: "0x80100000 < unat kdata" "unat kdata < 0x8E000000" "unat kdata mod 4096 = 0"
    using assms by (simp_all add: kdata_ok_def aligned_def KERNBASE_def EXTMEM_def PHYSTOP_def p2v_def word_less_nat_alt)
  have "kdata \<noteq> 0" using b(1) by auto
  then show "unat (kdata - 1) = unat kdata - 1" by (rule unat_minus_one)
  show "unat (0x8E000000 - kdata) = 0x8E000000 - unat kdata" "unat (kdata - 0x80100000) = unat kdata - 0x80100000"
    using b by (simp_all add: unat_sub word_le_nat_alt)
qed

lemma kmap_spans:
  assumes "kdata_ok kdata"
  shows "map seg_span (kmap kdata) =
    [{0x80000 .. 0x800FF}, {0x80100 ..< vpn kdata}, {vpn kdata .. 0x8DFFF}, {0xFE000 .. 0xFFFFF}]"
    "0x80100 < vpn kdata" "vpn kdata \<le> 0x8DFFF"
proof -
  note k = kdata_nat [OF assms]
  obtain j where j: "unat kdata = 4096 * j" using k(3) by auto
  have v: "vpn kdata = j" by (simp add: vpn_def j)
  have "vpn (kdata - 1) = j - 1" using k(1) by (simp add: vpn_def k(4) j)
  moreover have "KERNBASE + EXTMEM + (v2p kdata - v2p (KERNBASE + EXTMEM)) - 1 = kdata - 1"
    "kdata + (PHYSTOP - v2p kdata) - 1 = 0x8DFFFFFF"
    by (simp_all add: v2p_def KERNBASE_def EXTMEM_def PHYSTOP_def)
  moreover show j': "0x80100 < vpn kdata" "vpn kdata \<le> 0x8DFFF" using k(1,2) by (simp_all add: v j)
  moreover have "{a .. j - 1} = {a ..< j}" if "0 < j" for a using that by auto
  ultimately show "map seg_span (kmap kdata) =
    [{0x80000 .. 0x800FF}, {0x80100 ..< vpn kdata}, {vpn kdata .. 0x8DFFF}, {0xFE000 .. 0xFFFFF}]"
    by (simp add: kmap_def seg_span_def span_def v) (simp add: vpn_def KERNBASE_def EXTMEM_def DEVSPACE_def unsigned_minus_1_eq_mask mask_eq_exp_minus_1)
qed

lemma kmap_ok:
  assumes "kdata_ok kdata"
  shows "\<forall>k \<in> set (kmap kdata). seg_ok ({512..567} \<union> {1016..1023}) k"
    "sorted_wrt (\<lambda>k l. seg_span k \<inter> seg_span l = {}) (kmap kdata)"
proof -
  note k = kdata_nat [OF assms] and sp = kmap_spans [OF assms]
  have S: "(\<lambda>v. v div 1024) ` seg_span s \<subseteq> {512..567} \<union> {1016..1023}" if "s \<in> set (kmap kdata)" for s
  proof (rule image_subsetI)
    fix v assume v: "v \<in> seg_span s"
    have "seg_span s \<in> set (map seg_span (kmap kdata))" using that by simp
    then have "0x80000 \<le> v \<and> v \<le> 0x8DFFF \<or> 0xFE000 \<le> v \<and> v \<le> 0xFFFFF"
      unfolding sp(1) using v sp(2,3) by auto
    then show "v div 1024 \<in> {512..567} \<union> {1016..1023}"
    proof
      assume "0x80000 \<le> v \<and> v \<le> 0x8DFFF"
      then have "0x80000 div 1024 \<le> v div 1024" "v div 1024 \<le> 0x8DFFF div 1024" by (intro div_le_mono, simp)+
      then show ?thesis by simp
    next
      assume "0xFE000 \<le> v \<and> v \<le> 0xFFFFF"
      then have "0xFE000 div 1024 \<le> v div 1024" "v div 1024 \<le> 0xFFFFF div 1024" by (intro div_le_mono, simp)+
      then show ?thesis by simp
    qed
  qed
  have U: "seg_ok S s \<longleftrightarrow> seg_ok UNIV s \<and> (\<lambda>v. v div 1024) ` seg_span s \<subseteq> S" for S s
    by (auto simp: seg_ok_def seg_span_def split: prod.splits)
  have "\<forall>s \<in> set (kmap kdata). seg_ok UNIV s"
  proof -
    have "seg_ok UNIV (KERNBASE, 0, EXTMEM, PTE_W)" by (simp add: seg_ok_def KERNBASE_def EXTMEM_def)
    moreover have "seg_ok UNIV (KERNBASE + EXTMEM, v2p (KERNBASE + EXTMEM), v2p kdata, 0)"
    proof -
      have "v2p kdata - v2p (KERNBASE + EXTMEM) = kdata - 0x80100000" by (simp add: v2p_def KERNBASE_def EXTMEM_def)
      then show ?thesis using k(1,2,6) by (simp add: seg_ok_def word_less_nat_alt) (simp add: KERNBASE_def EXTMEM_def)
    qed
    moreover have "seg_ok UNIV (kdata, v2p kdata, PHYSTOP, PTE_W)"
    proof -
      have "PHYSTOP - v2p kdata = 0x8E000000 - kdata" by (simp add: v2p_def KERNBASE_def PHYSTOP_def)
      then show ?thesis using k(1,2,5) by (simp add: seg_ok_def word_less_nat_alt)
    qed
    moreover have "seg_ok UNIV (DEVSPACE, DEVSPACE, 0, PTE_W)"
      by (simp add: seg_ok_def DEVSPACE_def word_less_nat_alt)
    ultimately show ?thesis by (simp add: kmap_def)
  qed
  then show "\<forall>k \<in> set (kmap kdata). seg_ok ({512..567} \<union> {1016..1023}) k"
    using S U [of "{512..567} \<union> {1016..1023}"] by blast
  have "sorted_wrt (\<lambda>A B. A \<inter> B = {}) (map seg_span (kmap kdata))" unfolding sp(1) using sp(2,3) by auto
  then show "sorted_wrt (\<lambda>k l. seg_span k \<inter> seg_span l = {}) (kmap kdata)" by (simp add: sorted_wrt_map)
qed

lemma vpn_less_iff: "aligned v \<Longrightarrow> vpn x < vpn v \<longleftrightarrow> x < v"
proof -
  assume "aligned v"
  then have v: "unat v = 4096 * vpn v" by (auto simp: aligned_def vpn_def)
  have "vpn x < vpn v \<longleftrightarrow> unat x < 4096 * vpn v"
    unfolding vpn_def [of x] by (simp add: div_less_iff_less_mult mult.commute)
  then show "vpn x < vpn v \<longleftrightarrow> x < v" by (simp add: word_less_nat_alt v)
qed

lemma kentry_kmap:
  assumes "kdata_ok kdata"
  shows "kentry (kmap kdata) (vpn x) 0 = kernel_map kdata x"
proof -
  note sp = kmap_spans [OF assms]
  have al: "aligned KERNBASE" "aligned (KERNBASE + EXTMEM)" "aligned kdata" "aligned (p2v PHYSTOP)" "aligned DEVSPACE"
    using assms by (simp_all add: kdata_ok_def aligned_def KERNBASE_def EXTMEM_def PHYSTOP_def DEVSPACE_def p2v_def)
  have v: "vpn KERNBASE = 0x80000" "vpn (KERNBASE + EXTMEM) = 0x80100" "vpn (p2v PHYSTOP) = 0x8E000" "vpn DEVSPACE = 0xFE000"
    by (simp_all add: vpn_def KERNBASE_def EXTMEM_def PHYSTOP_def DEVSPACE_def p2v_def)
  note lt = vpn_less_iff [of _ x, symmetric]
  have ltx: "x < KERNBASE \<longleftrightarrow> vpn x < 0x80000" "x < KERNBASE + EXTMEM \<longleftrightarrow> vpn x < 0x80100" "x < kdata \<longleftrightarrow> vpn x < vpn kdata"
    "x < p2v PHYSTOP \<longleftrightarrow> vpn x < 0x8E000" "x < DEVSPACE \<longleftrightarrow> vpn x < 0xFE000"
    using lt [OF al(1)] lt [OF al(2)] lt [OF al(3)] lt [OF al(4)] lt [OF al(5)] by (simp_all only: v)
  have top: "vpn x \<le> 0xFFFFF" using unat_u32_less [of x] by (simp add: vpn_def)
  have spans: "span KERNBASE (EXTMEM - 0) = {0x80000 .. 0x800FF}"
    "span (KERNBASE + EXTMEM) (v2p kdata - v2p (KERNBASE + EXTMEM)) = {0x80100 ..< vpn kdata}"
    "span kdata (PHYSTOP - v2p kdata) = {vpn kdata .. 0x8DFFF}" "span DEVSPACE (0 - DEVSPACE) = {0xFE000 .. 0xFFFFF}"
    using sp(1) by (simp_all add: kmap_def seg_span_def)
  have z: "v2p KERNBASE = 0" by (simp add: v2p_def)
  have pa: "v2p v + of_nat (4096 * (vpn x - vpn v)) = v2p (PGROUNDDOWN x)" if "aligned v" "\<not> x < v" for v
    using that vpn_less_iff [OF that(1), of x] by (intro shifted_phys) auto
  have dev: "DEVSPACE + of_nat (4096 * (vpn x - vpn DEVSPACE)) = PGROUNDDOWN x" if "\<not> x < DEVSPACE"
    using that vpn_less_iff [OF al(5), of x] by (intro shifted_page [OF al(5)]) auto
  have k: "kentry (kmap kdata) (vpn x) 0 =
    (if vpn x \<in> {0x80000 .. 0x800FF} then (v2p KERNBASE + of_nat (4096 * (vpn x - vpn KERNBASE))) OR PTE_W OR PTE_P
     else if vpn x \<in> {0x80100 ..< vpn kdata} then (v2p (KERNBASE + EXTMEM) + of_nat (4096 * (vpn x - vpn (KERNBASE + EXTMEM)))) OR 0 OR PTE_P
     else if vpn x \<in> {vpn kdata .. 0x8DFFF} then (v2p kdata + of_nat (4096 * (vpn x - vpn kdata))) OR PTE_W OR PTE_P
     else if vpn x \<in> {0xFE000 .. 0xFFFFF} then (DEVSPACE + of_nat (4096 * (vpn x - vpn DEVSPACE))) OR PTE_W OR PTE_P else 0)"
    unfolding kmap_def kentry.simps prod.case spans z by (rule refl)
  consider "x < KERNBASE" | "\<not> x < KERNBASE" "x < KERNBASE + EXTMEM" | "\<not> x < KERNBASE + EXTMEM" "x < kdata"
    | "\<not> x < kdata" "x < p2v PHYSTOP" | "\<not> x < p2v PHYSTOP" "x < DEVSPACE" | "\<not> x < DEVSPACE" by blast
  then show ?thesis
  proof cases
    case 1
    then show ?thesis using sp(2,3) unfolding k kernel_map_def ltx by simp
  next
    case 2
    then show ?thesis unfolding k pa [OF al(1) 2(1)] kernel_map_def ltx by simp
  next
    case 3
    then show ?thesis unfolding k pa [OF al(2) 3(1)] kernel_map_def ltx by simp
  next
    case 4
    then show ?thesis using sp(2) unfolding k pa [OF al(3) 4(1)] kernel_map_def ltx by simp
  next
    case 5
    then show ?thesis using sp(2,3) unfolding k kernel_map_def ltx by simp
  next
    case 6
    then show ?thesis using sp(2,3) top unfolding k dev [OF 6] kernel_map_def ltx by simp
  qed
qed

lemma empty_directory:
  assumes free: "free_pages kend s (d # ps)"
  obtains s' where "kalloc s = (d, s')" "d \<noteq> 0" "free_pages kend (zero_page d s') ps" "pt_ok kend (zero_page d s') ps d"
    "pdes (zero_page d s') d = {}" "tables (zero_page d s') d = {}" "leaf (zero_page d s') d = (\<lambda>_. 0)"
    "\<forall>q. q \<noteq> d \<longrightarrow> pages (zero_page d s') q = pages s q"
proof -
  obtain s' where s': "kalloc s = (d, s')" "free_pages kend s' ps" "pages s' = pages s"
    using ka.alloc_Cons [OF free] by blast
  have d: "page_ok kend d" "d \<noteq> 0" "d \<notin> set ps"
    using ka.avail_valid [OF free] ka.avail_distinct [OF free] ka.valid_nonzero by auto
  have g: "get_pte (d, j) (zero_page d s') = 0" if "j < 1024" for j using that by (simp add: get_pte_zero_page)
  have "\<not> present (0 :: u32)" by (simp add: present_def)
  then have t: "tables (zero_page d s') d = {}" "pdes (zero_page d s') d = {}" "leaf (zero_page d s') d = (\<lambda>_. 0)"
    using g PDX_less by (auto simp: tables_def pdes_def leaf_def fun_eq_iff)
  have "pt_ok kend (zero_page d s') ps d"
    using d(1,3) t(1) g \<open>\<not> present 0\<close> by (simp add: pt_ok_def)
  moreover have "free_pages kend (zero_page d s') ps" using s'(2) d(3) by (simp add: free_pages_zero_page)
  ultimately show thesis using that [OF s'(1)] d(2) t s'(3) by (simp add: pages_zero_page)
qed

text \<open>A finished directory \<open>d\<close>, built from the free pages \<open>ps\<close>, with \<open>qs\<close> left.\<close>

definition kernel_space :: "u32 \<Rightarrow> u32 \<Rightarrow> u32 \<Rightarrow> u32 list \<Rightarrow> u32 list \<Rightarrow> 'z kmem_scheme \<Rightarrow> 'z kmem_scheme \<Rightarrow> bool" where
  "kernel_space kend kdata d ps qs s s' \<longleftrightarrow>
     free_pages kend s' qs \<and> pt_ok kend s' qs d \<and> d \<in> set ps \<and> tables s' d \<subseteq> set ps \<and> set qs \<subseteq> set ps \<and>
     length ps \<le> 65 + length qs \<and> (\<forall>q. q \<notin> set ps \<longrightarrow> pages s' q = pages s q) \<and>
     (\<forall>x. leaf s' d x = kernel_map kdata x)"

lemma setupkvm_space:
  assumes free: "free_pages kend s ps" and room: "65 < length ps" and kd: "kdata_ok kdata"
  shows "\<exists>d s' qs. setupkvm kdata s = Inr (d, s') \<and> d \<noteq> 0 \<and> kernel_space kend kdata d ps qs s s'"
proof -
  obtain d rs where ps: "ps = d # rs" using room by (cases ps) auto
  obtain s1 where s1: "kalloc s = (d, s1)" "d \<noteq> 0" "free_pages kend (zero_page d s1) rs" "pt_ok kend (zero_page d s1) rs d"
    "pdes (zero_page d s1) d = {}" "tables (zero_page d s1) d = {}" "leaf (zero_page d s1) d = (\<lambda>_. 0)"
    "\<forall>q. q \<noteq> d \<longrightarrow> pages (zero_page d s1) q = pages s q"
    by (rule empty_directory [OF free [unfolded ps]])
  define s2 where "s2 = zero_page d s1"
  note s2 = s1(3-8) [folded s2_def]
  let ?S = "{512..567} \<union> {1016..1023} :: nat set"
  have S: "card ?S = 64" by (subst card_Un_disjoint) auto
  have "\<not> present (0 :: u32)" by (simp add: present_def)
  then have absent: "\<forall>k \<in> set (kmap kdata). \<forall>x. vpn x \<in> seg_span k \<longrightarrow> \<not> present (leaf s2 d x)" by (simp add: s2(5))
  have fin: "finite ?S" "pdes s2 d \<subseteq> ?S" "card ?S < length rs + card (pdes s2 d)"
    using room S by (simp_all add: s2(3) ps)
  obtain s' qs where s': "map_kernel (kmap kdata) d s2 = Inr (d, s')" "free_pages kend s' qs" "pt_ok kend s' qs d"
    "set qs \<subseteq> set rs" "pdes s' d \<subseteq> ?S" "length rs + card (pdes s2 d) = length qs + card (pdes s' d)"
    "tables s' d \<subseteq> tables s2 d \<union> set rs"
    "\<forall>q. q \<notin> set rs \<longrightarrow> q \<noteq> d \<longrightarrow> q \<notin> tables s2 d \<longrightarrow> pages s' q = pages s2 q"
    "\<forall>x. leaf s' d x = kentry (kmap kdata) (vpn x) (leaf s2 d x)"
    using map_kernel_maps [OF s2(1,2) fin kmap_ok [OF kd] absent] by blast
  have "card (pdes s' d) \<le> 64" using card_mono [OF _ s'(5)] S by simp
  then have "length ps \<le> 65 + length qs" using s'(6) by (simp add: ps s2(3))
  moreover have "\<not> p2v PHYSTOP > DEVSPACE" by (simp add: p2v_def PHYSTOP_def KERNBASE_def DEVSPACE_def)
  then have "setupkvm kdata s = Inr (d, s')" using s1(1,2) s'(1) by (simp add: setupkvm_def s2_def)
  moreover have "leaf s' d x = kernel_map kdata x" for x using s'(9) s2(5) kentry_kmap [OF kd] by simp
  moreover have "set qs \<subseteq> set ps" "tables s' d \<subseteq> set ps" "d \<in> set ps"
    using s'(4,7) s2(4) by (auto simp: ps)
  moreover have "pages s' q = pages s q" if "q \<notin> set ps" for q using that s'(8) s2(4,6) by (simp add: ps)
  ultimately show ?thesis using s1(2) s'(2,3) unfolding kernel_space_def by blast
qed

text \<open>C11. \<^verbatim>\<open>setupkvm\<close> with more than 65 free pages succeeds. It takes at most 65 of them, writes no other page, and
  returns a well-formed directory that maps nothing below \<^verbatim>\<open>KERNBASE\<close>, all of physical memory above it, writable
  except for the kernel's text and read-only data, and the devices at their own addresses.\<close>

theorem setupkvm_maps_kernel:
  assumes "free_pages kend s ps" "65 < length ps" "kdata_ok kdata"
  shows "\<exists>d s' qs. setupkvm kdata s = Inr (d, s') \<and> d \<noteq> 0 \<and> kernel_space kend kdata d ps qs s s'"
  by (rule setupkvm_space [OF assms])

text \<open>Free memory: \<open>k\<close> pages from \<open>p\<close> on, each linked to the one below it.\<close>

definition link_page :: "u32 \<Rightarrow> u32 \<Rightarrow> page" where
  "link_page p q = pg_set_word (\<lambda>_. 0) 0 (if q = p then 0 else q - 4096)"

lemma unat_nth_page:
  assumes "unat p + 4096 * i < 2 ^ 32"
  shows "unat (p + of_nat (4096 * i) :: u32) = unat p + 4096 * i"
proof -
  have "unat (of_nat (4096 * i) :: u32) = 4096 * i" using assms by (simp only: unat_of_nat) simp
  then show ?thesis using assms by (simp only: unat_word_ariths(1)) simp
qed

lemma page_run_snoc: "page_run p (Suc k) = (p + of_nat (4096 * k)) # page_run p k"
  by (simp add: page_run_def)

lemma linked_run:
  assumes "unat p + 4096 * k < 2 ^ 32" "p \<noteq> 0" "\<And>q. q \<in> set (page_run p k) \<Longrightarrow> m q = link_page p q"
  shows "flist m (if k = 0 then 0 else p + of_nat (4096 * (k - 1))) (page_run p k)"
  using assms(1,3)
proof (induction k)
  case 0
  then show ?case by (simp add: page_run_def)
next
  case (Suc k)
  let ?q = "p + of_nat (4096 * k)"
  have u: "unat ?q = unat p + 4096 * k" using Suc.prems(1) by (intro unat_nth_page) simp
  have "unat p \<noteq> 0" using assms(2) by (simp add: unsigned_eq_0_iff)
  then have "unat ?q \<noteq> 0" using u by linarith
  then have q: "?q \<noteq> 0" by (rule contrapos_nn) (simp only: unsigned_0)
  have eq: "?q = p \<longleftrightarrow> k = 0"
  proof
    assume "?q = p"
    then have "unat p + 4096 * k = unat p" using u by metis
    then show "k = 0" by simp
  next
    assume "k = 0"
    then show "?q = p" by simp
  qed
  have prev: "?q - 4096 = p + of_nat (4096 * (k - 1))" if k: "k \<noteq> 0"
  proof -
    obtain j where "k = Suc j" using not0_implies_Suc [OF k] by blast
    then show ?thesis by simp
  qed
  have "m ?q = link_page p ?q" by (rule Suc.prems(2)) (simp add: page_run_snoc)
  then have "pg_word (m ?q) 0 = (if ?q = p then 0 else ?q - 4096)" by (simp only: link_page_def pg_word_set_same)
  also have "\<dots> = (if k = 0 then 0 else p + of_nat (4096 * (k - 1)))" by (rule if_cong [OF eq refl prev])
  finally have w: "pg_word (m ?q) 0 = (if k = 0 then 0 else p + of_nat (4096 * (k - 1)))" .
  have "flist m (if k = 0 then 0 else p + of_nat (4096 * (k - 1))) (page_run p k)"
  proof (rule Suc.IH)
    show "unat p + 4096 * k < 2 ^ 32" using Suc.prems(1) by simp
    show "m q = link_page p q" if "q \<in> set (page_run p k)" for q using that by (intro Suc.prems(2)) (simp add: page_run_snoc)
  qed
  moreover have "(if Suc k = 0 then 0 else p + of_nat (4096 * (Suc k - 1))) = ?q" by simp
  ultimately show ?case unfolding page_run_snoc flist.simps w using q by blast
qed

lemma free_run:
  assumes "freelist s = p + of_nat (4096 * (k - 1))" "0 < k" "aligned p" "kend \<le> p" "0x80000000 \<le> p"
    and "unat p + 4096 * k \<le> 0x8E000000" "\<And>q. q \<in> set (page_run p k) \<Longrightarrow> pages s q = link_page p q"
  shows "free_pages kend s (page_run p k)"
proof -
  have p: "0x80000000 \<le> unat p" using assms(5) by (simp add: word_le_nat_alt)
  have u: "unat (p + of_nat (4096 * i)) = unat p + 4096 * i" if "i < k" for i
    using that assms(6) by (intro unat_nth_page) simp
  have "inj_on (\<lambda>i. p + of_nat (4096 * i)) {0..<k}"
  proof (rule inj_onI)
    fix i j assume "i \<in> {0..<k}" "j \<in> {0..<k}" "p + of_nat (4096 * i) = p + of_nat (4096 * j)"
    then have "unat p + 4096 * i = unat p + 4096 * j" using u [of i] u [of j] by simp
    then show "i = j" by simp
  qed
  then have "distinct (page_run p k)" by (simp add: page_run_def distinct_map)
  moreover have "page_ok kend q" if q: "q \<in> set (page_run p k)" for q
  proof -
    obtain i where i: "i < k" "q = p + of_nat (4096 * i)" using page_run_range [OF q] by blast
    have n: "unat q = unat p + 4096 * i" using u i by simp
    have "unat (v2p q) = unat q - 0x80000000"
      using n p by (simp add: v2p_def KERNBASE_def unat_sub word_le_nat_alt)
    with n i(1) assms(3,4,6) p show ?thesis
      by (simp add: page_ok_def PGSIZE_def aligned_def PHYSTOP_def word_le_nat_alt word_less_nat_alt)
  qed
  moreover have "flist (pages s) (freelist s) (page_run p k)"
  proof -
    have "p \<noteq> 0" using p by auto
    moreover have "unat p + 4096 * k < 2 ^ 32" using assms(6) by simp
    ultimately have "flist (pages s) (if k = 0 then 0 else p + of_nat (4096 * (k - 1))) (page_run p k)"
      using assms(7) by (intro linked_run)
    then show ?thesis using assms(2) by (simp only: assms(1)) simp
  qed
  ultimately show ?thesis by (simp add: free_pages_def)
qed

definition kmem100 :: kmem where
  "kmem100 = kmem0\<lparr>freelist := 0x80563000, pages := link_page 0x80500000\<rparr>"

lemma kmem100_free: "free_pages 0x80400000 kmem100 (page_run 0x80500000 100)"
  by (rule free_run) (simp_all add: kmem100_def aligned_def)

theorem setupkvm_maps_kernel_witness:
  "\<exists>d s' qs. setupkvm 0x80109000 kmem100 = Inr (d, s') \<and> d \<noteq> 0 \<and>
    kernel_space 0x80400000 0x80109000 d (page_run 0x80500000 100) qs kmem100 s'"
  by (rule setupkvm_maps_kernel [OF kmem100_free])
    (simp_all add: page_run_def kdata_ok_def aligned_def KERNBASE_def EXTMEM_def PHYSTOP_def p2v_def)

end
