(* ===== verification/Fork_vm.thy ===== *)
theory Fork_vm
  imports Kvm
begin

text \<open>
  Copying an address space (\<^verbatim>\<open>copyuvm\<close> in \<^verbatim>\<open>vm.c\<close>): pages that belong to a shared-memory region are
  mapped again in the copy, all others are duplicated; and releasing one (\<^verbatim>\<open>deallocuvm\<close>), which
  must not free the shared pages.
\<close>

section \<open>Shared frames\<close>

definition shared :: "'z vmem_scheme \<Rightarrow> u32 \<Rightarrow> bool" where
  "shared s pa \<longleftrightarrow> (\<exists>e \<in> set (shm_arr s). shmPhys e = pa)"

lemma PTE_ADDR_not_minus_1: "PTE_ADDR pte \<noteq> -1"
proof -
  have "\<not> bit (PTE_ADDR pte) 0" by (simp add: PTE_ADDR_def bit_simps)
  moreover have "bit (-1 :: u32) 0" by simp
  ultimately show ?thesis by metis
qed

lemma entry_parts:
  assumes "present pte"
  shows "PTE_ADDR pte OR PTE_FLAGS pte OR PTE_P = pte"
proof -
  have "bit pte 0" using assms by (auto simp: present_def PTE_P_def and_one_eq odd_iff_mod_2_eq_one bit_0)
  then show ?thesis
    by (intro bit_word_eqI) (auto simp: PTE_ADDR_def PTE_FLAGS_def PTE_P_def bit_simps)
qed

lemma findPA_shared:
  assumes "shared s pa"
  shows "\<exists>i e. i < length (shm_arr s) \<and> shm_arr s ! i = e \<and> shmPhys e = pa \<and>
    shm_arr_findPA pa d s = (pa, s\<lparr>shm_arr := (shm_arr s)[i := e\<lparr>numAccess := numAccess e + d\<rparr>]\<rparr>)"
proof -
  obtain i where "scan (\<lambda>e. shmPhys e = pa) (shm_arr s) = Some i"
    using assms by (cases "scan (\<lambda>e. shmPhys e = pa) (shm_arr s)") (auto simp: shared_def scan_None_iff in_set_conv_nth)
  then show ?thesis
    using scan_SomeD [of _ "shm_arr s" i] by (force simp: shm_arr_findPA_def Let_def)
qed

lemma findPA_private: "\<not> shared s pa \<Longrightarrow> shm_arr_findPA pa d s = (-1, s)"
  by (cases "scan (\<lambda>e. shmPhys e = pa) (shm_arr s)")
    (auto simp: shm_arr_findPA_def shared_def scan_SomeD dest: scan_SomeD)


lemma shm_arr_irrelevant [simp]:
  "free_pages kend (s\<lparr>shm_arr := xs\<rparr>) ps = free_pages kend s ps"
  "get_pte x (s\<lparr>shm_arr := xs\<rparr>) = get_pte x s" "tab (s\<lparr>shm_arr := xs\<rparr>) = tab s"
  "tables (s\<lparr>shm_arr := xs\<rparr>) = tables s" "leaf (s\<lparr>shm_arr := xs\<rparr>) = leaf s"
  "pt_ok kend (s\<lparr>shm_arr := xs\<rparr>) ps pgdir = pt_ok kend s ps pgdir"
  by (simp_all add: free_pages_def get_pte_def tab_def tables_def leaf_def pt_ok_def fun_eq_iff)

text \<open>The page operations leave the shared-memory table alone.\<close>

lemma shm_arr_set_pte [simp]: "shm_arr (set_pte p w s) = shm_arr s"
  by (simp add: set_pte_def put_page_def)

lemma shm_arr_zero_page [simp]: "shm_arr (zero_page p s) = shm_arr s"
  by (simp add: zero_page_def put_page_def)

lemma shm_arr_put_page [simp]: "shm_arr (put_page p pg s) = shm_arr s"
  by (simp add: put_page_def)

lemma shm_arr_kalloc: "kalloc s = (p, s') \<Longrightarrow> shm_arr s' = shm_arr s"
  by (auto simp: kalloc_def Let_def split: if_splits)

lemma shm_arr_walkpgdir: "walkpgdir pgdir va alloc s = (r, s') \<Longrightarrow> shm_arr s' = shm_arr s"
  by (auto simp: walkpgdir_def Let_def shm_arr_kalloc split: if_splits prod.splits dest: shm_arr_kalloc)

lemma shm_arr_mappages_from:
  "mappages_from n pgdir a la pa perm s = Inr (r, s') \<Longrightarrow> shm_arr s' = shm_arr s"
proof (induction n arbitrary: a pa s)
  case (Suc n)
  obtain pte s1 where w: "walkpgdir pgdir a True s = (pte, s1)" by fastforce
  show ?case
    using Suc.prems Suc.IH shm_arr_walkpgdir [OF w]
    by (auto simp: w Let_def split: option.splits if_splits)
qed simp

section \<open>One page of the copy\<close>

text \<open>
  Page \<open>v\<close> of the copy \<open>d\<close>: the parent's own entry \<open>pte\<close> for a shared frame, an entry with the same
  flags for a private copy \<open>f\<close> otherwise.
\<close>

definition page_copied :: "u32 \<Rightarrow> u32 \<Rightarrow> nat \<Rightarrow> u32 \<Rightarrow> u32 \<Rightarrow> u32 list \<Rightarrow> 'z vmem_scheme \<Rightarrow>
    'z vmem_scheme \<Rightarrow> u32 list \<Rightarrow> bool" where
  "page_copied kend d v pte f ps s s' qs \<longleftrightarrow>
     free_pages kend s' qs \<and> pt_ok kend s' qs d \<and> set qs \<subseteq> set ps \<and> length ps \<le> 2 + length qs \<and>
     tables s' d \<subseteq> tables s d \<union> set ps \<and>
     (\<forall>q. q \<notin> set ps \<longrightarrow> q \<noteq> d \<longrightarrow> q \<notin> tables s d \<longrightarrow> pages s' q = pages s q) \<and>
     map shmPhys (shm_arr s') = map shmPhys (shm_arr s) \<and>
     (\<forall>x. leaf s' d x = (if vpn x = v then
       (if shared s (PTE_ADDR pte) then pte else v2p f OR PTE_FLAGS pte OR PTE_P) else leaf s d x)) \<and>
     (\<not> shared s (PTE_ADDR pte) \<longrightarrow> f \<in> set ps - set qs - tables s' d \<and> f \<noteq> d \<and>
       pages s' f = pages s (p2v (PTE_ADDR pte)))"

lemma walk_present_leaf:
  assumes "present (leaf s pgdir i)"
  shows "\<exists>p. fst (walkpgdir pgdir i False s) = Some p \<and> get_pte p s = leaf s pgdir i"
  using assms by (auto simp: walkpgdir_def leaf_def tab_def split: if_splits)

lemma map_shmPhys_update:
  "i < length xs \<Longrightarrow> shmPhys e = shmPhys (xs ! i) \<Longrightarrow> map shmPhys (xs[i := e]) = map shmPhys xs"
  by (simp add: map_update list_update_same_conv)

lemma copy_shared_page:
  assumes free: "free_pages kend s ps" and ok: "pt_ok kend s ps d" and len: "ps \<noteq> []"
    and i: "aligned i" "\<not> present (leaf s d i)" "present (leaf s pgdir i)"
    and sh: "shared s (PTE_ADDR (leaf s pgdir i))"
  shows "\<exists>s' qs. copyuvm_page pgdir d i s = Inr (False, s') \<and>
    page_copied kend d (vpn i) (leaf s pgdir i) f ps s s' qs"
proof -
  let ?pte = "leaf s pgdir i" and ?pa = "PTE_ADDR (leaf s pgdir i)"
  obtain p where p: "fst (walkpgdir pgdir i False s) = Some p" "get_pte p s = ?pte"
    using walk_present_leaf [OF i(3)] by blast
  obtain j e where j: "j < length (shm_arr s)" "shm_arr s ! j = e" "shmPhys e = ?pa"
    and find: "shm_arr_findPA ?pa 1 s = (?pa, s\<lparr>shm_arr := (shm_arr s)[j := e\<lparr>numAccess := numAccess e + 1\<rparr>]\<rparr>)"
    using findPA_shared [OF sh] by blast
  define s1 where "s1 = s\<lparr>shm_arr := (shm_arr s)[j := e\<lparr>numAccess := numAccess e + 1\<rparr>]\<rparr>"
  have s1: "free_pages kend s1 ps" "pt_ok kend s1 ps d" "\<not> present (leaf s1 d i)" "pages s1 = pages s"
    "leaf s1 = leaf s" "tables s1 = tables s" "map shmPhys (shm_arr s1) = map shmPhys (shm_arr s)"
    using free ok i(2) j by (simp_all add: s1_def map_shmPhys_update)
  have step: "copyuvm_page pgdir d i s =
    run (mappages d i 4096 ?pa (PTE_FLAGS ?pte) s1) (\<lambda>(r, s). Inr (r < 0, s))"
    using i(3) p find PTE_ADDR_not_minus_1 by (simp add: copyuvm_page_def s1_def)
  show ?thesis
  proof (rule map_one [OF s1(1-3), where pa = ?pa and perm = "PTE_FLAGS ?pte"])
    assume "ps = []"
    with len show ?thesis by simp
  next
    fix s2 qs
    assume s2: "free_pages kend s2 qs" "pt_ok kend s2 qs d" "set qs \<subseteq> set ps" "length ps \<le> Suc (length qs)"
      and m: "\<And>n la. mappages_from (Suc n) d i la ?pa (PTE_FLAGS ?pte) s1 =
        (if i = la then Inr (0, s2) else mappages_from n d (i + 4096) la (?pa + 4096) (PTE_FLAGS ?pte) s2)"
      and l: "\<And>x. leaf s2 d x = (if vpn x = vpn i then ?pa OR PTE_FLAGS ?pte OR PTE_P else leaf s1 d x)"
      and t: "tables s2 d \<subseteq> tables s1 d \<union> set ps"
      and pg: "\<And>q. q \<notin> set ps \<Longrightarrow> q \<noteq> d \<Longrightarrow> q \<notin> tables s1 d \<Longrightarrow> pages s2 q = pages s1 q"
    have mp: "mappages d i 4096 ?pa (PTE_FLAGS ?pte) s1 = Inr (0, s2)"
      using m [of 0 i] by (simp add: mappages_page [OF i(1)] del: mappages_from.simps)
    then have "shm_arr s2 = shm_arr s1"
      by (simp add: mappages_page [OF i(1)] shm_arr_mappages_from del: mappages_from.simps)
    with mp s2 l t pg s1 sh entry_parts [OF i(3)] show ?thesis
      unfolding page_copied_def by (intro exI [of _ s2] exI [of _ qs]) (simp add: step)
  qed
qed

lemma copy_private_page:
  assumes free: "free_pages kend s ps" and ok: "pt_ok kend s ps d" and len: "2 \<le> length ps"
    and i: "aligned i" "\<not> present (leaf s d i)" "present (leaf s pgdir i)"
    and sh: "\<not> shared s (PTE_ADDR (leaf s pgdir i))"
  shows "\<exists>s' qs f. copyuvm_page pgdir d i s = Inr (False, s') \<and>
    page_copied kend d (vpn i) (leaf s pgdir i) f ps s s' qs"
proof -
  let ?pte = "leaf s pgdir i" and ?pa = "PTE_ADDR (leaf s pgdir i)"
  obtain p where p: "fst (walkpgdir pgdir i False s) = Some p" "get_pte p s = ?pte"
    using walk_present_leaf [OF i(3)] by blast
  obtain mem s1 where s1: "kalloc s = (mem, s1)" "pages s1 = pages s" "mem \<noteq> 0"
    and "\<And>pg perm. \<exists>s2 qs. mappages d i 4096 (v2p mem) perm (put_page mem pg s1) = Inr (0, s2) \<and>
      page_added kend d (vpn i) perm mem pg ps s s2 qs"
    by (rule alloc_map_page [OF free ok len i(1,2)]) blast
  then obtain s2 qs where
    mp: "mappages d i 4096 (v2p mem) (PTE_FLAGS ?pte) (put_page mem (pages s (p2v ?pa)) s1) = Inr (0, s2)"
    and add: "page_added kend d (vpn i) (PTE_FLAGS ?pte) mem (pages s (p2v ?pa)) ps s s2 qs"
    by blast
  have "shm_arr s2 = shm_arr s"
    using mp shm_arr_kalloc [OF s1(1)] shm_arr_mappages_from
    by (fastforce simp: mappages_page [OF i(1)] simp del: mappages_from.simps)
  moreover have "copyuvm_page pgdir d i s = Inr (False, s2)"
    using i(3) p sh s1 mp by (simp add: copyuvm_page_def findPA_private)
  ultimately show ?thesis
    using add sh by (auto simp: page_copied_def page_added_def)
qed


section \<open>The whole copy\<close>

definition priv :: "'z vmem_scheme \<Rightarrow> u32 \<Rightarrow> nat set \<Rightarrow> nat set" where
  "priv s pgdir A = {v \<in> A. \<not> shared s (PTE_ADDR (leaf s pgdir (of_nat (4096 * v))))}"

definition copied :: "u32 \<Rightarrow> u32 \<Rightarrow> u32 \<Rightarrow> nat set \<Rightarrow> u32 list \<Rightarrow> 'z vmem_scheme \<Rightarrow> 'z vmem_scheme \<Rightarrow> bool" where
  "copied kend pgdir d A ps s s' \<longleftrightarrow> (\<exists>qs fr.
     free_pages kend s' qs \<and> pt_ok kend s' qs d \<and> set qs \<subseteq> set ps \<and>
     tables s' d \<subseteq> tables s d \<union> set ps \<and>
     (\<forall>q. q \<notin> set ps \<longrightarrow> q \<noteq> d \<longrightarrow> q \<notin> tables s d \<longrightarrow> pages s' q = pages s q) \<and>
     map shmPhys (shm_arr s') = map shmPhys (shm_arr s) \<and>
     inj_on fr (priv s pgdir A) \<and> fr ` priv s pgdir A \<subseteq> set ps - set qs - tables s' d \<and>
     (\<forall>x. leaf s' d x = (if vpn x \<notin> A then leaf s d x
        else if shared s (PTE_ADDR (leaf s pgdir x)) then leaf s pgdir x
        else v2p (fr (vpn x)) OR PTE_FLAGS (leaf s pgdir x) OR PTE_P)) \<and>
     (\<forall>x. vpn x \<in> priv s pgdir A \<longrightarrow> pages s' (fr (vpn x)) = pages s (p2v (PTE_ADDR (leaf s pgdir x)))))"

text \<open>The parent's directory, tables and frames lie outside what the copy may write.\<close>

definition apart :: "u32 \<Rightarrow> u32 \<Rightarrow> nat set \<Rightarrow> u32 list \<Rightarrow> 'z vmem_scheme \<Rightarrow> bool" where
  "apart pgdir d A ps s \<longleftrightarrow>
     ({pgdir} \<union> tables s pgdir \<union> {p2v (PTE_ADDR (leaf s pgdir x)) | x. vpn x \<in> A}) \<inter>
     (set ps \<union> {d} \<union> tables s d) = {}"

lemma leaf_vpn: "vpn x = vpn y \<Longrightarrow> leaf s pgdir x = leaf s pgdir y"
  using same_entry_iff [of x y] by (simp add: leaf_def)

lemma leaf_cong:
  assumes "pages s' pgdir = pages s pgdir" "\<forall>t \<in> tables s pgdir. pages s' t = pages s t"
  shows "leaf s' pgdir = leaf s pgdir" "tables s' pgdir = tables s pgdir"
proof -
  have g: "get_pte (pgdir, i) s' = get_pte (pgdir, i) s" for i by (simp add: get_pte_def assms(1))
  then have t: "tab s' pgdir = tab s pgdir" by (simp add: tab_def fun_eq_iff)
  show "tables s' pgdir = tables s pgdir" by (simp add: tables_def g t)
  have "get_pte (tab s pgdir (PDX x), PTX x) s' = get_pte (tab s pgdir (PDX x), PTX x) s"
    if "present (get_pte (pgdir, PDX x) s)" for x
    using assms(2) tab_in_tables [OF PDX_less that] by (simp add: get_pte_def)
  then show "leaf s' pgdir = leaf s pgdir" by (auto simp: leaf_def g t fun_eq_iff)
qed

lemma shared_iff: "shared s pa \<longleftrightarrow> pa \<in> set (map shmPhys (shm_arr s))"
  by (auto simp: shared_def)

lemma shared_cong: "map shmPhys (shm_arr s') = map shmPhys (shm_arr s) \<Longrightarrow> shared s' = shared s"
  by (simp only: shared_iff fun_eq_iff simp_thms)

text \<open>What the parent sees does not change while a page is copied.\<close>

lemma page_copied_parent:
  assumes c: "page_copied kend d v pte f ps s s1 qs" and ap: "apart pgdir d A ps s"
  shows "leaf s1 pgdir = leaf s pgdir" "tables s1 pgdir = tables s pgdir"
    "vpn x \<in> A \<Longrightarrow> pages s1 (p2v (PTE_ADDR (leaf s pgdir x))) = pages s (p2v (PTE_ADDR (leaf s pgdir x)))"
    "B \<subseteq> A \<Longrightarrow> apart pgdir d B qs s1" "shared s1 = shared s" "priv s1 pgdir = priv s pgdir"
proof -
  have pg: "pages s1 q = pages s q" if "q \<notin> set ps \<union> {d} \<union> tables s d" for q
    using c that by (simp add: page_copied_def)
  have k: "pages s1 q = pages s q"
    if "q \<in> {pgdir} \<union> tables s pgdir \<union> {p2v (PTE_ADDR (leaf s pgdir x)) | x. vpn x \<in> A}" for q
    using ap that by (intro pg) (auto simp: apart_def)
  show l: "leaf s1 pgdir = leaf s pgdir" and t: "tables s1 pgdir = tables s pgdir"
    by (rule leaf_cong; use k in blast)+
  show "vpn x \<in> A \<Longrightarrow> pages s1 (p2v (PTE_ADDR (leaf s pgdir x))) = pages s (p2v (PTE_ADDR (leaf s pgdir x)))"
    using k by blast
  have "set qs \<subseteq> set ps" "tables s1 d \<subseteq> tables s d \<union> set ps" using c by (auto simp: page_copied_def)
  with ap show "B \<subseteq> A \<Longrightarrow> apart pgdir d B qs s1" unfolding apart_def l t by blast
  show sh: "shared s1 = shared s"
    using c unfolding page_copied_def by (blast intro: shared_cong)
  show "priv s1 pgdir = priv s pgdir" by (simp add: priv_def l sh fun_eq_iff)
qed

lemma leaf_page: "leaf s pgdir (of_nat (4096 * vpn x)) = leaf s pgdir x"
proof (rule leaf_vpn)
  have "4096 * vpn x < 2 ^ 32" using unat_u32_less [of x] by (simp add: vpn_def)
  then have "unat (of_nat (4096 * vpn x) :: u32) = 4096 * vpn x" by (simp only: unat_of_nat) simp
  then show "vpn (of_nat (4096 * vpn x)) = vpn x" by (simp only: vpn_def [of "of_nat _"])
qed

lemma priv_insert:
  "priv s pgdir (insert (vpn i) A) =
     (if shared s (PTE_ADDR (leaf s pgdir i)) then priv s pgdir A else insert (vpn i) (priv s pgdir A))"
  unfolding priv_def by (simp only: Collect_conv_if2 insert_iff leaf_page [of s pgdir i, symmetric]) auto

lemma copied_step:
  assumes c: "page_copied kend d (vpn i) (leaf s pgdir i) f ps s s1 qs" and ap: "apart pgdir d (insert (vpn i) A) ps s"
    and r: "copied kend pgdir d A qs s1 s'" and i: "vpn i \<notin> A"
  shows "copied kend pgdir d (insert (vpn i) A) ps s s'"
proof -
  note par = page_copied_parent [OF c ap]
  obtain rs fr where r: "free_pages kend s' rs" "pt_ok kend s' rs d" "set rs \<subseteq> set qs"
    "tables s' d \<subseteq> tables s1 d \<union> set qs" "map shmPhys (shm_arr s') = map shmPhys (shm_arr s1)"
    "inj_on fr (priv s pgdir A)" "fr ` priv s pgdir A \<subseteq> set qs - set rs - tables s' d"
    and rp: "\<And>q. q \<notin> set qs \<Longrightarrow> q \<noteq> d \<Longrightarrow> q \<notin> tables s1 d \<Longrightarrow> pages s' q = pages s1 q"
    and rl: "\<And>x. leaf s' d x = (if vpn x \<notin> A then leaf s1 d x
        else if shared s (PTE_ADDR (leaf s pgdir x)) then leaf s pgdir x
        else v2p (fr (vpn x)) OR PTE_FLAGS (leaf s pgdir x) OR PTE_P)"
    and rc: "\<And>x. vpn x \<in> priv s pgdir A \<Longrightarrow>
      pages s' (fr (vpn x)) = pages s1 (p2v (PTE_ADDR (leaf s pgdir x)))"
    using r unfolding copied_def par by blast
  have cq: "set qs \<subseteq> set ps" "tables s1 d \<subseteq> tables s d \<union> set ps"
    "map shmPhys (shm_arr s1) = map shmPhys (shm_arr s)"
    and cp: "\<And>q. q \<notin> set ps \<Longrightarrow> q \<noteq> d \<Longrightarrow> q \<notin> tables s d \<Longrightarrow> pages s1 q = pages s q"
    and cl: "\<And>x. leaf s1 d x = (if vpn x = vpn i then
       (if shared s (PTE_ADDR (leaf s pgdir i)) then leaf s pgdir i
        else v2p f OR PTE_FLAGS (leaf s pgdir i) OR PTE_P) else leaf s d x)"
    and f: "\<not> shared s (PTE_ADDR (leaf s pgdir i)) \<Longrightarrow> f \<in> set ps - set qs - tables s1 d \<and> f \<noteq> d \<and>
       pages s1 f = pages s (p2v (PTE_ADDR (leaf s pgdir i)))"
    using c unfolding page_copied_def by blast+
  let ?P = "priv s pgdir" and ?f = "fr(vpn i := f)"
  have P: "?P (insert (vpn i) A) = (if shared s (PTE_ADDR (leaf s pgdir i)) then ?P A else insert (vpn i) (?P A))"
    by (rule priv_insert)
  have nP: "vpn i \<notin> ?P A" using i by (auto simp: priv_def)
  then have upd: "?f k = fr k" if "k \<in> ?P A" for k using that by auto
  have "inj_on ?f (?P (insert (vpn i) A))"
    using r(6,7) f nP by (auto simp: P inj_on_def upd)
  moreover have "?f ` ?P (insert (vpn i) A) \<subseteq> set ps - set rs - tables s' d"
    using r(3,4,7) f cq nP by (auto simp: P upd)
  moreover have "pages s' q = pages s q" if "q \<notin> set ps" "q \<noteq> d" "q \<notin> tables s d" for q
  proof -
    have "q \<notin> set qs" "q \<notin> tables s1 d" using that cq by auto
    then show ?thesis using rp [of q] cp that by simp
  qed
  moreover have "leaf s' d x = (if vpn x \<notin> insert (vpn i) A then leaf s d x
        else if shared s (PTE_ADDR (leaf s pgdir x)) then leaf s pgdir x
        else v2p (?f (vpn x)) OR PTE_FLAGS (leaf s pgdir x) OR PTE_P)" for x
    using i leaf_vpn [of x i s pgdir] by (auto simp: rl cl)
  moreover have "pages s' (?f (vpn x)) = pages s (p2v (PTE_ADDR (leaf s pgdir x)))"
    if "vpn x \<in> ?P (insert (vpn i) A)" for x
  proof (cases "vpn x = vpn i")
    case True
    then have "\<not> shared s (PTE_ADDR (leaf s pgdir i))" using that nP by (auto simp: P split: if_splits)
    with True f rp [of f] leaf_vpn [OF True, of s pgdir] show ?thesis by auto
  next
    case False
    then have "vpn x \<in> ?P A" using that by (auto simp: P split: if_splits)
    moreover from this have "vpn x \<in> A" by (auto simp: priv_def)
    ultimately show ?thesis using False rc [of x] par(3) [of x] by simp
  qed
  moreover have "set rs \<subseteq> set ps" "tables s' d \<subseteq> tables s d \<union> set ps" using r(3,4) cq by blast+
  ultimately show ?thesis
    unfolding copied_def using r(1,2,5) cq(3) by (intro exI [of _ rs] exI [of _ ?f]) (simp del: fun_upd_apply)
qed


lemma copyuvm_from_copied:
  assumes "free_pages kend s ps" "pt_ok kend s ps d" "2 * n \<le> length ps" "n \<le> m" "aligned i"
    and "unat sz \<le> unat i + 4096 * n" "unat i + 4096 * n < unat sz + 4096" "unat sz + 4096 < 2 ^ 32"
    and "\<forall>x. vpn x \<in> {vpn i ..< vpn i + n} \<longrightarrow> \<not> present (leaf s d x) \<and> present (leaf s pgdir x)"
    and "apart pgdir d {vpn i ..< vpn i + n} ps s"
  shows "\<exists>s'. copyuvm_from m kend pgdir d i sz s = Inr (d, s') \<and>
    copied kend pgdir d {vpn i ..< vpn i + n} ps s s'"
  using assms
proof (induction n arbitrary: m s ps i)
  case 0
  then have "\<not> i < sz" by (simp add: word_less_nat_alt)
  then have "copyuvm_from m kend pgdir d i sz s = Inr (d, s)" by (cases m) simp_all
  with 0 show ?case by (auto simp: copied_def priv_def)
next
  case (Suc n)
  obtain m' where m: "m = Suc m'" "n \<le> m'" using Suc.prems(4) by (cases m) auto
  have lt: "i < sz" using Suc.prems(7) by (simp add: word_less_nat_alt)
  have bound: "unat i + 4096 < 2 ^ 32" using Suc.prems(7,8) by simp
  then have u: "unat (i + 4096) = unat i + 4096" by (simp add: unat_word_ariths)
  then have al: "aligned (i + 4096)" using Suc.prems(5) by (simp add: aligned_def)
  have v: "vpn (i + 4096) = Suc (vpn i)" by (rule vpn_add [OF bound])
  let ?A = "{Suc (vpn i) ..< Suc (vpn i) + n}"
  have ivl: "{vpn i ..< vpn i + Suc n} = insert (vpn i) ?A" by auto
  have now: "2 \<le> length ps" "ps \<noteq> []" "\<not> present (leaf s d i)" "present (leaf s pgdir i)"
    using Suc.prems(3,9) by auto
  obtain s1 qs f where c: "copyuvm_page pgdir d i s = Inr (False, s1)"
    and add: "page_copied kend d (vpn i) (leaf s pgdir i) f ps s s1 qs"
    using copy_shared_page [OF Suc.prems(1,2) now(2) Suc.prems(5) now(3,4)]
      copy_private_page [OF Suc.prems(1,2) now(1) Suc.prems(5) now(3,4)] by blast
  have ap: "apart pgdir d (insert (vpn i) ?A) ps s" using Suc.prems(10) by (simp only: ivl)
  note par = page_copied_parent [OF add ap]
  have s1: "free_pages kend s1 qs" "pt_ok kend s1 qs d" and q: "length ps \<le> 2 + length qs"
    and l: "\<And>x. vpn x \<in> ?A \<Longrightarrow> leaf s1 d x = leaf s d x"
    using add by (auto simp: page_copied_def)
  have "\<exists>s'. copyuvm_from m' kend pgdir d (i + 4096) sz s1 = Inr (d, s') \<and>
    copied kend pgdir d {vpn (i + 4096) ..< vpn (i + 4096) + n} qs s1 s'"
    using Suc.prems(3,6-9) q par(4) [of ?A] by (intro Suc.IH [OF s1 _ m(2) al]) (auto simp: u v l par(1))
  then obtain s' where s': "copyuvm_from m' kend pgdir d (i + 4096) sz s1 = Inr (d, s')"
    "copied kend pgdir d ?A qs s1 s'" by (auto simp: v)
  have "copied kend pgdir d (insert (vpn i) ?A) ps s s'"
    by (rule copied_step [OF add ap s'(2)]) auto
  then have "copied kend pgdir d {vpn i ..< vpn i + Suc n} ps s s'" by (simp only: ivl)
  with s'(1) c lt show ?case by (simp add: m(1))
qed

lemma shm_arr_setupkvm: "setupkvm kdata s = Inr (d, s') \<Longrightarrow> shm_arr s' = shm_arr s"
proof -
  have m: "map_kernel ks p t = Inr (d, t') \<Longrightarrow> shm_arr t' = shm_arr t" for ks p and t t' :: "'a vmem_scheme"
  proof (induction ks arbitrary: t)
    case (Cons k ks)
    obtain v a e perm where k: "k = (v, a, e, perm)" by (cases k)
    show ?case
    proof (cases "mappages p v (e - a) a perm t")
      case (Inr rs)
      obtain r t1 where rs: "rs = (r, t1)" by (cases rs)
      have "shm_arr t1 = shm_arr t" using Inr shm_arr_mappages_from unfolding mappages_def Let_def rs by blast
      with Cons Inr show ?thesis by (auto simp: k rs split: if_splits)
    qed (use Cons.prems in \<open>simp add: k\<close>)
  qed simp
  assume "setupkvm kdata s = Inr (d, s')"
  then show ?thesis
    by (auto simp: setupkvm_def Let_def split: prod.splits if_splits dest!: m shm_arr_kalloc)
qed

text \<open>
  A clone of an address space: what \<open>copied\<close> says of the pages \<open>A\<close>, with the kernel's own map everywhere else, all
  of it built from the free pages \<open>ps\<close>.
\<close>

definition cloned :: "u32 \<Rightarrow> u32 \<Rightarrow> u32 \<Rightarrow> u32 \<Rightarrow> nat set \<Rightarrow> u32 list \<Rightarrow> 'z vmem_scheme \<Rightarrow> 'z vmem_scheme \<Rightarrow> bool" where
  "cloned kend kdata pgdir d A ps s s' \<longleftrightarrow> (\<exists>qs fr.
     free_pages kend s' qs \<and> pt_ok kend s' qs d \<and> set qs \<subseteq> set ps \<and> d \<in> set ps - set qs \<and> tables s' d \<subseteq> set ps \<and>
     (\<forall>q. q \<notin> set ps \<longrightarrow> pages s' q = pages s q) \<and>
     map shmPhys (shm_arr s') = map shmPhys (shm_arr s) \<and>
     inj_on fr (priv s pgdir A) \<and> fr ` priv s pgdir A \<subseteq> set ps - set qs - tables s' d - {d} \<and>
     (\<forall>x. leaf s' d x = (if vpn x \<notin> A then kernel_map kdata x
        else if shared s (PTE_ADDR (leaf s pgdir x)) then leaf s pgdir x
        else v2p (fr (vpn x)) OR PTE_FLAGS (leaf s pgdir x) OR PTE_P)) \<and>
     (\<forall>x. vpn x \<in> priv s pgdir A \<longrightarrow> pages s' (fr (vpn x)) = pages s (p2v (PTE_ADDR (leaf s pgdir x)))))"

text \<open>The pages of an address space: its directory, its tables, and the frames of the pages \<open>A\<close>.\<close>

definition footprint :: "'z vmem_scheme \<Rightarrow> u32 \<Rightarrow> nat set \<Rightarrow> u32 set" where
  "footprint s pgdir A = {pgdir} \<union> tables s pgdir \<union> {p2v (PTE_ADDR (leaf s pgdir x)) | x. vpn x \<in> A}"

lemma copied_cloned:
  assumes k: "kernel_space kend kdata d ps qs s s1" and shm: "shm_arr s1 = shm_arr s"
    and fp: "footprint s pgdir A \<inter> set ps = {}" and c: "copied kend pgdir d A qs s1 s'"
  shows "cloned kend kdata pgdir d A ps s s'"
proof -
  have k1: "pt_ok kend s1 qs d" "d \<in> set ps" "tables s1 d \<subseteq> set ps" "set qs \<subseteq> set ps"
    and pg: "\<And>q. q \<notin> set ps \<Longrightarrow> pages s1 q = pages s q" and kl: "\<And>x. leaf s1 d x = kernel_map kdata x"
    using k unfolding kernel_space_def by blast+
  have "pages s1 pgdir = pages s pgdir" "\<forall>t \<in> tables s pgdir. pages s1 t = pages s t"
    using fp pg by (auto simp: footprint_def)
  then have l: "leaf s1 pgdir = leaf s pgdir" by (rule leaf_cong)
  have sh: "shared s1 = shared s" by (simp add: shared_def shm fun_eq_iff)
  have pr: "priv s1 pgdir A = priv s pgdir A" by (simp add: priv_def l sh)
  have frame: "pages s1 (p2v (PTE_ADDR (leaf s pgdir x))) = pages s (p2v (PTE_ADDR (leaf s pgdir x)))" if "vpn x \<in> A" for x
    using fp that by (intro pg) (auto simp: footprint_def)
  have d: "d \<notin> set qs" using k1(1) by (simp add: pt_ok_def)
  obtain rs fr where c': "free_pages kend s' rs" "pt_ok kend s' rs d" "set rs \<subseteq> set qs" "tables s' d \<subseteq> tables s1 d \<union> set qs"
    "\<And>q. q \<notin> set qs \<Longrightarrow> q \<noteq> d \<Longrightarrow> q \<notin> tables s1 d \<Longrightarrow> pages s' q = pages s1 q"
    "map shmPhys (shm_arr s') = map shmPhys (shm_arr s1)"
    "inj_on fr (priv s pgdir A)" "fr ` priv s pgdir A \<subseteq> set qs - set rs - tables s' d"
    "\<And>x. leaf s' d x = (if vpn x \<notin> A then leaf s1 d x else if shared s (PTE_ADDR (leaf s pgdir x)) then leaf s pgdir x
        else v2p (fr (vpn x)) OR PTE_FLAGS (leaf s pgdir x) OR PTE_P)"
    "\<And>x. vpn x \<in> priv s pgdir A \<Longrightarrow> pages s' (fr (vpn x)) = pages s1 (p2v (PTE_ADDR (leaf s pgdir x)))"
    using c unfolding copied_def l sh pr by blast
  have "pages s' q = pages s q" if "q \<notin> set ps" for q
    using that c'(5) [of q] pg [of q] k1(2-4) by auto
  moreover have "pages s' (fr (vpn x)) = pages s (p2v (PTE_ADDR (leaf s pgdir x)))" if "vpn x \<in> priv s pgdir A" for x
    using c'(10) [OF that] frame [of x] that by (simp add: priv_def)
  moreover have "set rs \<subseteq> set ps" "d \<in> set ps - set rs" "tables s' d \<subseteq> set ps" using c'(3,4) k1 d by auto
  moreover have "fr ` priv s pgdir A \<subseteq> set ps - set rs - tables s' d - {d}" using c'(8) k1(4) d by auto
  ultimately show ?thesis
    unfolding cloned_def using c'(1,2,6,7,9) by (intro exI [of _ rs] exI [of _ fr]) (simp add: kl shm)
qed

text \<open>C3. \<^verbatim>\<open>copyuvm\<close>, with more than 65 free pages for the kernel's part of the new address space and two for each of the
  parent's \<open>n\<close> pages, returns a new directory with a copy of the address space: a page in a shared-memory
  region is mapped in the child by the parent's own entry, every other page by an entry with the parent's flags to
  its own frame, taken from the free list, with the parent's contents; every other address is mapped as \<^verbatim>\<open>setupkvm\<close>
  does; and nothing but pages that were free is written.\<close>

theorem copyuvm_copies:
  assumes "free_pages kend s ps" "kdata_ok kdata" "unat sz < 2 ^ 31"
    and "n = (unat sz + 4095) div 4096" "65 + 2 * n < length ps"
    and "\<forall>x. vpn x < n \<longrightarrow> present (leaf s pgdir x)" "footprint s pgdir {0 ..< n} \<inter> set ps = {}"
  shows "\<exists>d s'. copyuvm kend kdata pgdir sz s = Inr (d, s') \<and> d \<noteq> 0 \<and> cloned kend kdata pgdir d {0 ..< n} ps s s'"
proof -
  have "65 < length ps" using assms(5) by simp
  from setupkvm_space [OF assms(1) this assms(2)] obtain d s1 qs where
    s1: "setupkvm kdata s = Inr (d, s1)" "d \<noteq> 0" and k: "kernel_space kend kdata d ps qs s s1" by blast
  have k1: "free_pages kend s1 qs" "pt_ok kend s1 qs d" "d \<in> set ps" "tables s1 d \<subseteq> set ps" "set qs \<subseteq> set ps"
    "length ps \<le> 65 + length qs" and pg: "\<And>q. q \<notin> set ps \<Longrightarrow> pages s1 q = pages s q"
    and kl: "\<And>x. leaf s1 d x = kernel_map kdata x"
    using k unfolding kernel_space_def by blast+
  have "pages s1 pgdir = pages s pgdir" "\<forall>t \<in> tables s pgdir. pages s1 t = pages s t"
    using assms(7) pg by (auto simp: footprint_def)
  note par = leaf_cong [OF this]
  have "n \<le> 2 ^ 19" using assms(3,4) by (simp add: less_mult_imp_div_less)
  have "\<not> present (leaf s1 d x)" if "vpn x < n" for x
  proof -
    have "unat x div 4096 < 2 ^ 19" using that \<open>n \<le> 2 ^ 19\<close> unfolding vpn_def by linarith
    then have "unat x < 2 ^ 31" by (simp add: div_less_iff_less_mult)
    then have "x < KERNBASE" by (simp add: KERNBASE_def word_less_nat_alt)
    then show ?thesis by (simp add: kl kernel_map_def present_def)
  qed
  then have pre: "\<forall>x. vpn x \<in> {vpn 0 ..< vpn 0 + n} \<longrightarrow> \<not> present (leaf s1 d x) \<and> present (leaf s1 pgdir x)"
    using assms(6) by (simp add: par(1) vpn_def)
  have "apart pgdir d {vpn 0 ..< vpn 0 + n} qs s1"
    using assms(7) k1(3-5) by (auto simp: apart_def footprint_def par vpn_def)
  moreover have "2 * n \<le> length qs" "n \<le> Suc (unat sz div 4096)" "aligned 0" "unat sz \<le> unat (0 :: u32) + 4096 * n"
    "unat (0 :: u32) + 4096 * n < unat sz + 4096" "unat sz + 4096 < 2 ^ 32"
    using k1(6) assms(3-5) by (simp_all add: aligned_def)
  ultimately obtain s' where s': "copyuvm_from (Suc (unat sz div 4096)) kend pgdir d 0 sz s1 = Inr (d, s')"
    "copied kend pgdir d {vpn 0 ..< vpn 0 + n} qs s1 s'"
    using copyuvm_from_copied [OF k1(1,2) _ _ _ _ _ _ pre] by blast
  have "vpn 0 = 0" by (simp add: vpn_def)
  then have "cloned kend kdata pgdir d {0 ..< n} ps s s'"
    using s'(2) copied_cloned [OF k shm_arr_setupkvm [OF s1(1)] assms(7)] by simp
  moreover have "copyuvm kend kdata pgdir sz s = Inr (d, s')"
    using s1 s'(1) by (simp add: copyuvm_def del: copyuvm_from.simps)
  ultimately show ?thesis using s1(2) by blast
qed

text \<open>A parent with one page in a shared region.\<close>

definition parent1 :: vmem where
  "parent1 = vmem2\<lparr>
     pages := (pages vmem2)(0x80700000 := pg_set_word (\<lambda>_. 0) 0 0x00701007, 0x80701000 := pg_set_word (\<lambda>_. 0) 0 0x00702007),
     shm_arr := [\<lparr>name_length = 1, shm_nm = [], numAccess = 1, shmPhys = 0x00702000\<rparr>]\<rparr>"

lemma parent1_pte:
  "get_pte (0x80600000, i) parent1 = 0"
  "get_pte (0x80700000, i) parent1 = (if i = 0 then 0x00701007 else 0)"
  "get_pte (0x80701000, i) parent1 = (if i = 0 then 0x00702007 else 0)"
  by (simp_all add: parent1_def get_pte_def vmem2_def pg_word_zero_fun)

lemma parent1_tables:
  "tables parent1 0x80600000 = {}" "tables parent1 0x80700000 = {0x80701000}"
  by (auto simp: tables_def parent1_pte tab_def present_def PTE_P_def PTE_ADDR_def p2v_def KERNBASE_def
      intro!: exI [of _ 0])

lemma parent1_leaf:
  assumes "vpn x < 1"
  shows "leaf parent1 0x80600000 x = 0" "leaf parent1 0x80700000 x = 0x00702007"
proof -
  have "PDX x = 0" "PTX x = 0" using assms by (simp_all add: PDX_eq PTX_eq vpn_def)
  then show "leaf parent1 0x80600000 x = 0" "leaf parent1 0x80700000 x = 0x00702007"
    by (simp_all add: leaf_def parent1_pte tab_def present_def PTE_P_def PTE_ADDR_def p2v_def KERNBASE_def)
qed

lemma parent1_free: "free_pages 0x80400000 parent1 [0x80500000, 0x80501000]"
  by (simp add: free_pages_def parent1_def vmem2_def page_ok_def PGSIZE_def v2p_def KERNBASE_def PHYSTOP_def)
    (simp add: pg_word_def load_le32_def)

text \<open>A parent with a private page and one in a shared region, and a hundred free pages.\<close>

definition parent2 :: vmem where
  "parent2 = parent1\<lparr>freelist := 0x80563000,
     pages := (\<lambda>q. if 0x80500000 \<le> q \<and> q < 0x80564000 then link_page 0x80500000 q
       else if q = 0x80701000 then pg_set_word (pg_set_word (\<lambda>_. 0) 0 0x00703007) 1 0x00702007
       else pages parent1 q)\<rparr>"

theorem copyuvm_copies_witness:
  "\<exists>d s'. copyuvm 0x80400000 0x80109000 0x80700000 0x2000 parent2 = Inr (d, s') \<and> d \<noteq> 0 \<and>
    cloned 0x80400000 0x80109000 0x80700000 d {0 ..< 2} (page_run 0x80500000 100) parent2 s'"
proof (rule copyuvm_copies)
  have run: "0x80500000 \<le> q \<and> q < 0x80564000" if q: "q \<in> set (page_run 0x80500000 100)" for q
  proof -
    obtain i where "i < 100" "q = 0x80500000 + of_nat (4096 * i)" using page_run_range [OF q] by blast
    moreover from this have "unat q = 0x80500000 + 4096 * i" using unat_nth_page [of "0x80500000" i] by simp
    ultimately show ?thesis by (simp add: word_le_nat_alt word_less_nat_alt)
  qed
  show "free_pages 0x80400000 parent2 (page_run 0x80500000 100)"
    using run by (intro free_run) (simp_all add: parent2_def aligned_def)
  have pte: "get_pte (0x80700000, i) parent2 = (if i = 0 then 0x00701007 else 0)"
    "get_pte (0x80701000, i) parent2 = (if i = 0 then 0x00703007 else if i = 1 then 0x00702007 else 0)" for i
    by (simp_all add: parent2_def get_pte_def parent1_def vmem2_def pg_word_set pg_word_zero_fun)
  have tabs: "tables parent2 0x80700000 = {0x80701000}"
    by (auto simp: tables_def pte tab_def present_def PTE_P_def PTE_ADDR_def p2v_def KERNBASE_def intro!: exI [of _ 0])
  have lf: "leaf parent2 0x80700000 x \<in> {0x00703007, 0x00702007}" if "vpn x < 2" for x
  proof -
    have "PDX x = 0" "PTX x = vpn x" using that by (simp_all add: PDX_eq PTX_eq vpn_def)
    then show ?thesis
      using that by (auto simp: leaf_def pte tab_def present_def PTE_P_def PTE_ADDR_def p2v_def KERNBASE_def)
  qed
  then show "\<forall>x. vpn x < 2 \<longrightarrow> present (leaf parent2 0x80700000 x)" by (fastforce simp: present_def PTE_P_def)
  have "footprint parent2 0x80700000 {0 ..< 2} \<subseteq> {0x80700000, 0x80701000, 0x80702000, 0x80703000}"
    using lf by (fastforce simp: footprint_def tabs PTE_ADDR_def p2v_def KERNBASE_def)
  moreover have "q \<notin> set (page_run 0x80500000 100)" if "q \<in> {0x80700000, 0x80701000, 0x80702000, 0x80703000}" for q
    using run [of q] that by auto
  ultimately show "footprint parent2 0x80700000 {0 ..< 2} \<inter> set (page_run 0x80500000 100) = {}" by blast
  show "65 + 2 * 2 < length (page_run 0x80500000 100)" by (simp add: page_run_def)
qed (simp_all add: kdata_ok_def aligned_def KERNBASE_def EXTMEM_def PHYSTOP_def p2v_def)

section \<open>Releasing pages\<close>

lemma shm_arr_kfree: "kfree kend v s = Inr s' \<Longrightarrow> shm_arr s' = shm_arr s"
  by (auto simp: kfree_def Let_def split: if_splits)

text \<open>The frames of the private pages among the \<open>n\<close> pages from \<open>v\<close> on, last first.\<close>

primrec priv_frames :: "'z vmem_scheme \<Rightarrow> u32 \<Rightarrow> nat \<Rightarrow> nat \<Rightarrow> u32 list" where
  "priv_frames s pgdir v 0 = []"
| "priv_frames s pgdir v (Suc n) =
     (let pa = PTE_ADDR (leaf s pgdir (of_nat (4096 * v)))
      in priv_frames s pgdir (Suc v) n @ (if shared s pa then [] else [p2v pa]))"

definition released :: "u32 \<Rightarrow> u32 \<Rightarrow> nat \<Rightarrow> nat \<Rightarrow> u32 list \<Rightarrow> 'z vmem_scheme \<Rightarrow> 'z vmem_scheme \<Rightarrow> bool" where
  "released kend pgdir v n ps s s' \<longleftrightarrow>
     free_pages kend s' (priv_frames s pgdir v n @ ps) \<and> pt_ok kend s' (priv_frames s pgdir v n @ ps) pgdir \<and>
     map shmPhys (shm_arr s') = map shmPhys (shm_arr s) \<and>
     (\<forall>x. leaf s' pgdir x = (if vpn x \<in> priv s pgdir {v ..< v + n} then 0 else leaf s pgdir x)) \<and>
     (\<forall>q. q \<notin> set (priv_frames s pgdir v n) \<longrightarrow> q \<notin> tables s pgdir \<longrightarrow> pages s' q = pages s q)"

lemma priv_frames_cong:
  "leaf s1 pgdir = l1 \<Longrightarrow> shared s1 = shared s \<Longrightarrow> (\<And>x. vpn x \<in> {v ..< v + n} \<Longrightarrow> l1 x = leaf s pgdir x) \<Longrightarrow>
   v + n \<le> 2 ^ 20 \<Longrightarrow> priv_frames s1 pgdir v n = priv_frames s pgdir v n"
proof (induction n arbitrary: v)
  case (Suc n)
  have "unat (of_nat (4096 * v) :: u32) = 4096 * v" using Suc.prems(4) by (simp only: unat_of_nat) simp
  then have "vpn (of_nat (4096 * v)) = v" by (simp only: vpn_def [of "of_nat _"])
  then have "l1 (of_nat (4096 * v)) = leaf s pgdir (of_nat (4096 * v))" by (intro Suc.prems(3)) simp
  moreover have "priv_frames s1 pgdir (Suc v) n = priv_frames s pgdir (Suc v) n"
    using Suc.prems by (intro Suc.IH) simp_all
  ultimately show ?case using Suc.prems(1,2) by (simp add: Let_def)
qed simp

text \<open>One page: a shared frame only has its count changed, any other is freed and unmapped.\<close>

lemma release_page:
  assumes free: "free_pages kend s ps" and ok: "pt_ok kend s ps pgdir" and a: "present (leaf s pgdir a)" "a < oldsz"
    and fr: "PTE_ADDR (leaf s pgdir a) \<noteq> 0"
      "\<not> shared s (PTE_ADDR (leaf s pgdir a)) \<Longrightarrow> page_ok kend (p2v (PTE_ADDR (leaf s pgdir a))) \<and>
         p2v (PTE_ADDR (leaf s pgdir a)) \<notin> set ps \<union> {pgdir} \<union> tables s pgdir"
  shows "\<exists>s1. (\<forall>n. deallocuvm_from (Suc n) kend pgdir a oldsz acc s =
      deallocuvm_from n kend pgdir (a + 4096) oldsz acc s1) \<and>
    (let pa = PTE_ADDR (leaf s pgdir a); fs = (if shared s pa then [] else [p2v pa])
     in free_pages kend s1 (fs @ ps) \<and> pt_ok kend s1 (fs @ ps) pgdir \<and>
        map shmPhys (shm_arr s1) = map shmPhys (shm_arr s) \<and> tables s1 pgdir = tables s pgdir \<and>
        (\<forall>x. leaf s1 pgdir x = (if vpn x = vpn a \<and> \<not> shared s pa then 0 else leaf s pgdir x)) \<and>
        (\<forall>q. q \<notin> set fs \<longrightarrow> q \<notin> tables s pgdir \<longrightarrow> pages s1 q = pages s q))"
proof -
  let ?pa = "PTE_ADDR (leaf s pgdir a)"
  obtain p where p: "fst (walkpgdir pgdir a False s) = Some p" "get_pte p s = leaf s pgdir a"
    using walk_present_leaf [OF a(1)] by blast
  show ?thesis
  proof (cases "shared s ?pa")
    case True
    then obtain j e where j: "j < length (shm_arr s)" "shm_arr s ! j = e" "shmPhys e = ?pa"
      and find: "shm_arr_findPA ?pa acc s = (?pa, s\<lparr>shm_arr := (shm_arr s)[j := e\<lparr>numAccess := numAccess e + acc\<rparr>]\<rparr>)"
      using findPA_shared [OF True] by blast
    with True p a fr(1) free ok show ?thesis
      by (intro exI [of _ "s\<lparr>shm_arr := (shm_arr s)[j := e\<lparr>numAccess := numAccess e + acc\<rparr>]\<rparr>"])
        (simp add: PTE_ADDR_not_minus_1 map_shmPhys_update Let_def)
  next
    case False
    let ?f = "p2v ?pa"
    have f: "page_ok kend ?f" "?f \<notin> set ps" "?f \<noteq> pgdir" "?f \<notin> tables s pgdir" using fr(2) [OF False] by auto
    obtain s1 where s1: "kfree kend ?f s = Inr s1" "free_pages kend s1 (?f # ps)"
      "\<forall>q. q \<noteq> ?f \<longrightarrow> pages s1 q = pages s q"
      using ka.free_valid [OF free f(1,2)] by blast
    have same: "pages s1 pgdir = pages s pgdir" "\<forall>t \<in> tables s pgdir. pages s1 t = pages s t"
      using s1(3) f(3,4) by metis+
    note l = leaf_cong [OF same]
    have g: "get_pte (pgdir, i) s1 = get_pte (pgdir, i) s" "tab s1 pgdir i = tab s pgdir i" for i
      by (simp_all add: tab_def get_pte_def same(1))
    have ok1: "pt_ok kend s1 (?f # ps) pgdir"
      using ok f by (auto simp: pt_ok_def g l)
    have pde: "present (get_pte (pgdir, PDX a) s)" using a(1) by (auto simp: leaf_def split: if_splits)
    then have pde1: "present (get_pte (pgdir, PDX a) s1)" by (simp add: g)
    have p': "p = (tab s1 pgdir (PDX a), PTX a)" using p(1) by (simp add: walk_present [OF pde] g)
    note sl = set_leaf [OF s1(2) ok1 pde1, where w = 0]
    have "deallocuvm_from (Suc n) kend pgdir a oldsz acc s =
      deallocuvm_from n kend pgdir (a + 4096) oldsz acc (set_pte p 0 s1)" for n
      using p a fr(1) s1(1) by (simp add: findPA_private [OF False])
    moreover have "pages (set_pte p 0 s1) q = pages s q" if "q \<noteq> ?f" "q \<notin> tables s pgdir" for q
      using sl(5) [of q] s1(3) that by (simp add: p' l(2))
    ultimately show ?thesis
      using False sl(1-4) shm_arr_kfree [OF s1(1)]
      by (intro exI [of _ "set_pte p 0 s1"]) (simp add: p' l)
  qed
qed


text \<open>The frames of the pages from \<open>v\<close> on are owned by this address space alone, or shared.\<close>

definition owns_frames :: "u32 \<Rightarrow> u32 \<Rightarrow> nat \<Rightarrow> nat \<Rightarrow> u32 list \<Rightarrow> 'z vmem_scheme \<Rightarrow> bool" where
  "owns_frames kend pgdir v n ps s \<longleftrightarrow>
     (\<forall>x. vpn x \<in> {v ..< v + n} \<longrightarrow> present (leaf s pgdir x) \<and> PTE_ADDR (leaf s pgdir x) \<noteq> 0) \<and>
     (\<forall>p \<in> set (priv_frames s pgdir v n). page_ok kend p \<and> p \<notin> set ps \<union> {pgdir} \<union> tables s pgdir) \<and>
     distinct (priv_frames s pgdir v n)"

lemma vpn_unat:
  assumes "aligned a"
  shows "of_nat (4096 * vpn a) = a"
proof -
  have "4096 * vpn a = unat a" using assms by (auto simp: aligned_def vpn_def)
  then show ?thesis by (simp del: of_nat_mult)
qed

lemma vpn_of_nat: "v < 2 ^ 20 \<Longrightarrow> vpn (of_nat (4096 * v)) = v"
proof -
  assume "v < 2 ^ 20"
  then have "unat (of_nat (4096 * v) :: u32) = 4096 * v" by (simp only: unat_of_nat) simp
  then show ?thesis by (simp only: vpn_def [of "of_nat _"])
qed

lemma deallocuvm_from_released:
  assumes "free_pages kend s ps" "pt_ok kend s ps pgdir" "n \<le> m" "aligned a"
    and "unat oldsz \<le> unat a + 4096 * n" "unat a + 4096 * n < unat oldsz + 4096" "unat oldsz + 4096 < 2 ^ 32"
    and "owns_frames kend pgdir (vpn a) n ps s"
  shows "\<exists>s'. deallocuvm_from m kend pgdir a oldsz acc s = Inr s' \<and> released kend pgdir (vpn a) n ps s s'"
  using assms
proof (induction n arbitrary: m s ps a)
  case 0
  then have "\<not> a < oldsz" by (simp add: word_less_nat_alt)
  then have "deallocuvm_from m kend pgdir a oldsz acc s = Inr s" by (cases m) simp_all
  with 0 show ?case by (auto simp: released_def priv_def)
next
  case (Suc n)
  obtain m' where m: "m = Suc m'" "n \<le> m'" using Suc.prems(3) by (cases m) auto
  have lt: "a < oldsz" using Suc.prems(6) by (simp add: word_less_nat_alt)
  have bound: "unat a + 4096 < 2 ^ 32" using Suc.prems(6,7) by simp
  then have u: "unat (a + 4096) = unat a + 4096" by (simp add: unat_word_ariths)
  then have al: "aligned (a + 4096)" using Suc.prems(4) by (simp add: aligned_def)
  have v: "vpn (a + 4096) = Suc (vpn a)" by (rule vpn_add [OF bound])
  let ?pa = "PTE_ADDR (leaf s pgdir a)"
  let ?fs = "if shared s ?pa then [] else [p2v ?pa]" and ?rest = "priv_frames s pgdir (Suc (vpn a)) n"
  have fs: "priv_frames s pgdir (vpn a) (Suc n) = ?rest @ ?fs"
    by (simp add: Let_def vpn_unat [OF Suc.prems(4)] del: of_nat_mult)
  have now: "present (leaf s pgdir a)" "?pa \<noteq> 0"
    "\<not> shared s ?pa \<Longrightarrow> page_ok kend (p2v ?pa) \<and> p2v ?pa \<notin> set ps \<union> {pgdir} \<union> tables s pgdir"
    using Suc.prems(8) unfolding owns_frames_def fs by auto
  obtain s1 where step: "\<And>n. deallocuvm_from (Suc n) kend pgdir a oldsz acc s =
      deallocuvm_from n kend pgdir (a + 4096) oldsz acc s1"
    and s1: "free_pages kend s1 (?fs @ ps)" "pt_ok kend s1 (?fs @ ps) pgdir"
      "map shmPhys (shm_arr s1) = map shmPhys (shm_arr s)" "tables s1 pgdir = tables s pgdir"
    and l: "\<And>x. leaf s1 pgdir x = (if vpn x = vpn a \<and> \<not> shared s ?pa then 0 else leaf s pgdir x)"
    and pg: "\<And>q. q \<notin> set ?fs \<Longrightarrow> q \<notin> tables s pgdir \<Longrightarrow> pages s1 q = pages s q"
    using release_page [OF Suc.prems(1,2) now(1) lt now(2,3), of acc] unfolding Let_def by blast
  have sh: "shared s1 = shared s" using s1(3) by (rule shared_cong)
  have le: "Suc (vpn a) + n \<le> 2 ^ 20"
    using Suc.prems(4,6,7) by (auto simp: aligned_def vpn_def)
  have rest: "priv_frames s1 pgdir (Suc (vpn a)) n = ?rest"
    by (rule priv_frames_cong [OF refl sh _ le]) (auto simp: l)
  have own: "owns_frames kend pgdir (Suc (vpn a)) n (?fs @ ps) s1"
    using Suc.prems(8) unfolding owns_frames_def rest fs s1(4) by (auto simp: l)
  have "\<exists>s'. deallocuvm_from m' kend pgdir (a + 4096) oldsz acc s1 = Inr s' \<and>
    released kend pgdir (vpn (a + 4096)) n (?fs @ ps) s1 s'"
    using Suc.prems(5-7) own by (intro Suc.IH [OF s1(1,2) m(2) al]) (simp_all add: u v)
  then obtain s' where s': "deallocuvm_from m' kend pgdir (a + 4096) oldsz acc s1 = Inr s'"
    and r: "released kend pgdir (Suc (vpn a)) n (?fs @ ps) s1 s'" by (auto simp: v)
  let ?A = "{Suc (vpn a) ..< Suc (vpn a) + n}"
  have "leaf s1 pgdir (of_nat (4096 * k)) = leaf s pgdir (of_nat (4096 * k))" if "k \<in> ?A" for k
    using that le vpn_of_nat [of k] by (simp add: l del: of_nat_mult)
  then have P: "priv s1 pgdir ?A = priv s pgdir ?A"
    by (simp add: priv_def sh del: of_nat_mult cong: conj_cong)
  have ivl: "{vpn a ..< vpn a + Suc n} = insert (vpn a) ?A" by auto
  have "released kend pgdir (vpn a) (Suc n) ps s s'"
    using r pg s1(3,4) unfolding released_def fs ivl priv_insert P rest
    by (simp add: l vpn_unat [OF Suc.prems(4)])
  with s' step m(1) show ?case by auto
qed


text \<open>C25. Shrinking an address space: \<^verbatim>\<open>deallocuvm\<close> on a region all of whose pages are mapped
  returns \<open>newsz\<close>. The frames of its private pages, and no others, go back to the free list and
  their entries are cleared; a page of a shared-memory region keeps its entry and its frame, whose
  contents do not change.\<close>

theorem deallocuvm_releases:
  assumes "free_pages kend s ps" "pt_ok kend s ps pgdir" "newsz < oldsz" "unat oldsz \<le> 2 ^ 31"
    and "n = (unat oldsz + 4095) div 4096 - (unat newsz + 4095) div 4096"
    and "owns_frames kend pgdir (vpn (PGROUNDUP newsz)) n ps s"
  shows "\<exists>s'. deallocuvm kend pgdir oldsz newsz acc s = Inr (newsz, s') \<and>
    released kend pgdir (vpn (PGROUNDUP newsz)) n ps s s'"
proof -
  have le: "unat newsz < unat oldsz" using assms(3) by (simp add: word_less_nat_alt)
  have a: "unat (PGROUNDUP newsz) = (unat newsz + 4095) div 4096 * 4096"
    using assms(4) le by (intro unat_PGROUNDUP) simp
  have "(unat newsz + 4095) div 4096 \<le> (unat oldsz + 4095) div 4096" using le by (intro div_le_mono) simp
  then have e: "unat (PGROUNDUP newsz) + 4096 * n = (unat oldsz + 4095) div 4096 * 4096"
    using a assms(5) by (simp add: algebra_simps)
  have "n \<le> Suc (unat oldsz div 4096)" using assms(5) by simp
  moreover have "aligned (PGROUNDUP newsz)" using a by (simp add: aligned_def)
  moreover have "unat oldsz \<le> unat (PGROUNDUP newsz) + 4096 * n"
    "unat (PGROUNDUP newsz) + 4096 * n < unat oldsz + 4096" using e by simp_all
  ultimately have "\<exists>s'. deallocuvm_from (Suc (unat oldsz div 4096)) kend pgdir (PGROUNDUP newsz) oldsz acc s
      = Inr s' \<and> released kend pgdir (vpn (PGROUNDUP newsz)) n ps s s'"
    using assms(1,2,4,6) by (intro deallocuvm_from_released) simp_all
  moreover have "\<not> oldsz \<le> newsz" using assms(3) by (simp add: not_le)
  ultimately show ?thesis by (auto simp: deallocuvm_def simp del: deallocuvm_from.simps)
qed

theorem deallocuvm_releases_witness:
  "\<exists>s'. deallocuvm 0x80400000 0x80700000 0x1000 0 (-1) parent1 = Inr (0, s') \<and>
    released 0x80400000 0x80700000 (vpn (PGROUNDUP 0)) 1 [0x80500000, 0x80501000] parent1 s'"
proof (rule deallocuvm_releases [OF parent1_free])
  have pa: "PTE_ADDR (leaf parent1 0x80700000 x) = 0x00702000" if "vpn x < 1" for x
    using parent1_leaf [OF that] by (simp add: PTE_ADDR_def)
  have v: "vpn (PGROUNDUP 0) = 0" by (simp add: PGROUNDUP_def vpn_def)
  have "shared parent1 0x00702000" by (simp add: shared_def parent1_def)
  then have "priv_frames parent1 0x80700000 0 1 = []" using pa [of 0] by (simp add: vpn_def)
  then show "owns_frames 0x80400000 0x80700000 (vpn (PGROUNDUP 0)) 1 [0x80500000, 0x80501000] parent1"
    using pa parent1_leaf by (simp add: owns_frames_def v present_def PTE_P_def)
  show "pt_ok 0x80400000 parent1 [0x80500000, 0x80501000] 0x80700000"
    by (auto simp: pt_ok_def parent1_tables parent1_pte page_ok_def PGSIZE_def v2p_def KERNBASE_def
        PHYSTOP_def present_def split: if_splits)
qed simp_all

end
