(* ===== verification/Shm.thy ===== *)
theory Shm
  imports ProcTable Fork_vm
begin

text \<open>
  Shared-memory regions (\<^verbatim>\<open>shm.h\<close>): a table of named regions, each one page with a count of its
  users, and in every process the names, addresses and frames of the regions it has. \<open>i\<close> is the index
  of the current process, whose fields the code reads through \<^verbatim>\<open>proc\<close>; an index result of -1 is
  \<open>None\<close>. The \<^verbatim>\<open>cprintf\<close> traces are left out.
\<close>

section \<open>Looking up names\<close>

definition name_is :: "u8 list \<Rightarrow> cstr \<Rightarrow> bool" where
  "name_is nm str \<longleftrightarrow> strncmp ((!) nm) str 16 = 0"

definition shm_init :: "'z vmem_scheme \<Rightarrow> 'z vmem_scheme" where
  "shm_init s = s\<lparr>used := 0,
     shm_arr := map (\<lambda>e. e\<lparr>name_length := 0, shm_nm := safestrcpy (shm_nm e) (lit ''DNE'') 16,
       numAccess := 0, shmPhys := 0\<rparr>) (shm_arr s)\<rparr>"

definition shm_find :: "cstr \<Rightarrow> 'z vmem_scheme \<Rightarrow> nat option" where
  "shm_find str s = scan (\<lambda>e. name_is (shm_nm e) str) (shm_arr s)"

definition shm_findFree :: "'z vmem_scheme \<Rightarrow> nat option" where
  "shm_findFree s = scan (\<lambda>e. name_is (shm_nm e) (lit ''DNE'')) (shm_arr s)"

definition procSHM_nameFind :: "nat \<Rightarrow> cstr \<Rightarrow> 'z kern_scheme \<Rightarrow> nat option" where
  "procSHM_nameFind i str s = scan (\<lambda>nm. name_is nm str) (shm_name (ptable s ! i))"

definition procSHM_findFree :: "nat \<Rightarrow> 'z kern_scheme \<Rightarrow> nat option" where
  "procSHM_findFree i s = scan (\<lambda>nm. name_is nm (lit ''DNE'')) (shm_name (ptable s ! i))"

section \<open>Mapping and unmapping a region\<close>

text \<open>Clearing the process's record of a region.\<close>

definition forget_region :: "nat \<Rightarrow> nat \<Rightarrow> 'z kern_scheme \<Rightarrow> 'z kern_scheme" where
  "forget_region i ref s = upd_proc i (\<lambda>p. p\<lparr>shm_vir := (shm_vir p)[ref := 0], shm_phys := (shm_phys p)[ref := 0],
     shm_name := (shm_name p)[ref := safestrcpy (shm_name p ! ref) (lit ''DNE'') 16]\<rparr>) s"

text \<open>
  The loop of \<^verbatim>\<open>deallocshm\<close> that moves the pages after the region down by one. When there is no
  page table for \<open>a\<close>, the code goes on to read through the null pointer.
\<close>

primrec remap_from :: "nat \<Rightarrow> u32 \<Rightarrow> u32 \<Rightarrow> u32 \<Rightarrow> 'z kmem_scheme \<Rightarrow> 'z kmem_scheme outcome" where
  "remap_from 0 dir a psz s = (if a < psz then Inl Spin else Inr s)"
| "remap_from (Suc n) dir a psz s =
     (if a < psz then
        case fst (walkpgdir dir a False s) of
          None \<Rightarrow> Inl NullDeref
        | Some pte \<Rightarrow>
            run (mappages dir (a - 4096) 4096 (PTE_ADDR (get_pte pte s)) (PTE_W OR PTE_U) s)
              (\<lambda>(_, s). remap_from n dir (a + 4096) psz s)
      else Inr s)"

text \<open>
  \<^verbatim>\<open>deallocshm\<close>. In the branch that would free the region's frame, the condition reads \<^verbatim>\<open>*pte\<close> while
  \<^verbatim>\<open>pte\<close> is still null.
\<close>

definition deallocshm :: "nat \<Rightarrow> u32 \<Rightarrow> u32 \<Rightarrow> u32 \<Rightarrow> nat \<Rightarrow> u32 \<Rightarrow> 'z kern_scheme \<Rightarrow> (u32 \<times> 'z kern_scheme) outcome" where
  "deallocshm i dir oldsz newsz ref shmMap s =
     (let p = ptable s ! i; shrink = upd_proc i (\<lambda>p. p\<lparr>sz := sz p - 4096\<rparr>)
      in if newsz \<ge> oldsz then Inr (oldsz, s)
         else case fst (walkpgdir dir (shm_vir p ! ref) False s) of
           None \<Rightarrow> Inr (-1, s)
         | Some SHMpte \<Rightarrow>
             if shmMap = 0 then
               if shm_vir p ! ref = sz p - 4096
               then Inr (newsz, shrink (forget_region i ref (set_pte SHMpte 0 s)))
               else run (remap_from (Suc (unat (sz p) div 4096)) dir (shm_vir p ! ref + 4096) (sz p) (set_pte SHMpte 0 s))
                      (\<lambda>s. Inr (newsz, forget_region i ref (shrink s)))
             else Inl NullDeref)"

text \<open>
  The loop of \<^verbatim>\<open>allocshm\<close>: the address after it and the variable \<^verbatim>\<open>mem\<close>, or \<open>None\<close> where it returns 0.
\<close>

primrec allocshm_from :: "nat \<Rightarrow> nat \<Rightarrow> u32 \<Rightarrow> u32 \<Rightarrow> u32 \<Rightarrow> u32 \<Rightarrow> u32 \<Rightarrow> u32 \<Rightarrow> 'z kern_scheme \<Rightarrow>
    ((u32 \<times> u32) option \<times> 'z kern_scheme) outcome" where
  "allocshm_from 0 i dir a oldsz newsz shmMap mem s = (if a < newsz then Inl Spin else Inr (Some (a, mem), s))"
| "allocshm_from (Suc n) i dir a oldsz newsz shmMap mem s =
     (if a < newsz then
        if shmMap = 0 then
          let (mem, s) = kalloc s
          in if mem = 0 then run (deallocshm i dir newsz oldsz 0 0 s) (\<lambda>(_, s). Inr (None, s))
             else run (mappages dir a 4096 (v2p mem) (PTE_W OR PTE_U) (zero_page mem s))
                    (\<lambda>(_, s). allocshm_from n i dir (a + 4096) oldsz newsz shmMap mem s)
        else run (mappages dir a 4096 shmMap (PTE_W OR PTE_U) s)
               (\<lambda>(_, s). allocshm_from n i dir (a + 4096) oldsz newsz shmMap mem s)
      else Inr (Some (a, mem), s))"

text \<open>
  \<^verbatim>\<open>allocshm\<close>. The local \<^verbatim>\<open>mem\<close> is uninitialised; \<open>mem0\<close> is the value it happens to have, which the
  code stores when it maps an existing region.
\<close>

definition allocshm :: "u32 \<Rightarrow> nat \<Rightarrow> u32 \<Rightarrow> u32 \<Rightarrow> u32 \<Rightarrow> nat \<Rightarrow> u32 \<Rightarrow> 'z kern_scheme \<Rightarrow> (u32 \<times> 'z kern_scheme) outcome" where
  "allocshm mem0 i dir oldsz newsz ref shmMap s =
     (if newsz \<ge> KERNBASE then Inr (0, s)
      else if newsz < oldsz then Inr (oldsz, s)
      else run (allocshm_from (Suc (unat newsz div 4096)) i dir (PGROUNDUP oldsz) oldsz newsz shmMap mem0 s) (\<lambda>(r, s).
        case r of
          None \<Rightarrow> Inr (0, s)
        | Some (a, mem) \<Rightarrow>
            Inr (newsz, upd_proc i (\<lambda>p. p\<lparr>shm_vir := (shm_vir p)[ref := a - (newsz - oldsz)],
              shm_phys := (shm_phys p)[ref := v2p mem]\<rparr>) s)))"

definition shm_alloc :: "u32 \<Rightarrow> nat \<Rightarrow> int \<Rightarrow> nat \<Rightarrow> u32 \<Rightarrow> 'z kern_scheme \<Rightarrow> (int \<times> 'z kern_scheme) outcome" where
  "shm_alloc mem0 i n ref shmMap s =
     (let p = ptable s ! i;
          finish = (\<lambda>z s. run (switchuvm (kstack (ptable s ! i)) (pgdir (ptable s ! i)) (upd_proc i (\<lambda>p. p\<lparr>sz := z\<rparr>) s))
                     (\<lambda>s. Inr (0, s)))
      in if n > 0 then
           run (allocshm mem0 i (pgdir p) (sz p) (sz p + word_of_int n) ref shmMap s)
             (\<lambda>(z, s). if z = 0 then Inr (-1, s) else finish z s)
         else if n < 0 then
           run (deallocshm i (pgdir p) (sz p) (sz p + word_of_int n) ref shmMap s)
             (\<lambda>(z, s). if z = -1 then Inr (-1, s) else finish z s)
         else finish (sz p) s)"

text \<open>\<^verbatim>\<open>shm_assign\<close>: the address at which a directory maps a frame, -1 if it does not.\<close>

primrec shm_assign_from :: "nat \<Rightarrow> u32 \<Rightarrow> u32 \<Rightarrow> u32 \<Rightarrow> u32 \<Rightarrow> 'z kmem_scheme \<Rightarrow> u32 outcome" where
  "shm_assign_from 0 dir a psz physLoc s = (if a < psz then Inl Spin else Inr (-1))"
| "shm_assign_from (Suc n) dir a psz physLoc s =
     (if a < psz then
        case fst (walkpgdir dir a False s) of
          None \<Rightarrow> Inl NullDeref
        | Some pte \<Rightarrow> if PTE_ADDR (get_pte pte s) = physLoc then Inr a
            else shm_assign_from n dir (a + 4096) psz physLoc s
      else Inr (-1))"

definition shm_assign :: "u32 \<Rightarrow> u32 \<Rightarrow> u32 \<Rightarrow> 'z kmem_scheme \<Rightarrow> u32 outcome" where
  "shm_assign dir psz physLoc s = shm_assign_from (Suc (unat psz div 4096)) dir 0 psz physLoc s"

section \<open>The system calls\<close>

definition shm_get :: "u32 \<Rightarrow> nat \<Rightarrow> cstr \<Rightarrow> int \<Rightarrow> 'z kern_scheme \<Rightarrow> (u32 \<times> 'z kern_scheme) outcome" where
  "shm_get mem0 i str len s =
     (case procSHM_nameFind i str s of
        Some procFound \<Rightarrow> Inr (shm_vir (ptable s ! i) ! procFound, s)
      | None \<Rightarrow>
        (case procSHM_findFree i s of
           None \<Rightarrow> Inr (0, s)
         | Some procfirstFree \<Rightarrow>
           (case shm_find str s of
              None \<Rightarrow>
                if used s < int SHM_MAXNUM then
                  run (shm_alloc mem0 i 4096 procfirstFree 0 s) (\<lambda>(check, s).
                    if check = -1 then Inr (0, s)
                    else let s = upd_proc i (\<lambda>p. p\<lparr>shm_name := (shm_name p)[procfirstFree :=
                               safestrcpy (shm_name p ! procfirstFree) str 16]\<rparr>) s
                         in case shm_findFree s of
                              None \<Rightarrow> Inl OutOfBounds
                            | Some firstFree \<Rightarrow>
                                let e = shm_arr s ! firstFree;
                                    e = e\<lparr>name_length := len, shm_nm := strncpy (shm_nm e) str 16,
                                      numAccess := numAccess e + 1,
                                      shmPhys := shm_phys (ptable s ! i) ! procfirstFree\<rparr>
                                in Inr (shm_vir (ptable s ! i) ! procfirstFree,
                                     s\<lparr>shm_arr := (shm_arr s)[firstFree := e], used := used s + 1\<rparr>))
                else Inr (0, s)
            | Some found \<Rightarrow>
                run (shm_alloc mem0 i 4096 procfirstFree (shmPhys (shm_arr s ! found)) s) (\<lambda>(check, s).
                  if check = -1 then Inr (0, s)
                  else let s = upd_proc i (\<lambda>p. p\<lparr>shm_name := (shm_name p)[procfirstFree :=
                             strncpy (shm_name p ! procfirstFree) str 16]\<rparr>) s;
                           e = shm_arr s ! found
                       in Inr (shm_vir (ptable s ! i) ! procfirstFree,
                            s\<lparr>shm_arr := (shm_arr s)[found := e\<lparr>numAccess := numAccess e + 1\<rparr>]\<rparr>)))))"

definition shm_rem :: "u32 \<Rightarrow> nat \<Rightarrow> cstr \<Rightarrow> 'z kern_scheme \<Rightarrow> (int \<times> 'z kern_scheme) outcome" where
  "shm_rem mem0 i str s =
     (case (shm_find str s, procSHM_nameFind i str s) of
        (None, _) \<Rightarrow> Inr (-1, s)
      | (Some found, None) \<Rightarrow> Inr (-1, s)
      | (Some found, Some procFound) \<Rightarrow>
          if numAccess (shm_arr s ! found) > 1 then
            run (shm_alloc mem0 i (-4096) procFound 0 s) (\<lambda>(check, s).
              if check = -1 then Inr (-1, s)
              else let e = shm_arr s ! found
                   in Inr (1, s\<lparr>shm_arr := (shm_arr s)[found := e\<lparr>numAccess := numAccess e - 1\<rparr>]\<rparr>))
          else
            run (shm_alloc mem0 i (-4096) procFound (shmPhys (shm_arr s ! found)) s) (\<lambda>(check, s).
              if check = -1 then Inr (0, s)
              else let e = shm_arr s ! found;
                       e = e\<lparr>name_length := 0, shm_nm := safestrcpy (shm_nm e) (lit ''DNE'') 16,
                         numAccess := 0, shmPhys := 0\<rparr>
                   in Inr (1, s\<lparr>shm_arr := (shm_arr s)[found := e], used := used s - 1\<rparr>)))"

text \<open>\<^verbatim>\<open>shmExitClean\<close>, which nothing calls: it removes the first region used by this process alone.\<close>

primrec shmExitClean_from :: "nat list \<Rightarrow> u32 \<Rightarrow> nat \<Rightarrow> 'z kern_scheme \<Rightarrow> (int \<times> 'z kern_scheme) outcome" where
  "shmExitClean_from [] mem0 i s = Inr (-1, s)"
| "shmExitClean_from (k # ks) mem0 i s =
     (let nm = shm_name (ptable s ! i) ! k
      in if name_is nm (lit ''DNE'') then shmExitClean_from ks mem0 i s
         else case shm_find ((!) nm) s of
           None \<Rightarrow> shmExitClean_from ks mem0 i s
         | Some found \<Rightarrow>
             if numAccess (shm_arr s ! found) = 1 then
               run (shm_alloc mem0 i (-4096) k (shmPhys (shm_arr s ! found)) s) (\<lambda>(check, s).
                 Inr (if check = -1 then -1 else 0, s))
             else shmExitClean_from ks mem0 i s)"

definition shmExitClean :: "u32 \<Rightarrow> nat \<Rightarrow> 'z kern_scheme \<Rightarrow> (int \<times> 'z kern_scheme) outcome" where
  "shmExitClean mem0 i s = shmExitClean_from [0..<SHM_MAXNUM] mem0 i s"

end
