(* ===== verification/ShmProps.thy ===== *)
theory ShmProps
  imports Shm
begin

text \<open>
  Properties of the shared-memory calls: a region that \<^verbatim>\<open>shm_get\<close> creates is a zeroed frame
  recorded under its name, every later \<^verbatim>\<open>shm_get\<close> of the name by another process maps that same
  frame, and what \<^verbatim>\<open>shm_rem\<close> does when it is the last user or the region is not the last page.
\<close>

section \<open>What only depends on memory\<close>

lemma mem_cong:
  assumes "pages s' = pages s" "freelist s' = freelist s"
  shows "free_pages kend s' ps = free_pages kend s ps" "leaf s' = leaf s" "tables s' = tables s"
    "pt_ok kend s' ps d = pt_ok kend s ps d"
proof -
  have g: "get_pte x s' = get_pte x s" for x by (simp add: get_pte_def assms)
  then have t: "tab s' = tab s" by (simp add: tab_def fun_eq_iff)
  show ts: "tables s' = tables s" by (simp add: tables_def g t fun_eq_iff)
  show "leaf s' = leaf s" by (simp add: leaf_def g t fun_eq_iff)
  show "free_pages kend s' ps = free_pages kend s ps" by (simp add: free_pages_def assms)
  show "pt_ok kend s' ps d = pt_ok kend s ps d" by (simp add: pt_ok_def g t ts)
qed

lemma upd_proc_mem: "pages (upd_proc i f s) = pages s" "freelist (upd_proc i f s) = freelist s"
    "shm_arr (upd_proc i f s) = shm_arr s" "used (upd_proc i f s) = used s"
    "ptable (upd_proc i f s) = (ptable s)[i := f (ptable s ! i)]"
  by (simp_all add: upd_proc_def)

lemmas upd_proc_simps [simp] = upd_proc_mem mem_cong [OF upd_proc_mem(1,2)]

text \<open>The page operations leave everything but memory alone.\<close>

lemma kern_kalloc: "kalloc s = (p, s') \<Longrightarrow> ptable s' = ptable s \<and> shm_arr s' = shm_arr s \<and> used s' = used s"
  by (cases "freelist s = 0") (auto simp: kalloc_def Let_def)

lemma kern_put_page [simp]: "ptable (put_page p pg s) = ptable s" "used (put_page p pg s) = used s"
  by (simp_all add: put_page_def)

lemma kern_set_pte [simp]: "ptable (set_pte p w s) = ptable s" "used (set_pte p w s) = used s"
  by (simp_all add: set_pte_def)

lemma kern_zero_page [simp]: "ptable (zero_page p s) = ptable s" "used (zero_page p s) = used s"
  by (simp_all add: zero_page_def)

lemma kern_walkpgdir: "walkpgdir d va alloc s = (r, s') \<Longrightarrow> ptable s' = ptable s \<and> used s' = used s"
proof -
  assume w: "walkpgdir d va alloc s = (r, s')"
  obtain k s1 where k: "kalloc s = (k, s1)" by fastforce
  show ?thesis
    using w kern_kalloc [OF k] by (auto simp: walkpgdir_def Let_def k split: if_splits)
qed

lemma kern_mappages_from:
  "mappages_from n d a la pa perm s = Inr (r, s') \<Longrightarrow> ptable s' = ptable s \<and> shm_arr s' = shm_arr s \<and> used s' = used s"
proof (induction n arbitrary: a pa s)
  case (Suc n)
  obtain pte s1 where w: "walkpgdir d a True s = (pte, s1)" by fastforce
  show ?case
    using Suc.prems Suc.IH kern_walkpgdir [OF w] shm_arr_walkpgdir [OF w]
    by (auto simp: w Let_def split: option.splits if_splits)
qed simp

lemma kern_mappages:
  "mappages d va n pa perm s = Inr (r, s') \<Longrightarrow> ptable s' = ptable s \<and> shm_arr s' = shm_arr s \<and> used s' = used s"
  unfolding mappages_def Let_def by (rule kern_mappages_from)

section \<open>Growing by one page\<close>

lemma one_page:
  assumes "unat oldsz + 4096 < 2 ^ 31"
  shows "PGROUNDUP oldsz < oldsz + 4096" "\<not> PGROUNDUP oldsz + 4096 < oldsz + 4096"
    "PGROUNDUP oldsz + 4096 - (oldsz + 4096 - oldsz) = PGROUNDUP oldsz" "\<not> KERNBASE \<le> oldsz + 4096"
    "\<not> oldsz + 4096 < oldsz" "aligned (PGROUNDUP oldsz)" "oldsz + 4096 \<noteq> 0"
    "\<exists>m. Suc (unat (oldsz + 4096) div 4096) = Suc (Suc m)"
proof -
  have a: "unat (PGROUNDUP oldsz) = (unat oldsz + 4095) div 4096 * 4096"
    using assms by (intro unat_PGROUNDUP) simp
  have o: "unat (oldsz + 4096) = unat oldsz + 4096" using assms by (simp add: unat_word_ariths)
  have a4: "unat (PGROUNDUP oldsz + 4096) = unat (PGROUNDUP oldsz) + 4096"
  proof -
    have "(unat oldsz + 4095) div 4096 * 4096 \<le> unat oldsz + 4095" by simp
    then show ?thesis using assms a by (simp add: unat_word_ariths)
  qed
  have d: "(unat oldsz + 4095) div 4096 * 4096 < unat oldsz + 4096" "unat oldsz \<le> (unat oldsz + 4095) div 4096 * 4096"
    by simp_all
  show "PGROUNDUP oldsz < oldsz + 4096" "\<not> PGROUNDUP oldsz + 4096 < oldsz + 4096"
    using a o a4 d by (simp_all add: word_less_nat_alt)
  show "PGROUNDUP oldsz + 4096 - (oldsz + 4096 - oldsz) = PGROUNDUP oldsz" by simp
  show "\<not> KERNBASE \<le> oldsz + 4096" "\<not> oldsz + 4096 < oldsz"
    using o assms by (simp_all add: word_le_nat_alt word_less_nat_alt KERNBASE_def)
  show "aligned (PGROUNDUP oldsz)" using a by (simp add: aligned_def)
  show "oldsz + 4096 \<noteq> 0" using o by (metis add_is_0 unat_0 zero_neq_numeral)
  show "\<exists>m. Suc (unat (oldsz + 4096) div 4096) = Suc (Suc m)" using o by (simp add: div_add_self2)
qed

lemma allocshm_new:
  assumes free: "free_pages kend s ps" and ok: "pt_ok kend s ps d" and len: "2 \<le> length ps"
    and z: "unat oldsz + 4096 < 2 ^ 31" and absent: "\<not> present (leaf s d (PGROUNDUP oldsz))"
  shows "\<exists>fr s1 qs. allocshm mem0 i d oldsz (oldsz + 4096) ref 0 s =
      Inr (oldsz + 4096, upd_proc i (\<lambda>p. p\<lparr>shm_vir := (shm_vir p)[ref := PGROUNDUP oldsz],
        shm_phys := (shm_phys p)[ref := v2p fr]\<rparr>) s1) \<and>
    page_added kend d (vpn (PGROUNDUP oldsz)) (PTE_W OR PTE_U) fr (\<lambda>k. if k < 4096 then 0 else pages s fr k) ps s s1 qs \<and>
    ptable s1 = ptable s \<and> shm_arr s1 = shm_arr s \<and> used s1 = used s"
proof -
  note o = one_page [OF z]
  obtain mem s0 where k: "kalloc s = (mem, s0)" "pages s0 = pages s" "mem \<noteq> 0"
    and map: "\<And>pg perm. \<exists>s2 qs. mappages d (PGROUNDUP oldsz) 4096 (v2p mem) perm (put_page mem pg s0) = Inr (0, s2) \<and>
      page_added kend d (vpn (PGROUNDUP oldsz)) perm mem pg ps s s2 qs"
    by (rule alloc_map_page [OF free ok len o(6) absent]) blast
  have z: "zero_page mem s0 = put_page mem (\<lambda>k. if k < 4096 then 0 else pages s mem k) s0"
    by (simp add: zero_page_def memset_eq PGSIZE_def k(2) cong: if_cong)
  from map obtain s1 qs where
    m: "mappages d (PGROUNDUP oldsz) 4096 (v2p mem) (PTE_W OR PTE_U) (zero_page mem s0) = Inr (0, s1)"
    and add: "page_added kend d (vpn (PGROUNDUP oldsz)) (PTE_W OR PTE_U) mem
      (\<lambda>k. if k < 4096 then 0 else pages s mem k) ps s s1 qs"
    unfolding z by blast
  have "ptable s1 = ptable s \<and> shm_arr s1 = shm_arr s \<and> used s1 = used s"
    using kern_mappages [OF m] kern_kalloc [OF k(1)] by simp
  moreover obtain n where n: "Suc (unat (oldsz + 4096) div 4096) = Suc (Suc n)" using o(8) by blast
  have "allocshm_from (Suc (Suc n)) i d (PGROUNDUP oldsz) oldsz (oldsz + 4096) 0 mem0 s =
      Inr (Some (PGROUNDUP oldsz + 4096, mem), s1)"
    using o(1,2) k m by simp
  then have "allocshm mem0 i d oldsz (oldsz + 4096) ref 0 s =
      Inr (oldsz + 4096, upd_proc i (\<lambda>p. p\<lparr>shm_vir := (shm_vir p)[ref := PGROUNDUP oldsz],
        shm_phys := (shm_phys p)[ref := v2p mem]\<rparr>) s1)"
    unfolding allocshm_def n using o(3-5) by simp
  ultimately show ?thesis using add by blast
qed


lemma allocshm_existing:
  assumes free: "free_pages kend s ps" and ok: "pt_ok kend s ps d" and len: "ps \<noteq> []"
    and z: "unat oldsz + 4096 < 2 ^ 31" and absent: "\<not> present (leaf s d (PGROUNDUP oldsz))" and pa: "pa \<noteq> 0"
  shows "\<exists>s1 qs. allocshm mem0 i d oldsz (oldsz + 4096) ref pa s =
      Inr (oldsz + 4096, upd_proc i (\<lambda>p. p\<lparr>shm_vir := (shm_vir p)[ref := PGROUNDUP oldsz],
        shm_phys := (shm_phys p)[ref := v2p mem0]\<rparr>) s1) \<and>
    free_pages kend s1 qs \<and> pt_ok kend s1 qs d \<and> set qs \<subseteq> set ps \<and>
    (\<forall>x. leaf s1 d x = (if vpn x = vpn (PGROUNDUP oldsz) then pa OR (PTE_W OR PTE_U) OR PTE_P else leaf s d x)) \<and>
    (\<forall>q. q \<notin> set ps \<longrightarrow> q \<noteq> d \<longrightarrow> q \<notin> tables s d \<longrightarrow> pages s1 q = pages s q) \<and>
    ptable s1 = ptable s \<and> shm_arr s1 = shm_arr s \<and> used s1 = used s"
proof -
  note o = one_page [OF z]
  obtain n where n: "Suc (unat (oldsz + 4096) div 4096) = Suc (Suc n)" using o(8) by blast
  show ?thesis
  proof (rule map_one [OF free ok absent, where pa = pa and perm = "PTE_W OR PTE_U"])
    assume "ps = []"
    with len show ?thesis by simp
  next
    fix s1 qs
    assume s1: "free_pages kend s1 qs" "pt_ok kend s1 qs d" "set qs \<subseteq> set ps"
      and m: "\<And>n la. mappages_from (Suc n) d (PGROUNDUP oldsz) la pa (PTE_W OR PTE_U) s =
        (if PGROUNDUP oldsz = la then Inr (0, s1)
         else mappages_from n d (PGROUNDUP oldsz + 4096) la (pa + 4096) (PTE_W OR PTE_U) s1)"
      and l: "\<And>x. leaf s1 d x = (if vpn x = vpn (PGROUNDUP oldsz) then pa OR (PTE_W OR PTE_U) OR PTE_P else leaf s d x)"
      and pg: "\<And>q. q \<notin> set ps \<Longrightarrow> q \<noteq> d \<Longrightarrow> q \<notin> tables s d \<Longrightarrow> pages s1 q = pages s q"
    have mp: "mappages d (PGROUNDUP oldsz) 4096 pa (PTE_W OR PTE_U) s = Inr (0, s1)"
      using m [of 0 "PGROUNDUP oldsz"] by (simp add: mappages_page [OF o(6)] del: mappages_from.simps)
    have "allocshm_from (Suc (Suc n)) i d (PGROUNDUP oldsz) oldsz (oldsz + 4096) pa mem0 s =
        Inr (Some (PGROUNDUP oldsz + 4096, mem0), s1)"
      using o(1,2) mp pa by simp
    then have "allocshm mem0 i d oldsz (oldsz + 4096) ref pa s =
        Inr (oldsz + 4096, upd_proc i (\<lambda>p. p\<lparr>shm_vir := (shm_vir p)[ref := PGROUNDUP oldsz],
          shm_phys := (shm_phys p)[ref := v2p mem0]\<rparr>) s1)"
      unfolding allocshm_def n using o(3-5) by simp
    with s1 l pg kern_mappages [OF mp] show ?thesis by blast
  qed
qed

text \<open>\<^verbatim>\<open>shm_alloc\<close> by one page, given what \<^verbatim>\<open>allocshm\<close> does.\<close>

lemma shm_alloc_grow:
  assumes a: "allocshm mem0 i (pgdir (ptable s ! i)) (sz (ptable s ! i)) (sz (ptable s ! i) + 4096) ref pa s =
      Inr (sz (ptable s ! i) + 4096, upd_proc i f s1)"
    and s1: "ptable s1 = ptable s" "shm_arr s1 = shm_arr s" "used s1 = used s"
    and i: "i < length (ptable s)" "pgdir (f (ptable s ! i)) = pgdir (ptable s ! i)" "pgdir (ptable s ! i) \<noteq> 0"
      "unat (sz (ptable s ! i)) + 4096 < 2 ^ 31"
  obtains s2 where "shm_alloc mem0 i 4096 ref pa s = Inr (0, s2)" "pages s2 = pages s1" "freelist s2 = freelist s1"
    "shm_arr s2 = shm_arr s" "used s2 = used s"
    "ptable s2 = (ptable s)[i := (f (ptable s ! i))\<lparr>sz := sz (ptable s ! i) + 4096\<rparr>]"
proof -
  let ?z = "sz (ptable s ! i) + 4096"
  let ?s2 = "(upd_proc i (\<lambda>p. p\<lparr>sz := ?z\<rparr>) (upd_proc i f s1))
    \<lparr>esp0 := kstack (f (ptable s ! i)) + 4096, cr3 := v2p (pgdir (ptable s ! i))\<rparr>"
  have "?z \<noteq> 0" by (rule one_page(7) [OF i(4)])
  then have "shm_alloc mem0 i 4096 ref pa s = Inr (0, ?s2)"
    using a s1 i by (simp add: shm_alloc_def Let_def switchuvm_def)
  then show thesis by (rule that) (use s1 i(1) in simp_all)
qed


section \<open>Names\<close>

lemma name_is_iff: "name_is nm str \<longleftrightarrow> str_upto 16 ((!) nm) = str_upto 16 str"
  by (simp add: name_is_def strncmp_zero_iff)

lemma name_is_strncpy: "length nm = 16 \<Longrightarrow> name_is (strncpy nm str 16) str"
  by (simp add: name_is_iff str_upto_strncpy)

text \<open>A table in which one entry is renamed to a name it did not hold: the search finds that entry.\<close>

lemma scan_update_new:
  assumes "scan P xs = None" "k < length xs" "P e"
  shows "scan P (xs[k := e]) = Some k"
proof -
  have "\<forall>j < k. \<not> P (xs[k := e] ! j)" using assms by (simp add: scan_None_iff)
  with assms(2,3) show ?thesis by (simp add: scan_Some_iff)
qed

section \<open>Creating and joining a region\<close>

text \<open>The shared-memory fields of a process and of the table have their declared sizes.\<close>

definition shm_sized :: "nat \<Rightarrow> 'z kern_scheme \<Rightarrow> bool" where
  "shm_sized i s \<longleftrightarrow> i < length (ptable s) \<and>
     length (shm_name (ptable s ! i)) = SHM_MAXNUM \<and> length (shm_vir (ptable s ! i)) = SHM_MAXNUM \<and>
     length (shm_phys (ptable s ! i)) = SHM_MAXNUM \<and> (\<forall>nm \<in> set (shm_name (ptable s ! i)). length nm = 16) \<and>
     (\<forall>e \<in> set (shm_arr s). length (shm_nm e) = 16)"

text \<open>Process \<open>i\<close> can grow by a page: its directory is well formed and the next page is not mapped.\<close>

definition can_grow :: "u32 \<Rightarrow> u32 list \<Rightarrow> nat \<Rightarrow> 'z kern_scheme \<Rightarrow> bool" where
  "can_grow kend ps i s \<longleftrightarrow>
     free_pages kend s ps \<and> pt_ok kend s ps (pgdir (ptable s ! i)) \<and> pgdir (ptable s ! i) \<noteq> 0 \<and> 2 \<le> length ps \<and>
     unat (sz (ptable s ! i)) + 4096 < 2 ^ 31 \<and>
     \<not> present (leaf s (pgdir (ptable s ! i)) (PGROUNDUP (sz (ptable s ! i))))"

text \<open>C28. Creating a region: \<^verbatim>\<open>shm_get\<close> of a name nobody uses returns the first page-aligned
  address at the end of the process, which is then mapped writable for the user to a zeroed frame taken
  from the free list; the frame is recorded under the name with one more user, so
  that \<^verbatim>\<open>shm_find\<close> of the name finds it, and the process has grown by a page.\<close>

theorem shm_get_creates:
  assumes sized: "shm_sized i s" and grow: "can_grow kend ps i s"
    and pf: "procSHM_nameFind i str s = None" "procSHM_findFree i s = Some f"
    and nf: "shm_find str s = None" "shm_findFree s = Some k" and u: "used s < int SHM_MAXNUM"
  defines "p \<equiv> ptable s ! i" and "va \<equiv> PGROUNDUP (sz (ptable s ! i))"
  shows "\<exists>s' fr. shm_get mem0 i str len s = Inr (va, s') \<and> fr \<in> set ps \<and>
    leaf s' (pgdir p) va = v2p fr OR (PTE_W OR PTE_U) OR PTE_P \<and> (\<forall>j < 4096. pages s' fr j = 0) \<and>
    shm_find str s' = Some k \<and> shmPhys (shm_arr s' ! k) = v2p fr \<and>
    numAccess (shm_arr s' ! k) = numAccess (shm_arr s ! k) + 1 \<and> used s' = used s + 1 \<and>
    sz (ptable s' ! i) = sz p + 4096 \<and> shm_vir (ptable s' ! i) ! f = va \<and> shm_phys (ptable s' ! i) ! f = v2p fr"
proof -
  have i: "i < length (ptable s)" "length (shm_name p) = SHM_MAXNUM" "length (shm_vir p) = SHM_MAXNUM"
    "length (shm_phys p) = SHM_MAXNUM" "\<forall>e \<in> set (shm_arr s). length (shm_nm e) = 16"
    using sized by (simp_all add: shm_sized_def p_def)
  have f: "f < SHM_MAXNUM" using scan_SomeD(1) [OF pf(2) [unfolded procSHM_findFree_def]] i(2) by (simp add: p_def)
  have k: "k < length (shm_arr s)" using scan_SomeD(1) [OF nf(2) [unfolded shm_findFree_def]] .
  have g: "free_pages kend s ps" "pt_ok kend s ps (pgdir p)" "2 \<le> length ps" "unat (sz p) + 4096 < 2 ^ 31"
    "\<not> present (leaf s (pgdir p) va)" "pgdir p \<noteq> 0"
    using grow by (simp_all add: can_grow_def p_def va_def)
  from allocshm_new [OF g(1-4), of mem0 i f] g(5) obtain fr s1 qs where
    a: "allocshm mem0 i (pgdir p) (sz p) (sz p + 4096) f 0 s = Inr (sz p + 4096,
      upd_proc i (\<lambda>p. p\<lparr>shm_vir := (shm_vir p)[f := va], shm_phys := (shm_phys p)[f := v2p fr]\<rparr>) s1)"
    and add: "page_added kend (pgdir p) (vpn va) (PTE_W OR PTE_U) fr (\<lambda>k. if k < 4096 then 0 else pages s fr k) ps s s1 qs"
    and s1: "ptable s1 = ptable s" "shm_arr s1 = shm_arr s" "used s1 = used s"
    unfolding p_def va_def by blast
  obtain s2 where al: "shm_alloc mem0 i 4096 f 0 s = Inr (0, s2)" and s2: "pages s2 = pages s1"
    "freelist s2 = freelist s1" "shm_arr s2 = shm_arr s" "used s2 = used s"
    "ptable s2 = (ptable s)[i := p\<lparr>shm_vir := (shm_vir p)[f := va], shm_phys := (shm_phys p)[f := v2p fr], sz := sz p + 4096\<rparr>]"
    by (rule shm_alloc_grow [OF a [unfolded p_def] s1 i(1)]) (use g in \<open>simp_all add: p_def\<close>)
  define e where "e = (shm_arr s ! k)\<lparr>name_length := len, shm_nm := strncpy (shm_nm (shm_arr s ! k)) str 16,
    numAccess := numAccess (shm_arr s ! k) + 1, shmPhys := v2p fr\<rparr>"
  define s3 where "s3 = upd_proc i (\<lambda>p. p\<lparr>shm_name := (shm_name p)[f := safestrcpy (shm_name p ! f) str 16]\<rparr>) s2"
  define s4 where "s4 = s3\<lparr>shm_arr := (shm_arr s)[k := e], used := used s + 1\<rparr>"
  have s3: "shm_arr s3 = shm_arr s" "used s3 = used s" "pages s3 = pages s1" "freelist s3 = freelist s1"
    "shm_vir (ptable s3 ! i) ! f = va" "shm_phys (ptable s3 ! i) ! f = v2p fr" "sz (ptable s3 ! i) = sz p + 4096"
    using i f by (simp_all add: s3_def s2)
  have ff: "shm_findFree s3 = Some k" using nf(2) by (simp add: shm_findFree_def s3)
  have get: "shm_get mem0 i str len s = Inr (va, s4)"
    unfolding shm_get_def pf nf(1) option.case al run_Inr split
    using u ff by (simp add: s3_def [symmetric] s3 s4_def e_def Let_def)
  have "name_is (shm_nm e) str" using i(5) k by (simp add: e_def name_is_strncpy)
  then have find: "shm_find str s4 = Some k"
    using nf(1) k by (simp add: shm_find_def s4_def scan_update_new)
  have mem: "pages s4 = pages s1" "freelist s4 = freelist s1" by (simp_all add: s4_def s3)
  have "leaf s4 (pgdir p) va = v2p fr OR (PTE_W OR PTE_U) OR PTE_P" "\<forall>j < 4096. pages s4 fr j = 0" "fr \<in> set ps"
    using add by (simp_all add: page_added_def mem_cong [OF mem] mem)
  with get find k s3 show ?thesis
    by (intro exI [of _ s4] exI [of _ fr]) (simp add: s4_def e_def)
qed


text \<open>A machine with one process of one page, no regions and two free pages.\<close>

definition DNE :: "u8 list" where
  "DNE = map (lit ''DNE'') [0..<16]"

definition shm_empty :: shm where
  "shm_empty = \<lparr>name_length = 0, shm_nm = DNE, numAccess = 0, shmPhys = 0\<rparr>"

definition proc1 :: proc where
  "proc1 = \<lparr>sz = 0x1000, pgdir = 0x80600000, kstack = 0x80602000, state = RUNNING, pid = 1, parent = None,
     tf = \<lparr>tf_eax = 0, tf_trapno = 0, tf_err = 0, tf_eip = 0, tf_cs = 0, tf_ds = 0, tf_es = 0, tf_ss = 0,
       tf_eflags = 0, tf_esp = 0\<rparr>,
     pcontext = In_sched, chan = None, killed = False, ofile = replicate NOFILE None, cwd = None,
     pname = replicate 16 0, shm_name = replicate SHM_MAXNUM DNE, shm_vir = replicate SHM_MAXNUM 0,
     shm_phys = replicate SHM_MAXNUM 0, mxproc = replicate MUX_MAXNUM (-1)\<rparr>"

definition world1 :: kern where
  "world1 = kmem.extend (kmem.truncate vmem2) \<lparr>shm_arr = replicate SHM_MAXNUM shm_empty, used = 0, kpgdir = 0, cr3 = 0, esp0 = 0,
     ptable = [proc1], highpid = 0, initproc = None, nextpid = 2, curproc = Some 0\<rparr>"

lemma scan_replicate: "scan P (replicate n x) = (if n > 0 \<and> P x then Some 0 else None)"
  by (cases n) (auto simp: scan_None_iff)

lemma scan_map: "scan P (map f xs) = scan (\<lambda>x. P (f x)) xs"
  by (induction xs) simp_all

lemma world1_mem: "pages world1 = pages vmem2" "freelist world1 = freelist vmem2"
  by (simp_all add: world1_def kmem.defs)

lemma world1_name: "name_is DNE (lit ''DNE'')" "\<not> name_is DNE (lit ''A'')"
  by code_simp+

lemma world1_ready:
  "shm_sized 0 world1" "can_grow 0x80400000 [0x80500000, 0x80501000] 0 world1"
  "procSHM_nameFind 0 (lit ''A'') world1 = None" "procSHM_findFree 0 world1 = Some 0"
  "shm_find (lit ''A'') world1 = None" "shm_findFree world1 = Some 0" "used world1 < int SHM_MAXNUM"
proof -
  have "pt_ok 0x80400000 vmem2 [0x80500000, 0x80501000] 0x80600000"
    by (auto simp: pt_ok_def tables_def vmem2_pte page_ok_def PGSIZE_def v2p_def KERNBASE_def PHYSTOP_def)
  then show "can_grow 0x80400000 [0x80500000, 0x80501000] 0 world1"
    using vmem2_free vmem2_pte
    by (simp add: can_grow_def mem_cong [OF world1_mem]) (simp add: world1_def kmem.defs proc1_def leaf_def)
  show "shm_sized 0 world1" by (simp add: shm_sized_def world1_def kmem.defs proc1_def shm_empty_def DNE_def)
  show "procSHM_nameFind 0 (lit ''A'') world1 = None" "procSHM_findFree 0 world1 = Some 0"
    "shm_find (lit ''A'') world1 = None" "shm_findFree world1 = Some 0" "used world1 < int SHM_MAXNUM"
    by (simp_all add: procSHM_nameFind_def procSHM_findFree_def shm_find_def shm_findFree_def world1_def kmem.defs
        proc1_def scan_replicate world1_name shm_empty_def SHM_MAXNUM_def)
qed

theorem shm_get_creates_witness:
  "\<exists>s' fr. shm_get 0 0 (lit ''A'') 1 world1 = Inr (PGROUNDUP (sz (ptable world1 ! 0)), s') \<and> fr \<in> set [0x80500000, 0x80501000] \<and>
    leaf s' (pgdir (ptable world1 ! 0)) (PGROUNDUP (sz (ptable world1 ! 0))) = v2p fr OR (PTE_W OR PTE_U) OR PTE_P \<and>
    (\<forall>j < 4096. pages s' fr j = 0) \<and>
    shm_find (lit ''A'') s' = Some 0 \<and> shmPhys (shm_arr s' ! 0) = v2p fr \<and>
    numAccess (shm_arr s' ! 0) = numAccess (shm_arr world1 ! 0) + 1 \<and> used s' = used world1 + 1 \<and>
    sz (ptable s' ! 0) = sz (ptable world1 ! 0) + 4096 \<and>
    shm_vir (ptable s' ! 0) ! 0 = PGROUNDUP (sz (ptable world1 ! 0)) \<and> shm_phys (ptable s' ! 0) ! 0 = v2p fr"
  by (rule shm_get_creates [OF world1_ready])


text \<open>C29. Joining a region: \<^verbatim>\<open>shm_get\<close> of a name in the table, by a process that does not have it yet,
  maps the region's own frame at the end of that process and counts one more user; the frame's
  contents do not change.\<close>

theorem shm_get_joins:
  assumes sized: "shm_sized i s" and grow: "can_grow kend ps i s"
    and pf: "procSHM_nameFind i str s = None" "procSHM_findFree i s = Some f"
    and nf: "shm_find str s = Some k" "shmPhys (shm_arr s ! k) \<noteq> 0"
  defines "p \<equiv> ptable s ! i" and "va \<equiv> PGROUNDUP (sz (ptable s ! i))" and "e \<equiv> shm_arr s ! k"
  shows "\<exists>s'. shm_get mem0 i str len s = Inr (va, s') \<and>
    leaf s' (pgdir p) va = shmPhys e OR (PTE_W OR PTE_U) OR PTE_P \<and>
    (\<forall>q. q \<notin> set ps \<longrightarrow> q \<noteq> pgdir p \<longrightarrow> q \<notin> tables s (pgdir p) \<longrightarrow> pages s' q = pages s q) \<and>
    shm_arr s' = (shm_arr s)[k := e\<lparr>numAccess := numAccess e + 1\<rparr>] \<and>
    sz (ptable s' ! i) = sz p + 4096 \<and> shm_vir (ptable s' ! i) ! f = va \<and> shm_phys (ptable s' ! i) ! f = v2p mem0"
proof -
  have i: "i < length (ptable s)" "length (shm_name p) = SHM_MAXNUM" "length (shm_vir p) = SHM_MAXNUM"
    "length (shm_phys p) = SHM_MAXNUM"
    using sized by (simp_all add: shm_sized_def p_def)
  have f: "f < SHM_MAXNUM" using scan_SomeD(1) [OF pf(2) [unfolded procSHM_findFree_def]] i(2) by (simp add: p_def)
  have g: "free_pages kend s ps" "pt_ok kend s ps (pgdir p)" "ps \<noteq> []" "unat (sz p) + 4096 < 2 ^ 31"
    "\<not> present (leaf s (pgdir p) va)" "pgdir p \<noteq> 0"
    using grow by (auto simp: can_grow_def p_def va_def)
  from allocshm_existing [OF g(1-4) _ nf(2), of mem0 i f] g(5) obtain s1 qs where
    a: "allocshm mem0 i (pgdir p) (sz p) (sz p + 4096) f (shmPhys e) s = Inr (sz p + 4096,
      upd_proc i (\<lambda>p. p\<lparr>shm_vir := (shm_vir p)[f := va], shm_phys := (shm_phys p)[f := v2p mem0]\<rparr>) s1)"
    and l: "\<forall>x. leaf s1 (pgdir p) x = (if vpn x = vpn va then shmPhys e OR (PTE_W OR PTE_U) OR PTE_P else leaf s (pgdir p) x)"
    and pg: "\<forall>q. q \<notin> set ps \<longrightarrow> q \<noteq> pgdir p \<longrightarrow> q \<notin> tables s (pgdir p) \<longrightarrow> pages s1 q = pages s q"
    and s1: "ptable s1 = ptable s" "shm_arr s1 = shm_arr s" "used s1 = used s"
    unfolding p_def va_def e_def by blast
  obtain s2 where al: "shm_alloc mem0 i 4096 f (shmPhys e) s = Inr (0, s2)" and s2: "pages s2 = pages s1"
    "freelist s2 = freelist s1" "shm_arr s2 = shm_arr s" "used s2 = used s"
    "ptable s2 = (ptable s)[i := p\<lparr>shm_vir := (shm_vir p)[f := va], shm_phys := (shm_phys p)[f := v2p mem0], sz := sz p + 4096\<rparr>]"
    by (rule shm_alloc_grow [OF a [unfolded p_def] s1 i(1)]) (use g in \<open>simp_all add: p_def\<close>)
  define s3 where "s3 = upd_proc i (\<lambda>p. p\<lparr>shm_name := (shm_name p)[f := strncpy (shm_name p ! f) str 16]\<rparr>) s2"
  define s4 where "s4 = s3\<lparr>shm_arr := (shm_arr s)[k := e\<lparr>numAccess := numAccess e + 1\<rparr>]\<rparr>"
  have s3: "shm_arr s3 = shm_arr s" "pages s3 = pages s1" "freelist s3 = freelist s1"
    "shm_vir (ptable s3 ! i) ! f = va" "shm_phys (ptable s3 ! i) ! f = v2p mem0" "sz (ptable s3 ! i) = sz p + 4096"
    using i f by (simp_all add: s3_def s2)
  have get: "shm_get mem0 i str len s = Inr (va, s4)"
    unfolding shm_get_def pf nf(1) option.case al [unfolded e_def] run_Inr split
    by (simp add: s3_def [symmetric] s3 s4_def e_def Let_def)
  have mem: "pages s4 = pages s1" "freelist s4 = freelist s1" by (simp_all add: s4_def s3)
  have "leaf s4 (pgdir p) va = shmPhys e OR (PTE_W OR PTE_U) OR PTE_P" using l by (simp add: mem_cong [OF mem])
  with get pg mem s3 show ?thesis by (intro exI [of _ s4]) (simp add: s4_def)
qed

text \<open>The machine above, with a region of another process.\<close>

definition world2 :: kern where
  "world2 = world1\<lparr>shm_arr := (shm_arr world1)[4 := \<lparr>name_length = 1, shm_nm = map (lit ''A'') [0..<16],
     numAccess = 1, shmPhys = 0x00700000\<rparr>]\<rparr>"

lemma world2_simps: "ptable world2 = ptable world1" "pages world2 = pages world1" "freelist world2 = freelist world1"
  by (simp_all add: world2_def)

lemma world2_ready:
  "shm_sized 0 world2" "can_grow 0x80400000 [0x80500000, 0x80501000] 0 world2"
  "procSHM_nameFind 0 (lit ''A'') world2 = None" "procSHM_findFree 0 world2 = Some 0"
  "shm_find (lit ''A'') world2 = Some 4" "shmPhys (shm_arr world2 ! 4) \<noteq> 0"
proof -
  show "shm_sized 0 world2"
    using world1_ready(1) by (auto simp: shm_sized_def world2_simps) (auto simp: world2_def dest!: set_update_subset_insert [THEN subsetD])
  show "can_grow 0x80400000 [0x80500000, 0x80501000] 0 world2"
    using world1_ready(2) by (simp add: can_grow_def world2_simps mem_cong [OF world2_simps(2,3)])
  show "procSHM_nameFind 0 (lit ''A'') world2 = None" "procSHM_findFree 0 world2 = Some 0"
    using world1_ready(3,4) by (simp_all add: procSHM_nameFind_def procSHM_findFree_def world2_simps)
  have len: "length (shm_arr world1) = 32" by (simp add: world1_def kmem.defs SHM_MAXNUM_def)
  have "name_is (map (lit ''A'') [0..<16]) (lit ''A'')" by code_simp
  then show "shm_find (lit ''A'') world2 = Some 4"
    using world1_ready(5) len by (simp add: shm_find_def world2_def scan_update_new)
  show "shmPhys (shm_arr world2 ! 4) \<noteq> 0" using len by (simp add: world2_def)
qed

theorem shm_get_joins_witness:
  "\<exists>s'. shm_get 0x123 0 (lit ''A'') 1 world2 = Inr (PGROUNDUP (sz (ptable world2 ! 0)), s') \<and>
    leaf s' (pgdir (ptable world2 ! 0)) (PGROUNDUP (sz (ptable world2 ! 0))) =
      shmPhys (shm_arr world2 ! 4) OR (PTE_W OR PTE_U) OR PTE_P \<and>
    (\<forall>q. q \<notin> set [0x80500000, 0x80501000] \<longrightarrow> q \<noteq> pgdir (ptable world2 ! 0) \<longrightarrow>
      q \<notin> tables world2 (pgdir (ptable world2 ! 0)) \<longrightarrow> pages s' q = pages world2 q) \<and>
    shm_arr s' = (shm_arr world2)[4 := (shm_arr world2 ! 4)\<lparr>numAccess := numAccess (shm_arr world2 ! 4) + 1\<rparr>] \<and>
    sz (ptable s' ! 0) = sz (ptable world2 ! 0) + 4096 \<and>
    shm_vir (ptable s' ! 0) ! 0 = PGROUNDUP (sz (ptable world2 ! 0)) \<and> shm_phys (ptable s' ! 0) ! 0 = v2p 0x123"
  by (rule shm_get_joins [OF world2_ready])

section \<open>Removing a region\<close>



text \<open>A process of two pages whose second page is the region above.\<close>

definition world3 :: kern where
  "world3 = world2\<lparr>pages := pages parent1, ptable := [proc1\<lparr>sz := 0x2000, pgdir := 0x80700000,
     shm_name := (shm_name proc1)[0 := map (lit ''A'') [0..<16]], shm_vir := (shm_vir proc1)[0 := 0x1000]\<rparr>]\<rparr>"


lemma mappages_remap:
  assumes "aligned a" "present (leaf s d a)"
  shows "mappages d a 4096 pa perm s = Inl (Panic ''remap'')"
proof -
  have "present (get_pte (d, PDX a) s)" "present (get_pte (tab s d (PDX a), PTX a) s)"
    using assms(2) by (auto simp: leaf_def split: if_splits)
  then show ?thesis by (simp add: mappages_page [OF assms(1)] walk_present)
qed

text \<open>C31. Leaving a region that others still use, when it is not the last page of the process and
  two or more mapped pages follow it, panics: the second page to be moved down finds the entry it
  should take still present.\<close>

theorem shm_rem_middle_panics:
  assumes "shm_find str s = Some k" "procSHM_nameFind i str s = Some f" "1 < numAccess (shm_arr s ! k)"
    and "free_pages kend s ps" "pt_ok kend s ps (pgdir (ptable s ! i))"
    and "va = shm_vir (ptable s ! i) ! f" "aligned va" "unat va + 8192 < unat (sz (ptable s ! i))"
    and "present (get_pte (pgdir (ptable s ! i), PDX va) s)"
    and "present (leaf s (pgdir (ptable s ! i)) (va + 4096))" "present (leaf s (pgdir (ptable s ! i)) (va + 8192))"
  shows "shm_rem mem0 i str s = Inl (Panic ''remap'')"
proof -
  let ?p = "ptable s ! i"
  let ?d = "pgdir ?p" and ?z = "sz ?p"
  have lt32: "unat ?z < 2 ^ 32" by (rule unat_u32_less)
  have u: "unat (va + 4096) = unat va + 4096" "unat (va + 8192) = unat va + 8192"
    using assms(8) lt32 by (simp_all add: unat_word_ariths)
  have v: "vpn (va + 4096) \<noteq> vpn va" "vpn (va + 8192) \<noteq> vpn va" "vpn (va + 4096) \<noteq> vpn (va + 8192)"
    using u by (simp_all add: vpn_def)
  have lt: "va + 4096 < ?z" "va + 8192 < ?z" using u assms(8) by (simp_all add: word_less_nat_alt)
  have al: "aligned (va + 4096)" using assms(7) u by (simp add: aligned_def)
  define s1 where "s1 = set_pte (tab s ?d (PDX va), PTX va) 0 s"
  note sl = set_leaf [OF assms(4,5,9), where w = 0, folded s1_def]
  have g: "get_pte (?d, j) s1 = get_pte (?d, j) s" for j
    using pt_ok_tab(3) [OF assms(5) PDX_less assms(9)] by (auto simp: s1_def get_pte_set_pte)
  have pde: "present (get_pte (?d, PDX va) s1)" using assms(9) by (simp add: g)
  obtain q1 where q1: "fst (walkpgdir ?d (va + 4096) False s1) = Some q1"
    using walk_present_leaf [of s1 ?d "va + 4096"] assms(10) v by (auto simp: sl(4))
  define w where "w = PTE_ADDR (get_pte q1 s1) OR (PTE_W OR PTE_U) OR PTE_P"
  define s2 where "s2 = set_pte (tab s1 ?d (PDX va), PTX va) w s1"
  note sl2 = set_leaf [OF sl(1,2) pde, where w = w, folded s2_def]
  have m1: "mappages ?d va 4096 (PTE_ADDR (get_pte q1 s1)) (PTE_W OR PTE_U) s1 = Inr (0, s2)"
  proof -
    have "get_pte (tab s1 ?d (PDX va), PTX va) s1 = 0" using sl(4) [of va] pde by (simp add: leaf_def)
    then show ?thesis
      by (simp add: mappages_page [OF assms(7)] walk_present [OF pde] s2_def w_def)
  qed
  have pr: "present (leaf s2 ?d (va + 4096))" "present (leaf s2 ?d (va + 8192))"
    using assms(10,11) v by (simp_all add: sl2(4) sl(4))
  obtain q2 where q2: "fst (walkpgdir ?d (va + 8192) False s2) = Some q2"
    using walk_present_leaf [OF pr(2)] by blast
  have m2: "mappages ?d (va + 4096) 4096 pa (PTE_W OR PTE_U) s2 = Inl (Panic ''remap'')" for pa
    by (rule mappages_remap [OF al pr(1)])
  have "unat ?z div 4096 \<ge> 2" using assms(8) by simp
  then obtain n where n: "Suc (unat ?z div 4096) = Suc (Suc n)" by (cases "unat ?z div 4096") auto
  have "remap_from (Suc (Suc n)) ?d (va + 4096) ?z s1 = Inl (Panic ''remap'')"
    using lt q1 q2 m1 m2 by (simp add: add.assoc add.commute [of 4096 va])
  then have r: "remap_from (Suc (unat ?z div 4096)) ?d (va + 4096) ?z s1 = Inl (Panic ''remap'')" by (simp only: n)
  have less: "\<not> ?z \<le> ?z - 4096" and ne: "va \<noteq> ?z - 4096"
  proof -
    have "unat (?z - 4096) = unat ?z - 4096" using assms(8) by (simp add: unat_sub word_le_nat_alt)
    then show "\<not> ?z \<le> ?z - 4096" "va \<noteq> ?z - 4096" using assms(8) by (auto simp: word_le_nat_alt)
  qed
  have "deallocshm i ?d ?z (?z - 4096) f 0 s = Inl (Panic ''remap'')"
    using less ne r by (simp add: deallocshm_def Let_def assms(6) [symmetric] walk_present [OF assms(9)] s1_def [symmetric] del: remap_from.simps)
  then have "shm_alloc mem0 i (-4096) f 0 s = Inl (Panic ''remap'')"
    by (simp add: shm_alloc_def Let_def)
  with assms(1-3) show ?thesis by (simp add: shm_rem_def)
qed


text \<open>A process of four pages whose second page is a region with two users.\<close>

definition table4 :: page where
  "table4 = pg_set_word (pg_set_word (pg_set_word (\<lambda>_. 0) 1 0x00703007) 2 0x00704007) 3 0x00705007"

definition world4 :: kern where
  "world4 = world3\<lparr>pages := (pages parent1)(0x80701000 := table4), ptable := [(ptable world3 ! 0)\<lparr>sz := 0x4000\<rparr>],
     shm_arr := (shm_arr world3)[4 := (shm_arr world3 ! 4)\<lparr>numAccess := 2\<rparr>]\<rparr>"

lemma world4_pte:
  "get_pte (0x80700000, j) world4 = (if j = 0 then 0x00701007 else 0)"
  "get_pte (0x80701000, 2) world4 = 0x00704007" "get_pte (0x80701000, 3) world4 = 0x00705007"
  by (simp_all add: world4_def get_pte_def table4_def parent1_def vmem2_def pg_word_zero_fun)

lemma world4_leaf:
  "leaf world4 0x80700000 0x2000 = 0x00704007" "leaf world4 0x80700000 0x3000 = 0x00705007"
  by (simp_all add: leaf_def tab_def world4_pte PDX_eq PTX_eq present_def PTE_P_def PTE_ADDR_def p2v_def KERNBASE_def)

lemma world4_proc: "ptable world4 ! 0 = proc1\<lparr>sz := 0x4000, pgdir := 0x80700000,
     shm_name := (shm_name proc1)[0 := map (lit ''A'') [0..<16]], shm_vir := (shm_vir proc1)[0 := 0x1000]\<rparr>"
  by (simp add: world4_def world3_def proc1_def)

theorem shm_rem_middle_panics_witness: "shm_rem 0 0 (lit ''A'') world4 = Inl (Panic ''remap'')"
proof (rule shm_rem_middle_panics)
  have len: "length (shm_arr world1) = 32" by (simp add: world1_def kmem.defs SHM_MAXNUM_def)
  have nm: "map shm_nm (shm_arr world4) = map shm_nm (shm_arr world2)"
    using len by (simp add: world4_def world3_def world2_def map_update)
  have "shm_find str s = scan (\<lambda>nm. name_is nm str) (map shm_nm (shm_arr s))" for str and s :: kern
    by (simp add: shm_find_def scan_map)
  then show "shm_find (lit ''A'') world4 = Some 4" using world2_ready(5) by (simp only: nm)
  have "name_is (map (lit ''A'') [0..<16]) (lit ''A'')" by code_simp
  then show "procSHM_nameFind 0 (lit ''A'') world4 = Some 0"
    by (simp add: procSHM_nameFind_def world4_proc proc1_def SHM_MAXNUM_def numeral_eq_Suc)
  show "1 < numAccess (shm_arr world4 ! 4)" using len by (simp add: world4_def world3_def world2_def)
  show "free_pages 0x80400000 world4 [0x80500000, 0x80501000]"
  proof -
    have "free_pages 0x80400000 world4 [0x80500000, 0x80501000] = free_pages 0x80400000 parent1 [0x80500000, 0x80501000]"
      by (simp add: free_pages_def world4_def world3_def world2_def world1_mem parent1_def)
    then show ?thesis using parent1_free by simp
  qed
  show "pt_ok 0x80400000 world4 [0x80500000, 0x80501000] (pgdir (ptable world4 ! 0))"
  proof -
    have "tables world4 0x80700000 = {0x80701000}"
      by (auto simp: tables_def world4_pte tab_def present_def PTE_P_def PTE_ADDR_def p2v_def KERNBASE_def
          intro!: exI [of _ 0])
    then show ?thesis
      by (auto simp: pt_ok_def world4_proc world4_pte page_ok_def PGSIZE_def v2p_def KERNBASE_def PHYSTOP_def
          present_def split: if_splits)
  qed
  show "(0x1000 :: u32) = shm_vir (ptable world4 ! 0) ! 0" by (simp add: world4_proc proc1_def SHM_MAXNUM_def)
  show "present (get_pte (pgdir (ptable world4 ! 0), PDX 0x1000) world4)"
    by (simp add: world4_proc world4_pte PDX_eq present_def PTE_P_def)
qed (simp_all add: world4_proc proc1_def world4_leaf present_def PTE_P_def aligned_def)

end
