(* ===== verification/Scheduler.thy ===== *)
theory Scheduler
  imports ProcTable
begin

text \<open>
  Properties of the process table and the scheduler: the invariant of every reachable state of the
  table, what \<^verbatim>\<open>wakeup\<close> and \<^verbatim>\<open>kill\<close> do, the precedence of the high-priority process and bounded
  waiting for the others.
\<close>

section \<open>The remaining moves keep the invariant\<close>

lemma table_ok_kill: "table_ok s \<Longrightarrow> kill n s = (r, s') \<Longrightarrow> table_ok s'"
proof (cases "scan (\<lambda>p. pid p = n) (ptable s)")
  case (Some i)
  let ?f = "\<lambda>p. p\<lparr>killed := True, state := (if state p = SLEEPING then RUNNABLE else state p)\<rparr>"
  assume ok: "table_ok s" and "kill n s = (r, s')"
  with Some have s': "s' = upd_proc i ?f s" by (simp add: kill_def)
  have i: "i < length (ptable s)" using scan_SomeD(1) [OF Some] .
  have "proc_ok (nextpid s) (curproc s) i (?f (ptable s ! i))"
    using table_okD [OF ok i] unfolding proc_ok_def by (cases "state (ptable s ! i)") auto
  then show "table_ok s'"
    by (rule table_ok_upd_same_pid [OF ok i, where f = ?f])
      (use ok in \<open>simp_all add: s' upd_proc_def table_ok_def split: if_splits\<close>)
qed (simp add: kill_def)

lemma table_ok_sleep_return: "table_ok s \<Longrightarrow> sleep_return s = Inr s' \<Longrightarrow> table_ok s'"
proof -
  assume ok: "table_ok s" and r: "sleep_return s = Inr s'"
  obtain i where c: "curproc s = Some i" using r by (cases "curproc s") (auto simp: sleep_return_def with_proc_def)
  have s': "s' = upd_proc i (\<lambda>p. p\<lparr>chan := None\<rparr>) s" using r c by (simp add: sleep_return_def with_proc_def)
  have i: "i < length (ptable s)" using ok c by (simp add: table_ok_def)
  have p: "proc_ok (nextpid s) (curproc s) i (ptable s ! i)" by (rule table_okD [OF ok i])
  then have "proc_ok (nextpid s) (curproc s) i ((\<lambda>p. p\<lparr>chan := None\<rparr>) (ptable s ! i))"
    using c by (simp add: proc_ok_def)
  then show "table_ok s'"
    by (rule table_ok_upd_same_pid [OF ok i]) (use i c in \<open>simp_all add: s' upd_proc_def\<close>)
qed

lemma table_ok_embryo:
  assumes ok: "table_ok s" and i: "i < length (ptable s)" "state (ptable s ! i) = EMBRYO"
    and f: "pid (f (ptable s ! i)) = pid (ptable s ! i)" "state (f (ptable s ! i)) \<in> {EMBRYO, RUNNABLE}"
      "state (f (ptable s ! i)) = RUNNABLE \<Longrightarrow> pgdir (f (ptable s ! i)) \<noteq> 0"
  shows "table_ok (upd_proc i f s)"
proof -
  have "proc_ok (nextpid s) (curproc s) i (ptable s ! i)" by (rule table_okD [OF ok i(1)])
  then have "proc_ok (nextpid s) (curproc s) i (f (ptable s ! i))"
    using i(2) f unfolding proc_ok_def by auto
  then show ?thesis
    by (rule table_ok_upd_same_pid [OF ok i(1)])
      (use ok i f in \<open>simp_all add: upd_proc_def table_ok_def\<close>)
qed

lemma table_ok_reap:
  assumes ok: "table_ok s" and i: "i < length (ptable s)" "state (ptable s ! i) = ZOMBIE"
  shows "table_ok (upd_proc i clear_proc s)"
proof -
  have "proc_ok (nextpid s) (curproc s) i (ptable s ! i)" by (rule table_okD [OF ok i(1)])
  then have "proc_ok (nextpid s) (curproc s) i (clear_proc (ptable s ! i))"
    using i(2) by (simp add: proc_ok_def clear_proc_def)
  then show ?thesis
    by (rule table_ok_upd_same_pid [OF ok i(1)])
      (use ok in \<open>simp_all add: upd_proc_def table_ok_def clear_proc_def\<close>)
qed

text \<open>\<^verbatim>\<open>allocproc\<close>: the slot becomes an embryo with a fresh pid, or is unused again.\<close>

lemma kalloc_table:
  "kalloc s = (k, s') \<Longrightarrow> ptable s' = ptable s \<and> nextpid s' = nextpid s \<and> curproc s' = curproc s \<and>
     highpid s' = highpid s \<and> initproc s' = initproc s"
  by (cases "freelist s = 0") (auto simp: kalloc_def Let_def)

definition new_proc :: "int \<Rightarrow> u32 \<Rightarrow> proc \<Rightarrow> proc" where
  "new_proc n k p =
     (let p = p\<lparr>state := EMBRYO, pid := n, mxproc := replicate MUX_MAXNUM (-1), kstack := k\<rparr>
      in if k = 0 then p\<lparr>state := UNUSED\<rparr> else p\<lparr>pcontext := Forkret\<rparr>)"

lemma allocproc_cases:
  obtains (full) "\<forall>p \<in> set (ptable s). state p \<noteq> UNUSED" "allocproc s = (None, s)"
  | (slot) i k where "k = freelist s" "i < length (ptable s)" "state (ptable s ! i) = UNUSED" "\<forall>j < i. state (ptable s ! j) \<noteq> UNUSED"
      "fst (allocproc s) = (if k = 0 then None else Some i)"
      "ptable (snd (allocproc s)) = (ptable s)[i := new_proc (nextpid s) k (ptable s ! i)]"
      "nextpid (snd (allocproc s)) = nextpid s + 1" "curproc (snd (allocproc s)) = curproc s"
proof (cases "scan (\<lambda>p. state p = UNUSED) (ptable s)")
  case None
  then show thesis using full None [unfolded scan_None_iff] by (simp add: allocproc_def)
next
  case (Some i)
  have i: "i < length (ptable s)" "state (ptable s ! i) = UNUSED" "\<forall>j < i. state (ptable s ! j) \<noteq> UNUSED"
    using Some by (simp_all add: scan_Some_iff)
  define s1 where "s1 = (upd_proc i (\<lambda>p. p\<lparr>state := EMBRYO, pid := nextpid s, mxproc := replicate MUX_MAXNUM (-1)\<rparr>) s)
    \<lparr>nextpid := nextpid s + 1\<rparr>"
  obtain k s2 where k: "kalloc s1 = (k, s2)" by fastforce
  note s2 = kalloc_table [OF k]
  have nx: "nextpid (upd_proc i f s) = nextpid s" for f by (simp add: upd_proc_def)
  have a: "allocproc s = (let s = upd_proc i (\<lambda>p. p\<lparr>kstack := k\<rparr>) s2
     in if k = 0 then (None, upd_proc i (\<lambda>p. p\<lparr>state := UNUSED\<rparr>) s)
        else (Some i, upd_proc i (\<lambda>p. p\<lparr>pcontext := Forkret\<rparr>) s))"
    unfolding allocproc_def Some option.case Let_def nx s1_def [symmetric] k split ..
  have s1: "ptable s1 = (ptable s)[i := (ptable s ! i)\<lparr>state := EMBRYO, pid := nextpid s, mxproc := replicate MUX_MAXNUM (-1)\<rparr>]"
    "nextpid s1 = nextpid s + 1" "curproc s1 = curproc s"
    by (simp_all add: s1_def upd_proc_def)
  have "k = freelist s" using k by (auto simp: kalloc_def Let_def s1_def upd_proc_def split: if_splits)
  then show thesis
    by (rule slot [OF _ i]) (use i s1 s2 in \<open>simp_all add: a upd_proc_def Let_def new_proc_def\<close>)
qed

lemma table_ok_allocproc: "table_ok s \<Longrightarrow> table_ok (snd (allocproc s))"
proof -
  assume ok: "table_ok s"
  show "table_ok (snd (allocproc s))"
  proof (rule allocproc_cases [of s])
    assume "allocproc s = (None, s)"
    with ok show ?thesis by simp
  next
    fix i k
    let ?f = "new_proc (nextpid s) k"
    assume i: "i < length (ptable s)" "state (ptable s ! i) = UNUSED"
      and s': "ptable (snd (allocproc s)) = (ptable s)[i := ?f (ptable s ! i)]"
        "nextpid (snd (allocproc s)) = nextpid s + 1" "curproc (snd (allocproc s)) = curproc s"
    have old: "proc_ok (nextpid s) (curproc s) j (ptable s ! j)" if "j < length (ptable s)" for j
      using ok that by (rule table_okD)
    have "0 < nextpid s" using ok by (simp add: table_ok_def)
    then have "proc_ok (nextpid s + 1) (curproc s) i (?f (ptable s ! i))"
      using old [OF i(1)] i(2) by (simp add: proc_ok_def new_proc_def Let_def)
    then show ?thesis
    proof (rule table_ok_upd [OF ok i(1)])
      fix j assume j: "j < length (ptable s)" "j \<noteq> i"
      show "proc_ok (nextpid s + 1) (curproc s) j (ptable s ! j)"
        using old [OF j(1)] unfolding proc_ok_def by auto
      show "state (ptable s ! j) \<noteq> UNUSED \<Longrightarrow> pid (?f (ptable s ! i)) \<noteq> pid (ptable s ! j)"
        using old [OF j(1)] by (simp add: proc_ok_def new_proc_def Let_def)
    qed (use ok s' in \<open>simp_all add: table_ok_def\<close>)
  qed
qed


section \<open>The table invariant\<close>

lemma kstep_table_ok: "kstep x y \<Longrightarrow> table_ok (snd x) \<Longrightarrow> table_ok (snd y)"
proof (induction rule: kstep.induct)
  case (Sched s pc r pc' s')
  then show ?case using table_ok_scheduler [of s pc] by force
next
  case (Alloc s r s' pc)
  then show ?case using table_ok_allocproc [of s] by simp
next
  case (Image i s d pc)
  then show ?case by (simp add: table_ok_embryo)
next
  case (Runnable i s pc)
  then show ?case by (simp add: make_runnable_def table_ok_embryo)
next
  case (High s r s' pc)
  then show ?case by (cases "curproc s") (auto simp: setHighPrio_def with_proc_def table_ok_def)
qed (auto simp: wakeup_def intro: table_ok_yield table_ok_sleep table_ok_sleep_return table_ok_wakeup1
  table_ok_kill table_ok_exit_tail table_ok_reap)

definition booted :: "'z kern_scheme \<Rightarrow> bool" where
  "booted s \<longleftrightarrow> (\<forall>p \<in> set (ptable s). state p = UNUSED) \<and> nextpid s = 1 \<and> curproc s = None"

lemma booted_table_ok: "booted s \<Longrightarrow> table_ok s"
  by (simp add: booted_def table_ok_def proc_ok_def)


definition proc0 :: proc where
  "proc0 = \<lparr>sz = 0, pgdir = 0, kstack = 0, state = UNUSED, pid = 0, parent = None,
     tf = \<lparr>tf_eax = 0, tf_trapno = 0, tf_err = 0, tf_eip = 0, tf_cs = 0, tf_ds = 0, tf_es = 0, tf_ss = 0,
       tf_eflags = 0, tf_esp = 0\<rparr>,
     pcontext = Forkret, chan = None, killed = False, ofile = replicate NOFILE None, cwd = None,
     pname = replicate 16 0, shm_name = replicate SHM_MAXNUM (replicate 16 0), shm_vir = replicate SHM_MAXNUM 0,
     shm_phys = replicate SHM_MAXNUM 0, mxproc = replicate MUX_MAXNUM 0\<rparr>"

definition boot :: kern where
  "boot = kmem.extend kmem1 \<lparr>shm_arr = [], used = 0, kpgdir = 0, cr3 = 0, esp0 = 0,
     ptable = replicate NPROC proc0, highpid = 0, initproc = None, nextpid = 1, curproc = None\<rparr>"

lemma booted_boot: "booted boot"
  by (simp add: booted_def boot_def kmem.defs proc0_def)



section \<open>Whom the scheduler runs\<close>

text \<open>
  The processes dispatched by successive visits to the scheduler, which finds the table in the states
  \<open>ss\<close>; between two visits the dispatched process and interrupts may change anything.
\<close>

primrec dispatches :: "sched_pc \<Rightarrow> 'z kern_scheme list \<Rightarrow> nat option list" where
  "dispatches pc [] = []"
| "dispatches pc (s # ss) =
     (case scheduler pc s of Inl _ \<Rightarrow> [] | Inr (r, pc', _) \<Rightarrow> r # dispatches pc' ss)"

definition visit_ok :: "'z kern_scheme \<Rightarrow> bool" where
  "visit_ok s \<longleftrightarrow> curproc s = None \<and> table_ok s"

lemma scheduler_high:
  assumes "visit_ok s" "pick_high s = Some h"
  shows "\<exists>s'. scheduler Top s = Inr (Some h, Top, s')"
  using assms table_ok_dispatch [of s h] pick_high_SomeD [OF assms(2)]
  by (auto simp: visit_ok_def scheduler_def)

lemma scheduler_scan:
  assumes s: "visit_ok s" and k: "pc = Scan k \<or> pc = Top \<and> pick_high s = None \<and> k = 0"
    and i: "k \<le> i" "i < length (ptable s)" "state (ptable s ! i) = RUNNABLE"
  shows "\<exists>j s'. scheduler pc s = Inr (Some j, Scan (Suc j), s') \<and> k \<le> j \<and> j \<le> i"
proof -
  obtain j where j: "pick_scan k s = Some j" using pick_scan_None [of k s i] i by (cases "pick_scan k s") auto
  note d = pick_scan_SomeD [OF j]
  have "j \<le> i" using d(4) [of i] i by (meson not_le)
  moreover have "scheduler pc s = run (dispatch j s) (\<lambda>s. Inr (Some j, Scan (Suc j), s))"
    using k j by (auto simp: scheduler_def)
  ultimately show ?thesis
    using table_ok_dispatch [of s j] s d by (auto simp: visit_ok_def)
qed

text \<open>A scan that started at or before a runnable process reaches it.\<close>

lemma scan_reaches:
  assumes "\<forall>s \<in> set ss. visit_ok s \<and> i < length (ptable s) \<and> state (ptable s ! i) = RUNNABLE"
    and "k \<le> i" "i - k < length ss"
  shows "Some i \<in> set (dispatches (Scan k) ss)"
  using assms
proof (induction ss arbitrary: k)
  case (Cons s ss)
  obtain j s' where j: "scheduler (Scan k) s = Inr (Some j, Scan (Suc j), s')" "k \<le> j" "j \<le> i"
    using scheduler_scan [of s "Scan k" k i] Cons.prems by auto
  show ?case
  proof (cases "j = i")
    case True
    then show ?thesis using j(1) by simp
  next
    case False
    then have "Some i \<in> set (dispatches (Scan (Suc j)) ss)"
      using Cons.prems j by (intro Cons.IH) auto
    then show ?thesis using j(1) by simp
  qed
qed simp

lemma scheduler_next:
  assumes "visit_ok s" "pc = Top \<longrightarrow> pick_high s = None" "length (ptable s) = n"
  shows "\<exists>r pc' s'. scheduler pc s = Inr (r, pc', s') \<and>
    (pc' = Top \<or> (\<exists>j k. pc' = Scan (Suc j) \<and> pc = Scan k \<and> k \<le> j \<and> j < n) \<or> pc = Top)"
proof -
  let ?k = "case pc of Top \<Rightarrow> 0 | Scan k \<Rightarrow> k"
  have e: "scheduler pc s = (case pick_scan ?k s of
      Some i \<Rightarrow> run (dispatch i s) (\<lambda>s. Inr (Some i, Scan (Suc i), s)) | None \<Rightarrow> Inr (None, Top, s))"
    using assms(2) by (auto simp: scheduler_def split: sched_pc.split option.split)
  show ?thesis
  proof (cases "pick_scan ?k s")
    case None
    then show ?thesis by (simp add: e)
  next
    case (Some i)
    note d = pick_scan_SomeD [OF Some]
    obtain s' where "dispatch i s = Inr s'"
      using table_ok_dispatch [of s i] assms(1) d by (auto simp: visit_ok_def)
    then have "scheduler pc s = Inr (Some i, Scan (Suc i), s')" using Some by (simp add: e)
    then show ?thesis using d assms(3) by (cases pc) auto
  qed
qed


lemma top_reaches:
  assumes "\<forall>s \<in> set ss. visit_ok s \<and> i < length (ptable s) \<and> state (ptable s ! i) = RUNNABLE \<and> pick_high s = None"
    and "i < length ss"
  shows "Some i \<in> set (dispatches Top ss)"
proof (cases ss)
  case (Cons s ss')
  obtain j s' where j: "scheduler Top s = Inr (Some j, Scan (Suc j), s')" "j \<le> i"
    using scheduler_scan [of s Top 0 i] assms Cons by auto
  show ?thesis
  proof (cases "j = i")
    case False
    then have "Some i \<in> set (dispatches (Scan (Suc j)) ss')"
      using assms j Cons by (intro scan_reaches) auto
    then show ?thesis using Cons j(1) by simp
  qed (use Cons j(1) in simp)
qed (use assms in simp)

lemma late_scan_reaches:
  assumes "\<forall>s \<in> set ss. visit_ok s \<and> length (ptable s) = n \<and> state (ptable s ! i) = RUNNABLE \<and> pick_high s = None"
    and "i < n" "i < k" "(n - k) + i + 2 \<le> length ss"
  shows "Some i \<in> set (dispatches (Scan k) ss)"
  using assms
proof (induction ss arbitrary: k)
  case (Cons s ss)
  obtain r pc' s' where r: "scheduler (Scan k) s = Inr (r, pc', s')"
    and pc': "pc' = Top \<or> (\<exists>j. pc' = Scan (Suc j) \<and> k \<le> j \<and> j < n)"
    using scheduler_next [of s "Scan k" n] Cons.prems(1) by auto
  have "Some i \<in> set (dispatches pc' ss)"
    using pc'
  proof
    assume "pc' = Top"
    then show ?thesis using Cons.prems by (auto intro!: top_reaches)
  next
    assume "\<exists>j. pc' = Scan (Suc j) \<and> k \<le> j \<and> j < n"
    then obtain j where j: "pc' = Scan (Suc j)" "k \<le> j" "j < n" by blast
    have "n - Suc j + i + 2 \<le> length ss" using Cons.prems(4) j by simp
    then show ?thesis unfolding j(1) using Cons.prems(1-3) j(2) by (intro Cons.IH) auto
  qed
  then show ?case using r by simp
qed simp

text \<open>C8. Bounded waiting: while no high-priority process is runnable, a process that stays
  runnable is dispatched within \<^verbatim>\<open>NPROC + 1\<close> visits to the scheduler, wherever its scan of the table
  was and whatever the other processes do.\<close>

theorem scheduler_bounded_waiting:
  assumes "\<forall>s \<in> set ss. curproc s = None \<and> table_ok s \<and> length (ptable s) = NPROC \<and>
      state (ptable s ! i) = RUNNABLE \<and> pick_high s = None"
    and "i < NPROC" "NPROC + 1 \<le> length ss"
  shows "Some i \<in> set (dispatches pc ss)"
proof (cases pc)
  case Top
  then show ?thesis using assms by (auto simp: visit_ok_def intro!: top_reaches)
next
  case (Scan k)
  show ?thesis
  proof (cases "k \<le> i")
    case True
    then show ?thesis unfolding Scan using assms by (intro scan_reaches) (auto simp: visit_ok_def)
  next
    case False
    then have "(NPROC - k) + i + 2 \<le> length ss" using assms(2,3) by simp
    then show ?thesis unfolding Scan
      using assms False by (intro late_scan_reaches [of _ NPROC]) (auto simp: visit_ok_def)
  qed
qed

text \<open>C26. Precedence: as long as the process that called \<^verbatim>\<open>setHighPrio\<close> is runnable at every visit
  to the top of the scheduler's loop, it alone is dispatched; every other process waits.\<close>

theorem scheduler_high_priority:
  assumes "\<forall>s \<in> set ss. curproc s = None \<and> table_ok s \<and> h < length (ptable s) \<and>
      state (ptable s ! h) = RUNNABLE \<and> highpid s = pid (ptable s ! h) \<and> highpid s \<noteq> 0"
  shows "dispatches Top ss = replicate (length ss) (Some h)"
  using assms
proof (induction ss)
  case (Cons s ss)
  then have s: "visit_ok s" "h < length (ptable s)" "state (ptable s ! h) = RUNNABLE"
    "highpid s = pid (ptable s ! h)" "highpid s \<noteq> 0" by (auto simp: visit_ok_def)
  have "\<exists>i \<le> h. scan (\<lambda>p. state p = RUNNABLE \<and> pid p = highpid s) (ptable s) = Some i"
    using s by (intro scan_ex) simp_all
  then obtain i where i: "pick_high s = Some i" using s(5) by (auto simp: pick_high_def)
  have "i = h"
  proof -
    have "\<forall>i < length (ptable s). \<forall>j < length (ptable s). state (ptable s ! i) \<noteq> UNUSED \<longrightarrow>
        state (ptable s ! j) \<noteq> UNUSED \<longrightarrow> pid (ptable s ! i) = pid (ptable s ! j) \<longrightarrow> i = j"
      using s(1) unfolding visit_ok_def table_ok_def by blast
    with pick_high_SomeD [OF i] s show ?thesis by (metis procstate.distinct(5))
  qed
  moreover have "dispatches Top ss = replicate (length ss) (Some h)" using Cons.prems by (intro Cons.IH) auto
  ultimately show ?case using scheduler_high [OF s(1)] i by auto
qed simp

text \<open>A table with one process, runnable and with high priority in \<open>boot2\<close>.\<close>

definition boot1 :: kern where
  "boot1 = boot\<lparr>ptable := (replicate NPROC proc0)[3 := proc0\<lparr>state := RUNNABLE, pid := 1, pgdir := 0x80600000\<rparr>],
     nextpid := 2\<rparr>"

definition boot2 :: kern where
  "boot2 = boot1\<lparr>highpid := 1\<rparr>"

lemma boot1_simps: "curproc boot1 = None" "length (ptable boot1) = NPROC" "state (ptable boot1 ! 3) = RUNNABLE"
  "pid (ptable boot1 ! 3) = 1" "nextpid boot1 = 2" "highpid boot1 = 0"
  by (simp_all add: boot1_def NPROC_def boot_def kmem.defs)

lemma boot1_ok: "table_ok boot1"
  by (auto simp: table_ok_def boot1_simps proc_ok_def) (auto simp: boot1_def nth_list_update proc0_def NPROC_def split: if_splits)

theorem scheduler_bounded_waiting_witness:
  "Some 3 \<in> set (dispatches (Scan 5) (replicate 65 boot1))"
  by (rule scheduler_bounded_waiting) (use boot1_ok boot1_simps in \<open>simp_all add: NPROC_def pick_high_def\<close>)

theorem scheduler_high_priority_witness:
  "dispatches Top (replicate 7 boot2) = replicate (length (replicate 7 boot2)) (Some 3)"
  by (rule scheduler_high_priority)
    (use boot1_ok boot1_simps in \<open>simp_all add: boot2_def table_ok_def NPROC_def\<close>)

section \<open>Killing\<close>

text \<open>C27. \<^verbatim>\<open>kill\<close> accepts pid 0, which unused slots of the table have: it returns 0 and marks the first
  unused slot, and \<^verbatim>\<open>allocproc\<close>, which does not reset the mark, then hands that slot out as a new
  process that is already killed.\<close>

theorem kill_zero_marks_next_process:
  assumes "table_ok s" "i < length (ptable s)" "state (ptable s ! i) = UNUSED" "pid (ptable s ! i) = 0"
    and "\<forall>j < i. state (ptable s ! j) \<noteq> UNUSED" "freelist s \<noteq> 0"
  shows "fst (kill 0 s) = 0 \<and> fst (allocproc (snd (kill 0 s))) = Some i \<and>
    killed (ptable (snd (allocproc (snd (kill 0 s)))) ! i)"
proof -
  have "pid (ptable s ! j) \<noteq> 0" if "j < i" for j
    using assms(2,5) that table_okD [OF assms(1), of j] by (simp add: proc_ok_def)
  then have sc: "scan (\<lambda>p. pid p = 0) (ptable s) = Some i"
    using assms(2,4) by (simp add: scan_Some_iff)
  define u where "u = snd (kill 0 s)"
  have u: "fst (kill 0 s) = 0" "ptable u = (ptable s)[i := (ptable s ! i)\<lparr>killed := True, state := UNUSED\<rparr>]"
    "freelist u = freelist s"
    using assms(2,3) sc by (simp_all add: u_def kill_def upd_proc_def)
  have t: "state (ptable u ! i) = UNUSED" "killed (ptable u ! i)" "length (ptable u) = length (ptable s)"
    "\<And>j. j \<noteq> i \<Longrightarrow> ptable u ! j = ptable s ! j"
    using assms(2) by (simp_all add: u(2))
  have "fst (allocproc u) = Some i \<and> killed (ptable (snd (allocproc u)) ! i)"
  proof (rule allocproc_cases [of u])
    assume "\<forall>p \<in> set (ptable u). state p \<noteq> UNUSED"
    then have "state (ptable u ! i) \<noteq> UNUSED" using assms(2) t(3) by simp
    with t(1) show ?thesis by simp
  next
    fix j k
    assume j: "k = freelist u" "j < length (ptable u)" "state (ptable u ! j) = UNUSED"
        "\<forall>m < j. state (ptable u ! m) \<noteq> UNUSED"
      and r: "fst (allocproc u) = (if k = 0 then None else Some j)"
        "ptable (snd (allocproc u)) = (ptable u)[j := new_proc (nextpid u) k (ptable u ! j)]"
    have "\<not> j < i" using j(3) assms(5) t(4) [of j] by auto
    moreover have "\<not> i < j" using j(4) t(1) by blast
    ultimately have "j = i" by simp
    with assms(6) j(1) r u(3) t(2,3) assms(2) show ?thesis by (simp add: new_proc_def Let_def)
  qed
  with u(1) show ?thesis by (simp add: u_def)
qed

theorem kill_zero_marks_next_process_witness:
  "fst (kill 0 boot1) = 0 \<and> fst (allocproc (snd (kill 0 boot1))) = Some 0 \<and>
    killed (ptable (snd (allocproc (snd (kill 0 boot1)))) ! 0)"
  by (rule kill_zero_marks_next_process [OF boot1_ok])
    (simp_all add: boot1_simps, simp_all add: boot1_def boot_def kmem.defs kmem1_def kmem0_def proc0_def NPROC_def)

end
