(* ===== verification/Mutex.thy ===== *)
theory Mutex
  imports Scheduler
begin

text \<open>
  Mutexes and condition variables (\<^verbatim>\<open>mutex.h\<close> and the second half of \<^verbatim>\<open>proc.c\<close>). A mutex is known
  system-wide by its index in \<^verbatim>\<open>mxarray\<close> and in a process by a slot of \<^verbatim>\<open>mxproc\<close>, which holds that
  index or -1. Names are user pointers and are compared as such. \<open>i\<close> is the current
  process; a call that blocks is split where the process is scheduled again, its first part returning
  whether it went to sleep.
\<close>

section \<open>State and operations\<close>

record mutex =
  lock :: u32
  mx_id :: int
  mx_name :: u32
  name_len :: int
  num_proc :: u32

record mkern = kern +
  mxarray :: "mutex list"

definition mxarray_init :: "'z mkern_scheme \<Rightarrow> 'z mkern_scheme" where
  "mxarray_init s = s\<lparr>mxarray := map (\<lambda>c. (mxarray s ! c)\<lparr>mx_name := 0, name_len := 0, lock := 0, mx_id := int c, num_proc := 0\<rparr>)
     [0..<MUX_MAXNUM]\<rparr>"

definition upd_mutex :: "nat \<Rightarrow> (mutex \<Rightarrow> mutex) \<Rightarrow> 'z mkern_scheme \<Rightarrow> 'z mkern_scheme" where
  "upd_mutex g f s = s\<lparr>mxarray := (mxarray s)[g := f (mxarray s ! g)]\<rparr>"

text \<open>\<^verbatim>\<open>proc->mxproc[muxid]\<close> for an index the user chose.\<close>

definition mxproc_at :: "nat \<Rightarrow> int \<Rightarrow> 'z kern_scheme \<Rightarrow> int outcome" where
  "mxproc_at i muxid s =
     (if 0 \<le> muxid \<and> muxid < int MUX_MAXNUM then Inr (mxproc (ptable s ! i) ! nat muxid) else Inl OutOfBounds)"

text \<open>
  The common start of the operations: nothing happens for an empty slot or an unnamed mutex.
\<close>

definition with_mutex :: "nat \<Rightarrow> int \<Rightarrow> 'a \<Rightarrow> (nat \<Rightarrow> 'a outcome) \<Rightarrow> 'z mkern_scheme \<Rightarrow> 'a outcome" where
  "with_mutex i muxid skip f s =
     run (mxproc_at i muxid s) (\<lambda>gid.
       if gid < 0 then Inr skip
       else if gid \<ge> int MUX_MAXNUM then Inl OutOfBounds
       else if mx_name (mxarray s ! nat gid) = 0 then Inr skip
       else f (nat gid))"

definition initmutex :: "nat \<Rightarrow> u32 \<Rightarrow> int \<Rightarrow> 'z mkern_scheme \<Rightarrow> int \<times> 'z mkern_scheme" where
  "initmutex i nm len s =
     (case scan (\<lambda>m. mx_name m = 0 \<or> mx_name m = nm) (mxarray s) of
        None \<Rightarrow> (-1, s)
      | Some g \<Rightarrow>
          (case scan (\<lambda>v. v < 0) (mxproc (ptable s ! i)) of
             None \<Rightarrow> (-1, s)
           | Some j \<Rightarrow>
               let m = mxarray s ! g;
                   s = upd_mutex g (\<lambda>m. m\<lparr>num_proc := num_proc m + 1\<rparr>) s;
                   s = (if mx_name m = 0 then upd_mutex g (\<lambda>m. m\<lparr>mx_name := nm, name_len := len, lock := 0\<rparr>) s else s);
                   s = upd_proc i (\<lambda>p. p\<lparr>mxproc := (mxproc p)[j := mx_id m]\<rparr>) s
               in (int j, s)))"

text \<open>\<^verbatim>\<open>mxacquire\<close> up to its call of \<^verbatim>\<open>sleep\<close>, and from there on. It sets the lock at index \<^verbatim>\<open>muxid\<close>.\<close>

definition take_lock :: "int \<Rightarrow> 'z mkern_scheme \<Rightarrow> 'z mkern_scheme" where
  "take_lock muxid s = upd_mutex (nat muxid) (\<lambda>m. m\<lparr>lock := 1\<rparr>) s"

definition mxacquire :: "nat \<Rightarrow> int \<Rightarrow> 'z mkern_scheme \<Rightarrow> (bool \<times> 'z mkern_scheme) outcome" where
  "mxacquire i muxid s = with_mutex i muxid (False, s) (\<lambda>gid.
     if lock (mxarray s ! gid) = 1
     then run (sleep (ChMutexName gid) True s) (\<lambda>s. Inr (True, s))
     else Inr (False, take_lock muxid s)) s"

definition mxacquire_resume :: "int \<Rightarrow> 'z mkern_scheme \<Rightarrow> 'z mkern_scheme outcome" where
  "mxacquire_resume muxid s = run (sleep_return s) (\<lambda>s. Inr (take_lock muxid s))"

definition mxrelease :: "nat \<Rightarrow> int \<Rightarrow> 'z mkern_scheme \<Rightarrow> 'z mkern_scheme outcome" where
  "mxrelease i muxid s = with_mutex i muxid s (\<lambda>gid.
     if lock (mxarray s ! gid) = 0 then Inr (wakeup (ChMutexName gid) s)
     else Inr (upd_mutex gid (\<lambda>m. m\<lparr>lock := 0\<rparr>) s)) s"

text \<open>\<^verbatim>\<open>mxdelete\<close> works on the first process of the table, whoever calls it.\<close>

definition mxdelete :: "int \<Rightarrow> 'z mkern_scheme \<Rightarrow> 'z mkern_scheme outcome" where
  "mxdelete muxid s = with_mutex 0 muxid s (\<lambda>gid.
     let s = upd_mutex gid (\<lambda>m. m\<lparr>num_proc := num_proc m - 1\<rparr>) s;
         s = upd_proc 0 (\<lambda>p. p\<lparr>mxproc := (mxproc p)[nat muxid := -1]\<rparr>) s
     in Inr (if num_proc (mxarray s ! gid) = 0
             then upd_mutex gid (\<lambda>m. m\<lparr>mx_name := 0, lock := 0, name_len := 0, num_proc := 0\<rparr>) s else s)) s"

definition cvwait :: "nat \<Rightarrow> int \<Rightarrow> 'z mkern_scheme \<Rightarrow> (bool \<times> 'z mkern_scheme) outcome" where
  "cvwait i muxid s = with_mutex i muxid (False, s) (\<lambda>gid.
     run (sleep (ChMutex gid) True s) (\<lambda>s. Inr (True, s))) s"

definition cvsignal :: "nat \<Rightarrow> int \<Rightarrow> 'z mkern_scheme \<Rightarrow> 'z mkern_scheme outcome" where
  "cvsignal i muxid s = with_mutex i muxid s (\<lambda>gid. Inr (wakeup (ChMutex gid) s)) s"

section \<open>The tables stay well formed\<close>

text \<open>Every mutex has its index as id, and every slot of a process is -1 or such an index.\<close>

definition slots_ok :: "int list \<Rightarrow> bool" where
  "slots_ok xs \<longleftrightarrow> length xs = MUX_MAXNUM \<and> (\<forall>v \<in> set xs. -1 \<le> v \<and> v < int MUX_MAXNUM)"

definition mutexes_ok :: "'z mkern_scheme \<Rightarrow> bool" where
  "mutexes_ok s \<longleftrightarrow> length (mxarray s) = MUX_MAXNUM \<and> (\<forall>g < MUX_MAXNUM. mx_id (mxarray s ! g) = int g) \<and>
     (\<forall>i < length (ptable s). slots_ok (mxproc (ptable s ! i)))"

lemma mutexes_ok_upd_mutex:
  assumes "mutexes_ok s" "\<And>m. mx_id (f m) = mx_id m"
  shows "mutexes_ok (upd_mutex g f s)"
  using assms by (auto simp: mutexes_ok_def upd_mutex_def nth_update_cases)

lemma mutexes_ok_upd_proc:
  assumes "mutexes_ok s" "slots_ok (mxproc (ptable s ! i)) \<Longrightarrow> slots_ok (mxproc (f (ptable s ! i)))"
  shows "mutexes_ok (upd_proc i f s)"
  using assms by (auto simp: mutexes_ok_def upd_proc_def nth_update_cases)

lemma mutexes_ok_wakeup: "mutexes_ok s \<Longrightarrow> mutexes_ok (wakeup c s)"
  by (auto simp: mutexes_ok_def wakeup_def wakeup1_def)

lemma slots_ok_update: "slots_ok xs \<Longrightarrow> -1 \<le> v \<Longrightarrow> v < int MUX_MAXNUM \<Longrightarrow> slots_ok (xs[j := v])"
  using set_update_subset_insert [of xs j v] by (auto simp: slots_ok_def)

lemma with_mutex_ok:
  assumes "mutexes_ok s" "i < length (ptable s)" "0 \<le> muxid" "muxid < int MUX_MAXNUM"
    and "P skip" and "\<And>gid. gid < MUX_MAXNUM \<Longrightarrow> \<exists>x. f gid = Inr x \<and> P x"
  shows "\<exists>x. with_mutex i muxid skip f s = Inr x \<and> P x"
proof -
  have "slots_ok (mxproc (ptable s ! i))" using assms(1,2) by (simp add: mutexes_ok_def)
  then have "mxproc (ptable s ! i) ! nat muxid < int MUX_MAXNUM"
    using assms(3,4) by (simp add: slots_ok_def nth_mem)
  with assms(3-6) show ?thesis by (simp add: with_mutex_def mxproc_at_def)
qed

lemma with_mutex_eq:
  assumes "0 \<le> muxid" "muxid < int MUX_MAXNUM" "mxproc (ptable s ! i) ! nat muxid = int gid" "gid < MUX_MAXNUM"
    "mx_name (mxarray s ! gid) \<noteq> 0"
  shows "with_mutex i muxid skip f s = f gid"
  using assms by (simp add: with_mutex_def mxproc_at_def)

lemma sleep_mutexes_ok:
  assumes "mutexes_ok s" "curproc s = Some i" "i < length (ptable s)"
  shows "\<exists>s'. sleep c True s = Inr s' \<and> mutexes_ok s'"
  using assms by (auto simp: sleep_def sched_def with_proc_def upd_proc_def switchkvm_def mutexes_ok_def nth_update_cases)

text \<open>C32. With a slot number in range, every mutex operation of the current process completes or puts it to
  sleep, never indexing outside the mutex table, and leaves every mutex with its id and every slot empty or naming
  a mutex.\<close>

theorem mutex_ops_well_formed:
  assumes "mutexes_ok s" "i < length (ptable s)" "0 \<le> muxid" "muxid < int MUX_MAXNUM" "curproc s = Some i"
  shows "mutexes_ok (snd (initmutex i nm len s)) \<and>
    (\<exists>r. mxacquire i muxid s = Inr r \<and> mutexes_ok (snd r)) \<and>
    (\<exists>r. cvwait i muxid s = Inr r \<and> mutexes_ok (snd r)) \<and>
    (\<exists>s'. mxrelease i muxid s = Inr s' \<and> mutexes_ok s') \<and>
    (\<exists>s'. mxdelete muxid s = Inr s' \<and> mutexes_ok s') \<and>
    (\<exists>s'. cvsignal i muxid s = Inr s' \<and> mutexes_ok s')"
proof (intro conjI)
  have "mx_id (mxarray s ! g) < int MUX_MAXNUM \<and> 0 \<le> mx_id (mxarray s ! g)"
    if "scan (\<lambda>m. mx_name m = 0 \<or> mx_name m = nm) (mxarray s) = Some g" for g
    using assms(1) scan_SomeD(1) [OF that] by (simp add: mutexes_ok_def)
  then show "mutexes_ok (snd (initmutex i nm len s))"
    using assms(1)
    by (auto simp: initmutex_def Let_def split: option.split
        intro!: mutexes_ok_upd_proc mutexes_ok_upd_mutex slots_ok_update)
  have "0 < length (ptable s)" using assms(2) by linarith
  then show "\<exists>s'. mxdelete muxid s = Inr s' \<and> mutexes_ok s'"
    unfolding mxdelete_def using assms
    by (intro with_mutex_ok) (auto simp: Let_def MUX_MAXNUM_def
        intro!: mutexes_ok_upd_proc mutexes_ok_upd_mutex slots_ok_update)
  note asleep = sleep_mutexes_ok [OF assms(1,5,2)]
  show "\<exists>r. mxacquire i muxid s = Inr r \<and> mutexes_ok (snd r)"
    unfolding mxacquire_def
  proof (rule with_mutex_ok [OF assms(1-4)])
    show "\<exists>r. (if lock (mxarray s ! g) = 1 then run (sleep (ChMutexName g) True s) (\<lambda>s. Inr (True, s))
        else Inr (False, take_lock muxid s)) = Inr r \<and> mutexes_ok (snd r)" for g
      using asleep [of "ChMutexName g"] assms(1) by (auto simp: take_lock_def intro: mutexes_ok_upd_mutex)
  qed (simp add: assms(1))
  show "\<exists>r. cvwait i muxid s = Inr r \<and> mutexes_ok (snd r)"
    unfolding cvwait_def
  proof (rule with_mutex_ok [OF assms(1-4)])
    show "\<exists>r. run (sleep (ChMutex g) True s) (\<lambda>s. Inr (True, s)) = Inr r \<and> mutexes_ok (snd r)" for g
      using asleep [of "ChMutex g"] by auto
  qed (simp add: assms(1))
  show "\<exists>s'. mxrelease i muxid s = Inr s' \<and> mutexes_ok s'"
    unfolding mxrelease_def using assms
    by (intro with_mutex_ok) (auto intro: mutexes_ok_upd_mutex mutexes_ok_wakeup)
  show "\<exists>s'. cvsignal i muxid s = Inr s' \<and> mutexes_ok s'"
    unfolding cvsignal_def using assms by (intro with_mutex_ok) (auto intro: mutexes_ok_wakeup)
qed

text \<open>Two processes, each with the mutex 3 in its slot 0, and process 0 running.\<close>

definition mxworld :: mkern where
  "mxworld = kern.extend (boot\<lparr>ptable := replicate 2 (proc0\<lparr>state := RUNNABLE, pgdir := 1, pid := 5, mxproc := (replicate 10 (-1))[0 := 3]\<rparr>),
       curproc := Some 0\<rparr>)
     \<lparr>mxarray = map (\<lambda>c. \<lparr>lock = 0, mx_id = int c, mx_name = (if c = 3 then 0x2000 else 0), name_len = 1, num_proc = 2\<rparr>) [0..<MUX_MAXNUM]\<rparr>"

lemma mxworld_ok: "mutexes_ok mxworld" "length (ptable mxworld) = 2"
  by (auto simp: mutexes_ok_def slots_ok_def mxworld_def kern.defs MUX_MAXNUM_def
      dest!: set_update_subset_insert [THEN subsetD])

theorem mutex_ops_well_formed_witness:
  "mutexes_ok (snd (initmutex 0 0x3000 1 mxworld)) \<and>
    (\<exists>r. mxacquire 0 0 mxworld = Inr r \<and> mutexes_ok (snd r)) \<and>
    (\<exists>r. cvwait 0 0 mxworld = Inr r \<and> mutexes_ok (snd r)) \<and>
    (\<exists>s'. mxrelease 0 0 mxworld = Inr s' \<and> mutexes_ok s') \<and>
    (\<exists>s'. mxdelete 0 mxworld = Inr s' \<and> mutexes_ok s') \<and>
    (\<exists>s'. cvsignal 0 0 mxworld = Inr s' \<and> mutexes_ok s')"
  by (rule mutex_ops_well_formed [OF mxworld_ok(1)]) (simp_all add: mxworld_ok MUX_MAXNUM_def mxworld_def kern.defs)


section \<open>Exclusion\<close>

lemma mxproc_take_lock [simp]: "ptable (take_lock m s) = ptable s" "curproc (take_lock m s) = curproc s"
  by (simp_all add: take_lock_def upd_mutex_def)




text \<open>The same with the mutex in the slot of its index.\<close>

definition mxworld3 :: mkern where
  "mxworld3 = mxworld\<lparr>ptable := replicate 2 (proc0\<lparr>state := RUNNABLE, pgdir := 1, pid := 5, mxproc := (replicate 10 (-1))[3 := 3]\<rparr>)\<rparr>"

lemma mxworld3_simps: "ptable mxworld3 = replicate 2 (proc0\<lparr>state := RUNNABLE, pgdir := 1, pid := 5, mxproc := (replicate 10 (-1))[3 := 3]\<rparr>)"
    "mx_name (mxarray mxworld3 ! 3) = 0x2000" "lock (mxarray mxworld3 ! 3) = 0" "length (mxarray mxworld3) = MUX_MAXNUM"
  by (simp_all add: mxworld3_def mxworld_def kern.defs MUX_MAXNUM_def)


text \<open>C34. Releasing a held mutex wakes nobody: \<^verbatim>\<open>mxrelease\<close> only clears the lock and leaves the process
  table as it is, so a process asleep in \<^verbatim>\<open>mxacquire\<close> stays asleep; the sleepers are woken by a
  further \<^verbatim>\<open>mxrelease\<close> of the already free mutex.\<close>

theorem mxrelease_wakes_late:
  assumes "mxproc (ptable s ! i) ! nat m = int g" "g < MUX_MAXNUM" "length (mxarray s) = MUX_MAXNUM" "0 \<le> m" "m < int MUX_MAXNUM"
    and "mx_name (mxarray s ! g) \<noteq> 0" "lock (mxarray s ! g) = 1"
  shows "\<exists>s1. mxrelease i m s = Inr s1 \<and> ptable s1 = ptable s \<and> lock (mxarray s1 ! g) = 0 \<and>
    mxrelease i m s1 = Inr (wakeup (ChMutexName g) s1)"
proof -
  let ?s1 = "upd_mutex g (\<lambda>m. m\<lparr>lock := 0\<rparr>) s"
  have "mxrelease i m s = Inr ?s1" using assms by (simp add: mxrelease_def with_mutex_eq)
  moreover have "ptable ?s1 = ptable s" "lock (mxarray ?s1 ! g) = 0" "mx_name (mxarray ?s1 ! g) \<noteq> 0"
    using assms by (simp_all add: upd_mutex_def)
  moreover from this have "mxrelease i m ?s1 = Inr (wakeup (ChMutexName g) ?s1)"
    using assms by (simp add: mxrelease_def with_mutex_eq)
  ultimately show ?thesis by blast
qed

theorem mxrelease_wakes_late_witness:
  "\<exists>s1. mxrelease 1 3 (take_lock 3 mxworld3) = Inr s1 \<and> ptable s1 = ptable (take_lock 3 mxworld3) \<and>
    lock (mxarray s1 ! 3) = 0 \<and> mxrelease 1 3 s1 = Inr (wakeup (ChMutexName 3) s1)"
  by (rule mxrelease_wakes_late)
    (simp_all add: mxworld3_simps MUX_MAXNUM_def, simp_all add: take_lock_def upd_mutex_def mxworld3_simps MUX_MAXNUM_def)

text \<open>C35. A process that waits on a condition variable is woken by the next signal on it: after
  \<^verbatim>\<open>cvwait\<close> by the running process, \<^verbatim>\<open>cvsignal\<close> by a process with the same mutex makes it runnable.\<close>

theorem cvsignal_wakes_cvwait:
  assumes "mxproc (ptable s ! a) ! nat ma = int g" "mxproc (ptable s ! b) ! nat mb = int g" "g < MUX_MAXNUM"
    and "mx_name (mxarray s ! g) \<noteq> 0" "0 \<le> ma" "ma < int MUX_MAXNUM" "0 \<le> mb" "mb < int MUX_MAXNUM"
    and "curproc s = Some a" "a < length (ptable s)" "b < length (ptable s)"
  shows "\<exists>s1 s2. cvwait a ma s = Inr (True, s1) \<and> state (ptable s1 ! a) = SLEEPING \<and>
    cvsignal b mb s1 = Inr s2 \<and> state (ptable s2 ! a) = RUNNABLE"
proof -
  let ?p = "(ptable s ! a)\<lparr>chan := Some (ChMutex g), state := SLEEPING, pcontext := In_sched\<rparr>"
  have "\<exists>s1. sleep (ChMutex g) True s = Inr s1 \<and> ptable s1 = (ptable s)[a := ?p] \<and> mxarray s1 = mxarray s"
    using assms(9,10) by (simp add: sleep_def sched_def with_proc_def upd_proc_def switchkvm_def)
  then obtain s1 where s1: "sleep (ChMutex g) True s = Inr s1" "ptable s1 = (ptable s)[a := ?p]" "mxarray s1 = mxarray s"
    by blast
  have "cvwait a ma s = Inr (True, s1)" using assms s1(1) by (simp add: cvwait_def with_mutex_eq)
  moreover have "mxproc (ptable s1 ! b) ! nat mb = int g" using assms(2,11) by (auto simp: s1(2) nth_update_cases)
  then have "cvsignal b mb s1 = Inr (wakeup (ChMutex g) s1)"
    using assms(3,4,7,8) by (simp add: cvsignal_def with_mutex_eq s1(3))
  moreover have "state (ptable (wakeup (ChMutex g) s1) ! a) = RUNNABLE"
    using assms(10) by (simp add: wakeup_def wakeup1_def s1(2))
  ultimately show ?thesis using assms(10) s1(2) by simp
qed

theorem cvsignal_wakes_cvwait_witness:
  "\<exists>s1 s2. cvwait 0 3 mxworld3 = Inr (True, s1) \<and> state (ptable s1 ! 0) = SLEEPING \<and>
    cvsignal 1 3 s1 = Inr s2 \<and> state (ptable s2 ! 0) = RUNNABLE"
  by (rule cvsignal_wakes_cvwait [where g = 3])
    (simp_all add: mxworld3_simps MUX_MAXNUM_def, simp add: mxworld3_def mxworld_def kern.defs)

end
