(* ===== verification/Bio.thy ===== *)
theory Bio
  imports Mutex
begin

text \<open>
  The buffer cache (\<^verbatim>\<open>bio.c\<close>) over the in-memory disk (\<^verbatim>\<open>memide.c\<close>). A block is a function from offsets
  below 512 to bytes, the disk a function from block numbers to blocks. The flag bits of a buffer are
  three booleans; the circular list through \<^verbatim>\<open>bcache.head\<close>, most recently used first, is the list \<open>mru\<close>
  of buffer indices, and a later section shows that the pointer operations of \<^verbatim>\<open>binit\<close> and \<^verbatim>\<open>brelse\<close>
  act on it as modelled here. The component \<open>dwrites\<close> is a ghost: it records the writes to the disk in
  their order, for the statements about crashes.
\<close>

section \<open>State and operations\<close>

type_synonym block = "nat \<Rightarrow> u8"

definition BSIZE :: nat where "BSIZE = 512"
definition NBUF :: nat where "NBUF = 30"

record buf =
  busy :: bool
  valid :: bool
  dirty :: bool
  dev :: u32
  blockno :: u32
  bdata :: block

record bkern = mkern +
  memdisk :: "u32 \<Rightarrow> block"
  disksize :: u32
  dwrites :: "(u32 \<times> block) list"
  bufs :: "buf list"
  mru :: "nat list"

definition upd_buf :: "nat \<Rightarrow> (buf \<Rightarrow> buf) \<Rightarrow> 'z bkern_scheme \<Rightarrow> 'z bkern_scheme" where
  "upd_buf k f s = s\<lparr>bufs := (bufs s)[k := f (bufs s ! k)]\<rparr>"

definition binit :: "'z bkern_scheme \<Rightarrow> 'z bkern_scheme" where
  "binit s = s\<lparr>bufs := map (\<lambda>b. b\<lparr>dev := -1\<rparr>) (bufs s), mru := rev [0..<NBUF]\<rparr>"

text \<open>\<^verbatim>\<open>iderw\<close> of \<^verbatim>\<open>memide.c\<close>.\<close>

definition iderw :: "nat \<Rightarrow> 'z bkern_scheme \<Rightarrow> 'z bkern_scheme outcome" where
  "iderw k s =
     (let b = bufs s ! k
      in if \<not> busy b then Inl (Panic ''iderw: buf not busy'')
         else if valid b \<and> \<not> dirty b then Inl (Panic ''iderw: nothing to do'')
         else if dev b \<noteq> 1 then Inl (Panic ''iderw: request not for disk 1'')
         else if blockno b \<ge> disksize s then Inl (Panic ''iderw: block out of range'')
         else if dirty b
         then Inr (upd_buf k (\<lambda>b. b\<lparr>dirty := False, valid := True\<rparr>) (s\<lparr>memdisk := (memdisk s)(blockno b := bdata b), dwrites := dwrites s @ [(blockno b, bdata b)]\<rparr>))
         else Inr (upd_buf k (\<lambda>b. b\<lparr>bdata := memdisk s (blockno b), valid := True\<rparr>) s))"

text \<open>The first buffer of a list of indices that passes a test.\<close>

definition find_buf :: "(buf \<Rightarrow> bool) \<Rightarrow> nat list \<Rightarrow> 'z bkern_scheme \<Rightarrow> nat option" where
  "find_buf P ks s = map_option ((!) ks) (scan (\<lambda>k. P (bufs s ! k)) ks)"

definition bget :: "u32 \<Rightarrow> u32 \<Rightarrow> 'z bkern_scheme \<Rightarrow> (nat \<times> 'z bkern_scheme) outcome" where
  "bget d bn s =
     (case find_buf (\<lambda>b. dev b = d \<and> blockno b = bn) (mru s) s of
        Some k \<Rightarrow>
          if \<not> busy (bufs s ! k) then Inr (k, upd_buf k (\<lambda>b. b\<lparr>busy := True\<rparr>) s)
          else Inl (Sleep (ChBuf k))
      | None \<Rightarrow>
          (case find_buf (\<lambda>b. \<not> busy b \<and> \<not> dirty b) (rev (mru s)) s of
             Some k \<Rightarrow> Inr (k, upd_buf k (\<lambda>b. b\<lparr>dev := d, blockno := bn, busy := True, valid := False, dirty := False\<rparr>) s)
           | None \<Rightarrow> Inl (Panic ''bget: no buffers'')))"

definition bread :: "u32 \<Rightarrow> u32 \<Rightarrow> 'z bkern_scheme \<Rightarrow> (nat \<times> 'z bkern_scheme) outcome" where
  "bread d bn s = run (bget d bn s) (\<lambda>(k, s).
     if \<not> valid (bufs s ! k) then run (iderw k s) (\<lambda>s. Inr (k, s)) else Inr (k, s))"

definition bwrite :: "nat \<Rightarrow> 'z bkern_scheme \<Rightarrow> 'z bkern_scheme outcome" where
  "bwrite k s =
     (if \<not> busy (bufs s ! k) then Inl (Panic ''bwrite'')
      else iderw k (upd_buf k (\<lambda>b. b\<lparr>dirty := True\<rparr>) s))"

definition brelse :: "nat \<Rightarrow> 'z bkern_scheme \<Rightarrow> 'z bkern_scheme outcome" where
  "brelse k s =
     (if \<not> busy (bufs s ! k) then Inl (Panic ''brelse'')
      else Inr (wakeup (ChBuf k) (upd_buf k (\<lambda>b. b\<lparr>busy := False\<rparr>) (s\<lparr>mru := k # removeAll k (mru s)\<rparr>))))"

text \<open>Changing the data of a buffer the caller holds.\<close>

definition bset :: "nat \<Rightarrow> (block \<Rightarrow> block) \<Rightarrow> 'z bkern_scheme \<Rightarrow> 'z bkern_scheme" where
  "bset k f s = upd_buf k (\<lambda>b. b\<lparr>bdata := f (bdata b)\<rparr>) s"

section \<open>The invariant of the cache\<close>

text \<open>
  \<open>bcache_ok H s\<close>: the list is a permutation of the buffers, no block of disk 1 is cached twice, exactly the
  buffers \<open>H\<close> are held, and a buffer that is neither held nor dirty agrees with the disk.
\<close>

definition bcache_ok :: "nat set \<Rightarrow> 'z bkern_scheme \<Rightarrow> bool" where
  "bcache_ok H s \<longleftrightarrow> length (bufs s) = NBUF \<and> distinct (mru s) \<and> set (mru s) = {..<NBUF} \<and>
     (\<forall>j < NBUF. \<forall>k < NBUF. dev (bufs s ! j) = 1 \<longrightarrow> dev (bufs s ! k) = 1 \<longrightarrow>
        blockno (bufs s ! j) = blockno (bufs s ! k) \<longrightarrow> j = k) \<and>
     (\<forall>k < NBUF. busy (bufs s ! k) \<longleftrightarrow> k \<in> H) \<and> H \<subseteq> {..<NBUF} \<and>
     (\<forall>k < NBUF. dirty (bufs s ! k) \<longrightarrow> valid (bufs s ! k) \<and> dev (bufs s ! k) = 1) \<and>
     (\<forall>k < NBUF. k \<notin> H \<longrightarrow> valid (bufs s ! k) \<longrightarrow> \<not> dirty (bufs s ! k) \<longrightarrow> dev (bufs s ! k) = 1 \<longrightarrow>
        bdata (bufs s ! k) = memdisk s (blockno (bufs s ! k)))"

text \<open>What the kernel sees of disk 1: the cached block if there is one, else the block on disk.\<close>

definition cached :: "u32 \<Rightarrow> 'z bkern_scheme \<Rightarrow> nat option" where
  "cached bn s = scan (\<lambda>b. dev b = 1 \<and> blockno b = bn \<and> valid b) (bufs s)"

definition view :: "'z bkern_scheme \<Rightarrow> u32 \<Rightarrow> block" where
  "view s bn = (case cached bn s of None \<Rightarrow> memdisk s bn | Some k \<Rightarrow> bdata (bufs s ! k))"


lemma upd_buf_simps [simp]:
  "memdisk (upd_buf k f s) = memdisk s" "disksize (upd_buf k f s) = disksize s" "mru (upd_buf k f s) = mru s"
  "bufs (upd_buf k f s) = (bufs s)[k := f (bufs s ! k)]" "dwrites (upd_buf k f s) = dwrites s"
  by (simp_all add: upd_buf_def)

lemma wakeup_bkern [simp]:
  "memdisk (wakeup c s) = memdisk s" "disksize (wakeup c s) = disksize s" "mru (wakeup c s) = mru s"
  "bufs (wakeup c s) = bufs s" "dwrites (wakeup c s) = dwrites s"
  by (simp_all add: wakeup_def wakeup1_def)

lemma find_buf_SomeD: "find_buf P ks s = Some k \<Longrightarrow> k \<in> set ks \<and> P (bufs s ! k)"
  by (auto simp: find_buf_def dest: scan_SomeD)

lemma find_buf_None: "find_buf P ks s = None \<longleftrightarrow> (\<forall>k \<in> set ks. \<not> P (bufs s ! k))"
  by (auto simp: find_buf_def scan_None_iff)

lemma bcache_okD:
  assumes "bcache_ok H s"
  shows "length (bufs s) = NBUF" "distinct (mru s)" "set (mru s) = {..<NBUF}" "H \<subseteq> {..<NBUF}"
    "k < NBUF \<Longrightarrow> busy (bufs s ! k) \<longleftrightarrow> k \<in> H"
    "k < NBUF \<Longrightarrow> dirty (bufs s ! k) \<Longrightarrow> valid (bufs s ! k) \<and> dev (bufs s ! k) = 1"
    "k < NBUF \<Longrightarrow> k \<notin> H \<Longrightarrow> valid (bufs s ! k) \<Longrightarrow> \<not> dirty (bufs s ! k) \<Longrightarrow> dev (bufs s ! k) = 1 \<Longrightarrow>
       bdata (bufs s ! k) = memdisk s (blockno (bufs s ! k))"
    "j < NBUF \<Longrightarrow> k < NBUF \<Longrightarrow> dev (bufs s ! j) = 1 \<Longrightarrow> dev (bufs s ! k) = 1 \<Longrightarrow>
       blockno (bufs s ! j) = blockno (bufs s ! k) \<Longrightarrow> j = k"
  using assms by (simp_all add: bcache_ok_def)

text \<open>Replacing one buffer and the disk's block under it.\<close>

lemma bcache_ok_upd:
  assumes ok: "bcache_ok H s" and k: "k < NBUF"
    and uniq: "\<And>j. dev b = 1 \<Longrightarrow> j < NBUF \<Longrightarrow> j \<noteq> k \<Longrightarrow> dev (bufs s ! j) = 1 \<Longrightarrow> blockno (bufs s ! j) \<noteq> blockno b"
    and H': "\<And>j. j \<noteq> k \<Longrightarrow> j \<in> H' \<longleftrightarrow> j \<in> H" "busy b \<longleftrightarrow> k \<in> H'"
    and dirty: "dirty b \<Longrightarrow> valid b \<and> dev b = 1"
    and coh: "k \<notin> H' \<Longrightarrow> valid b \<Longrightarrow> \<not> dirty b \<Longrightarrow> dev b = 1 \<Longrightarrow> bdata b = memdisk s' (blockno b)"
    and md: "\<And>j. j < NBUF \<Longrightarrow> j \<noteq> k \<Longrightarrow> dev (bufs s ! j) = 1 \<Longrightarrow>
      memdisk s' (blockno (bufs s ! j)) = memdisk s (blockno (bufs s ! j))"
    and s': "bufs s' = (bufs s)[k := b]" "distinct (mru s')" "set (mru s') = {..<NBUF}"
  shows "bcache_ok H' s'"
proof -
  note D = bcache_okD [OF ok]
  have n: "bufs s' ! j = (if j = k then b else bufs s ! j)" if "j < NBUF" for j
    using that k D(1) by (simp add: s' nth_update_cases)
  have "i = j" if "i < NBUF" "j < NBUF" "dev (bufs s' ! i) = 1" "dev (bufs s' ! j) = 1"
    "blockno (bufs s' ! i) = blockno (bufs s' ! j)" for i j
    using that uniq [of i] uniq [of j] D(8) [of i j] by (auto simp: n split: if_splits)
  moreover have "H' \<subseteq> {..<NBUF}" using D(4) H'(1) k by (metis lessThan_iff subset_iff)
  moreover have "busy (bufs s' ! j) \<longleftrightarrow> j \<in> H'" if "j < NBUF" for j
    using that D(5) H' by (simp add: n)
  moreover have "dirty (bufs s' ! j) \<longrightarrow> valid (bufs s' ! j) \<and> dev (bufs s' ! j) = 1" if "j < NBUF" for j
    using that D(6) dirty by (simp add: n)
  moreover have "bdata (bufs s' ! j) = memdisk s' (blockno (bufs s' ! j))"
    if "j < NBUF" "j \<notin> H'" "valid (bufs s' ! j)" "\<not> dirty (bufs s' ! j)" "dev (bufs s' ! j) = 1" for j
  proof (cases "j = k")
    case True
    with that coh show ?thesis by (simp add: n)
  next
    case False
    with that D(7) [of j] md [of j] H'(1) [of j] show ?thesis by (simp add: n)
  qed
  ultimately show ?thesis using D(1) s' unfolding bcache_ok_def by auto
qed

definition holds_block :: "buf \<Rightarrow> u32 \<Rightarrow> bool" where
  "holds_block b bn \<longleftrightarrow> dev b = 1 \<and> blockno b = bn \<and> valid b"

lemma cached_Some:
  assumes ok: "bcache_ok H s" and k: "k < NBUF" "holds_block (bufs s ! k) bn"
  shows "cached bn s = Some k"
proof -
  have "\<not> holds_block (bufs s ! j) bn" if "j < k" for j
    using bcache_okD(8) [OF ok, of j k] k that by (auto simp: holds_block_def)
  then show ?thesis
    using bcache_okD(1) [OF ok] k by (simp add: cached_def scan_Some_iff holds_block_def)
qed

lemma view_hit:
  assumes "bcache_ok H s" "k < NBUF" "holds_block (bufs s ! k) bn"
  shows "view s bn = bdata (bufs s ! k)"
  by (simp add: view_def cached_Some [OF assms])

lemma view_miss:
  assumes "length (bufs s) = NBUF" "\<forall>k < NBUF. \<not> holds_block (bufs s ! k) bn"
  shows "view s bn = memdisk s bn"
proof -
  have "cached bn s = None" using assms by (auto simp: cached_def scan_None_iff in_set_conv_nth holds_block_def)
  then show ?thesis by (simp add: view_def)
qed

text \<open>A view is determined by the buffers and the disk.\<close>

lemma view_eqI:
  assumes "bcache_ok H s"
    and "\<forall>k < NBUF. holds_block (bufs s ! k) bn \<longrightarrow> bdata (bufs s ! k) = v"
    and "(\<forall>k < NBUF. \<not> holds_block (bufs s ! k) bn) \<longrightarrow> memdisk s bn = v"
  shows "view s bn = v"
proof (cases "\<exists>k < NBUF. holds_block (bufs s ! k) bn")
  case True
  then obtain k where k: "k < NBUF" "holds_block (bufs s ! k) bn" by blast
  then show ?thesis using view_hit [OF assms(1) k] assms(2) by simp
next
  case False
  then show ?thesis using view_miss [OF bcache_okD(1) [OF assms(1)], of bn] assms(3) by simp
qed

section \<open>Reading a block\<close>

definition clean_buf :: "nat set \<Rightarrow> 'z bkern_scheme \<Rightarrow> bool" where
  "clean_buf H s \<longleftrightarrow> (\<exists>k < NBUF. k \<notin> H \<and> \<not> dirty (bufs s ! k))"

text \<open>The buffer \<open>k\<close> of \<open>s'\<close> is the held buffer of block \<open>bn\<close> of disk 1; nothing else changed.\<close>

definition got_block :: "nat set \<Rightarrow> u32 \<Rightarrow> 'z bkern_scheme \<Rightarrow> nat \<Rightarrow> 'z bkern_scheme \<Rightarrow> bool" where
  "got_block H bn s k s' \<longleftrightarrow> k < NBUF \<and> k \<notin> H \<and> bcache_ok (insert k H) s' \<and>
     holds_block (bufs s' ! k) bn \<and> bdata (bufs s' ! k) = view s bn \<and> view s' = view s \<and>
     (\<forall>j. j \<noteq> k \<longrightarrow> bufs s' ! j = bufs s ! j) \<and> (dirty (bufs s' ! k) \<longleftrightarrow> dirty (bufs s ! k)) \<and>
     (dirty (bufs s ! k) \<longrightarrow> blockno (bufs s ! k) = bn) \<and> s' = s\<lparr>bufs := bufs s'\<rparr>"

lemma got_blockI:
  assumes ok: "bcache_ok H s" and k: "k < NBUF" "k \<notin> H"
    and b: "holds_block b bn" "busy b" "dirty b \<longleftrightarrow> dirty (bufs s ! k)" "bdata b = view s bn"
      "dirty (bufs s ! k) \<Longrightarrow> blockno (bufs s ! k) = bn"
    and uniq: "\<And>j. j < NBUF \<Longrightarrow> j \<noteq> k \<Longrightarrow> dev (bufs s ! j) = 1 \<Longrightarrow> blockno (bufs s ! j) \<noteq> bn"
  shows "got_block H bn s k (s\<lparr>bufs := (bufs s)[k := b]\<rparr>)"
proof -
  let ?s = "s\<lparr>bufs := (bufs s)[k := b]\<rparr>"
  note D = bcache_okD [OF ok]
  have ok': "bcache_ok (insert k H) ?s"
    using ok k(1) by (rule bcache_ok_upd) (use b uniq D in \<open>auto simp: holds_block_def\<close>)
  have n: "(bufs s)[k := b] ! j = (if j = k then b else bufs s ! j)" if "j < NBUF" for j
    using that D(1) by (simp add: nth_update_cases)
  have "view ?s bm = view s bm" for bm
  proof (rule view_eqI [OF ok'], safe)
    fix j assume j: "j < NBUF" "holds_block (bufs ?s ! j) bm"
    show "bdata (bufs ?s ! j) = view s bm"
    proof (cases "j = k")
      case True
      then have "bm = bn" using j b(1) by (simp add: n holds_block_def)
      with True j(1) b(4) show ?thesis by (simp add: n)
    next
      case False
      then show ?thesis using j view_hit [OF ok j(1), of bm] by (simp add: n)
    qed
  next
    assume none: "\<forall>j < NBUF. \<not> holds_block (bufs ?s ! j) bm"
    have other: "\<not> holds_block (bufs s ! j) bm" if "j < NBUF" "j \<noteq> k" for j
      using none that n [of j] by auto
    show "memdisk ?s bm = view s bm"
    proof (cases "holds_block (bufs s ! k) bm")
      case True
      then have "\<not> dirty (bufs s ! k)" using none k(1) b(1,5) n [OF k(1)] by (auto simp: holds_block_def)
      then have "bdata (bufs s ! k) = memdisk s bm" using D(7) [OF k] True by (simp add: holds_block_def)
      then show ?thesis using view_hit [OF ok k(1) True] by simp
    next
      case False
      then have "\<forall>j < NBUF. \<not> holds_block (bufs s ! j) bm" using other by metis
      then show ?thesis using view_miss [OF D(1), of bm] by simp
    qed
  qed
  with ok' k b n [OF k(1)] show ?thesis
    unfolding got_block_def by (simp add: fun_eq_iff)
qed


lemma bread_ok:
  assumes ok: "bcache_ok H s"
    and room: "clean_buf H s \<or> (\<exists>k < NBUF. dev (bufs s ! k) = 1 \<and> blockno (bufs s ! k) = bn)" and bn: "bn < disksize s"
    and free: "\<forall>k \<in> H. \<not> (dev (bufs s ! k) = 1 \<and> blockno (bufs s ! k) = bn)"
  shows "\<exists>k s'. bread 1 bn s = Inr (k, s') \<and> got_block H bn s k s'"
proof (cases "find_buf (\<lambda>b. dev b = 1 \<and> blockno b = bn) (mru s) s")
  note D = bcache_okD [OF ok]
  case (Some k)
  then have k: "k < NBUF" "dev (bufs s ! k) = 1" "blockno (bufs s ! k) = bn"
    using find_buf_SomeD [OF Some] D(3) by auto
  have kH: "k \<notin> H" using k free by blast
  have nb: "\<not> busy (bufs s ! k)" using D(5) k(1) kH by simp
  have uniq: "blockno (bufs s ! j) \<noteq> bn" if "j < NBUF" "j \<noteq> k" "dev (bufs s ! j) = 1" for j
    using D(8) [of j k] k that by auto
  show ?thesis
  proof (cases "valid (bufs s ! k)")
    case True
    let ?b = "(bufs s ! k)\<lparr>busy := True\<rparr>"
    have "bread 1 bn s = Inr (k, s\<lparr>bufs := (bufs s)[k := ?b]\<rparr>)"
      using Some nb True D(1) k(1) by (simp add: bread_def bget_def upd_buf_def)
    moreover have "got_block H bn s k (s\<lparr>bufs := (bufs s)[k := ?b]\<rparr>)"
      using k kH True view_hit [OF ok k(1), of bn] by (intro got_blockI [OF ok]) (simp_all add: holds_block_def uniq)
    ultimately show ?thesis by blast
  next
    case False
    let ?b = "(bufs s ! k)\<lparr>busy := True, bdata := memdisk s bn, valid := True\<rparr>"
    have nd: "\<not> dirty (bufs s ! k)" using D(6) [OF k(1)] False by blast
    have "view s bn = memdisk s bn"
      using D(1) uniq False by (intro view_miss) (auto simp: holds_block_def)
    moreover have "bread 1 bn s = Inr (k, s\<lparr>bufs := (bufs s)[k := ?b]\<rparr>)"
      using Some nb False nd k bn D(1) by (simp add: bread_def bget_def upd_buf_def iderw_def Let_def not_le)
    ultimately show ?thesis
      using k kH nd got_blockI [OF ok k(1) kH, of ?b bn] uniq by (auto simp: holds_block_def)
  qed
next
  note D = bcache_okD [OF ok]
  case None
  have none: "\<not> (dev (bufs s ! j) = 1 \<and> blockno (bufs s ! j) = bn)" if "j < NBUF" for j
    using None that D(3) by (auto simp: find_buf_None)
  obtain k0 where k0: "k0 < NBUF" "k0 \<notin> H" "\<not> dirty (bufs s ! k0)" using room none by (auto simp: clean_buf_def)
  then obtain k where k: "find_buf (\<lambda>b. \<not> busy b \<and> \<not> dirty b) (rev (mru s)) s = Some k"
    using D(3) D(5) [OF k0(1)] by (cases "find_buf (\<lambda>b. \<not> busy b \<and> \<not> dirty b) (rev (mru s)) s") (auto simp: find_buf_None)
  have kb: "k < NBUF" "\<not> busy (bufs s ! k)" "\<not> dirty (bufs s ! k)" using find_buf_SomeD [OF k] D(3) by auto
  then have kH: "k \<notin> H" using D(5) by simp
  let ?b = "(bufs s ! k)\<lparr>dev := 1, blockno := bn, busy := True, dirty := False, bdata := memdisk s bn, valid := True\<rparr>"
  have "view s bn = memdisk s bn" using D(1) none by (intro view_miss) (auto simp: holds_block_def)
  moreover have "bread 1 bn s = Inr (k, s\<lparr>bufs := (bufs s)[k := ?b]\<rparr>)"
    using None k kb bn D(1) by (simp add: bread_def bget_def upd_buf_def iderw_def Let_def not_le)
  ultimately show ?thesis
    using kb kH none got_blockI [OF ok kb(1) kH, of ?b bn] by (auto simp: holds_block_def)
qed

section \<open>Writing and releasing a block\<close>

lemma bwrite_ok:
  assumes ok: "bcache_ok H s" and k: "k \<in> H" "holds_block (bufs s ! k) bn" "bn < disksize s"
  shows "\<exists>s'. bwrite k s = Inr s' \<and> bcache_ok H s' \<and> view s' = view s \<and> memdisk s' = (memdisk s)(bn := view s bn) \<and>
    bufs s' = (bufs s)[k := (bufs s ! k)\<lparr>dirty := False\<rparr>] \<and> dwrites s' = dwrites s @ [(bn, view s bn)] \<and> s' = s\<lparr>memdisk := memdisk s', dwrites := dwrites s', bufs := bufs s'\<rparr>"
proof -
  note D = bcache_okD [OF ok]
  have kn: "k < NBUF" using D(4) k(1) by auto
  have b: "busy (bufs s ! k)" "valid (bufs s ! k)" "dev (bufs s ! k) = 1" "blockno (bufs s ! k) = bn"
    using D(5) [OF kn] k by (simp_all add: holds_block_def)
  have v: "view s bn = bdata (bufs s ! k)" by (rule view_hit [OF ok kn k(2)])
  let ?s = "s\<lparr>memdisk := (memdisk s)(bn := bdata (bufs s ! k)), dwrites := dwrites s @ [(bn, bdata (bufs s ! k))], bufs := (bufs s)[k := (bufs s ! k)\<lparr>dirty := False\<rparr>]\<rparr>"
  have e: "(bufs s ! k)\<lparr>dirty := False, valid := True\<rparr> = (bufs s ! k)\<lparr>dirty := False\<rparr>"
    using b(2) by (cases "bufs s ! k") simp
  have "\<not> disksize s \<le> bn" using k(3) by (simp add: not_le)
  then have "bwrite k s = Inr (s\<lparr>memdisk := (memdisk s)(bn := bdata (bufs s ! k)),
      dwrites := dwrites s @ [(bn, bdata (bufs s ! k))], bufs := (bufs s)[k := (bufs s ! k)\<lparr>dirty := False, valid := True\<rparr>]\<rparr>)"
    using b D(1) kn by (simp add: bwrite_def iderw_def upd_buf_def Let_def)
  then have w: "bwrite k s = Inr ?s" by (simp only: e)
  have other: "blockno (bufs s ! j) \<noteq> bn" if "j < NBUF" "j \<noteq> k" "dev (bufs s ! j) = 1" for j
    using D(8) [of j k] kn b that by auto
  have ok': "bcache_ok H ?s"
    using ok kn by (rule bcache_ok_upd) (use b other k(1) D(2,3) in simp_all)
  have n: "(bufs s)[k := (bufs s ! k)\<lparr>dirty := False\<rparr>] ! j = (if j = k then (bufs s ! k)\<lparr>dirty := False\<rparr> else bufs s ! j)"
    if "j < NBUF" for j using that D(1) by (simp add: nth_update_cases)
  have h: "holds_block (bufs ?s ! j) bm \<longleftrightarrow> holds_block (bufs s ! j) bm" "bdata (bufs ?s ! j) = bdata (bufs s ! j)"
    if "j < NBUF" for j bm using that by (simp_all add: n holds_block_def)
  have "view ?s bm = view s bm" for bm
  proof (rule view_eqI [OF ok'], safe)
    fix j assume j: "j < NBUF" "holds_block (bufs ?s ! j) bm"
    then show "bdata (bufs ?s ! j) = view s bm" using h [OF j(1)] view_hit [OF ok j(1), of bm] by simp
  next
    assume "\<forall>j < NBUF. \<not> holds_block (bufs ?s ! j) bm"
    then have none: "\<forall>j < NBUF. \<not> holds_block (bufs s ! j) bm" using h(1) by blast
    then have "bm \<noteq> bn" using kn k(2) by auto
    then show "memdisk ?s bm = view s bm" using view_miss [OF D(1) none] by simp
  qed
  then have "view ?s = view s" by blast
  with w ok' show ?thesis by (intro exI [of _ ?s] conjI) (simp_all add: v)
qed


text \<open>Releasing a buffer that agrees with the disk or is dirty, hence pinned by the log.\<close>

lemma brelse_ok:
  assumes ok: "bcache_ok H s" and k: "k \<in> H" "holds_block (bufs s ! k) bn"
    and coh: "dirty (bufs s ! k) \<or> bdata (bufs s ! k) = memdisk s bn"
  shows "\<exists>s'. brelse k s = Inr s' \<and> bcache_ok (H - {k}) s' \<and> view s' = view s \<and> memdisk s' = memdisk s \<and>
    bufs s' = (bufs s)[k := (bufs s ! k)\<lparr>busy := False\<rparr>] \<and> disksize s' = disksize s \<and> dwrites s' = dwrites s \<and>
    s' = wakeup (ChBuf k) (s\<lparr>mru := mru s', bufs := bufs s'\<rparr>)"
proof -
  note D = bcache_okD [OF ok]
  have kn: "k < NBUF" using D(4) k(1) by auto
  have b: "busy (bufs s ! k)" "dev (bufs s ! k) = 1" "blockno (bufs s ! k) = bn"
    using D(5) [OF kn] k by (simp_all add: holds_block_def)
  let ?s = "wakeup (ChBuf k) (upd_buf k (\<lambda>b. b\<lparr>busy := False\<rparr>) (s\<lparr>mru := k # removeAll k (mru s)\<rparr>))"
  have w: "brelse k s = Inr ?s" using b(1) by (simp add: brelse_def)
  have s: "bufs ?s = (bufs s)[k := (bufs s ! k)\<lparr>busy := False\<rparr>]" "memdisk ?s = memdisk s" "disksize ?s = disksize s"
    "mru ?s = k # removeAll k (mru s)" by simp_all
  have other: "blockno (bufs s ! j) \<noteq> bn" if "j < NBUF" "j \<noteq> k" "dev (bufs s ! j) = 1" for j
    using D(8) [of j k] kn b that by auto
  have "set (mru ?s) = {..<NBUF}" "distinct (mru ?s)" using D(2,3) kn by (auto simp: distinct_removeAll)
  then have ok': "bcache_ok (H - {k}) ?s"
    by (intro bcache_ok_upd [OF ok kn _ _ _ _ _ _ s(1)])
      (use b coh other D(6) [OF kn] in \<open>auto simp: s(2)\<close>)
  have n: "(bufs s)[k := (bufs s ! k)\<lparr>busy := False\<rparr>] ! j = (if j = k then (bufs s ! k)\<lparr>busy := False\<rparr> else bufs s ! j)"
    if "j < NBUF" for j using that D(1) by (simp add: nth_update_cases)
  have h: "holds_block (bufs ?s ! j) bm \<longleftrightarrow> holds_block (bufs s ! j) bm" "bdata (bufs ?s ! j) = bdata (bufs s ! j)"
    if "j < NBUF" for j bm using that by (simp_all add: s n holds_block_def)
  have "view ?s bm = view s bm" for bm
  proof (rule view_eqI [OF ok'], safe)
    fix j assume j: "j < NBUF" "holds_block (bufs ?s ! j) bm"
    then show "bdata (bufs ?s ! j) = view s bm" using h [OF j(1)] view_hit [OF ok j(1), of bm] by simp
  next
    assume "\<forall>j < NBUF. \<not> holds_block (bufs ?s ! j) bm"
    then have "\<forall>j < NBUF. \<not> holds_block (bufs s ! j) bm" using h(1) by blast
    then show "memdisk ?s bm = view s bm" using view_miss [OF D(1)] by (simp add: s)
  qed
  then have "view ?s = view s" by blast
  moreover have "?s = wakeup (ChBuf k) (s\<lparr>mru := mru ?s, bufs := bufs ?s\<rparr>)" by (simp add: s) (simp add: upd_buf_def)
  moreover have "dwrites ?s = dwrites s" by simp
  ultimately show ?thesis using w ok' s by blast
qed

text \<open>Changing the data of a held buffer changes the view of its block.\<close>

lemma bset_ok:
  assumes ok: "bcache_ok H s" and k: "k \<in> H" "holds_block (bufs s ! k) bn"
  shows "bcache_ok H (bset k f s)" "view (bset k f s) = (view s)(bn := f (view s bn))"
proof -
  note D = bcache_okD [OF ok]
  have kn: "k < NBUF" using D(4) k(1) by auto
  have b: "busy (bufs s ! k)" "dev (bufs s ! k) = 1" "blockno (bufs s ! k) = bn"
    using D(5) [OF kn] k by (simp_all add: holds_block_def)
  let ?b = "(bufs s ! k)\<lparr>bdata := f (bdata (bufs s ! k))\<rparr>"
  have s: "bufs (bset k f s) = (bufs s)[k := ?b]" "memdisk (bset k f s) = memdisk s" "mru (bset k f s) = mru s"
    by (simp_all add: bset_def)
  have other: "blockno (bufs s ! j) \<noteq> bn" if "j < NBUF" "j \<noteq> k" "dev (bufs s ! j) = 1" for j
    using D(8) [of j k] kn b that by auto
  show ok': "bcache_ok H (bset k f s)"
    by (intro bcache_ok_upd [OF ok kn _ _ _ _ _ _ s(1)])
      (use b k(1) other D(2,3) D(6) [OF kn] in \<open>auto simp: s\<close>)
  have n: "(bufs s)[k := ?b] ! j = (if j = k then ?b else bufs s ! j)" if "j < NBUF" for j
    using that D(1) by (simp add: nth_update_cases)
  have h: "holds_block (bufs (bset k f s) ! j) bm \<longleftrightarrow> holds_block (bufs s ! j) bm" if "j < NBUF" for j bm
    using that by (simp add: s n holds_block_def)
  show "view (bset k f s) = (view s)(bn := f (view s bn))"
  proof
    fix bm
    show "view (bset k f s) bm = ((view s)(bn := f (view s bn))) bm"
    proof (rule view_eqI [OF ok'], safe)
      fix j assume j: "j < NBUF" "holds_block (bufs (bset k f s) ! j) bm"
      then have hj: "holds_block (bufs s ! j) bm" using h by simp
      show "bdata (bufs (bset k f s) ! j) = ((view s)(bn := f (view s bn))) bm"
      proof (cases "j = k")
        case True
        then have "bm = bn" using hj b by (simp add: holds_block_def)
        with True show ?thesis using j(1) view_hit [OF ok kn k(2)] by (simp add: s n)
      next
        case False
        then have "bm \<noteq> bn" using hj other j(1) by (auto simp: holds_block_def)
        with False show ?thesis using j(1) view_hit [OF ok j(1) hj] by (simp add: s n)
      qed
    next
      assume "\<forall>j < NBUF. \<not> holds_block (bufs (bset k f s) ! j) bm"
      then have none: "\<forall>j < NBUF. \<not> holds_block (bufs s ! j) bm" using h by blast
      then have "bm \<noteq> bn" using kn k(2) by auto
      then show "memdisk (bset k f s) bm = ((view s)(bn := f (view s bn))) bm"
        using view_miss [OF D(1) none] by (simp add: s)
    qed
  qed
qed

end
