(* ===== verification/BioList.thy ===== *)
theory BioList
  imports Bio
begin

text \<open>
  The circular doubly linked list of the buffer cache. \<^verbatim>\<open>binit\<close> and \<^verbatim>\<open>brelse\<close> manipulate the
  \<^verbatim>\<open>prev\<close> and \<^verbatim>\<open>next\<close> pointers of the buffers and of \<^verbatim>\<open>bcache.head\<close>; here the head is the index
  \<open>NBUF\<close>. The pointer operations are shown to refine the list of buffer indices of theory \<open>Bio\<close>.
\<close>

record links =
  lnext :: "nat \<Rightarrow> nat"
  lprev :: "nat \<Rightarrow> nat"

text \<open>The four assignments that put \<open>b\<close> behind the head, as in \<^verbatim>\<open>binit\<close> and at the end of \<^verbatim>\<open>brelse\<close>.\<close>

definition link_front :: "nat \<Rightarrow> links \<Rightarrow> links" where
  "link_front b l =
     (let l = l\<lparr>lnext := (lnext l)(b := lnext l NBUF)\<rparr>;
          l = l\<lparr>lprev := (lprev l)(b := NBUF)\<rparr>;
          l = l\<lparr>lprev := (lprev l)(lnext l NBUF := b)\<rparr>
      in l\<lparr>lnext := (lnext l)(NBUF := b)\<rparr>)"

definition unlink :: "nat \<Rightarrow> links \<Rightarrow> links" where
  "unlink b l =
     (let l = l\<lparr>lprev := (lprev l)(lnext l b := lprev l b)\<rparr>
      in l\<lparr>lnext := (lnext l)(lprev l b := lnext l b)\<rparr>)"

definition binit_links :: "links \<Rightarrow> links" where
  "binit_links l = fold link_front [0..<NBUF]
     (l\<lparr>lprev := (lprev l)(NBUF := NBUF), lnext := (lnext l)(NBUF := NBUF)\<rparr>)"

definition brelse_links :: "nat \<Rightarrow> links \<Rightarrow> links" where
  "brelse_links b l = link_front b (unlink b l)"

text \<open>A segment from \<open>a\<close> through \<open>xs\<close> to \<open>b\<close>, and the whole list.\<close>

primrec dseg :: "links \<Rightarrow> nat \<Rightarrow> nat list \<Rightarrow> nat \<Rightarrow> bool" where
  "dseg l a [] b \<longleftrightarrow> lnext l a = b \<and> lprev l b = a"
| "dseg l a (x # xs) b \<longleftrightarrow> lnext l a = x \<and> lprev l x = a \<and> dseg l x xs b"

definition ring_of :: "links \<Rightarrow> nat list \<Rightarrow> bool" where
  "ring_of l xs \<longleftrightarrow> dseg l NBUF xs NBUF \<and> distinct (NBUF # xs)"

text \<open>The traversal of \<^verbatim>\<open>bget\<close> from the head along \<^verbatim>\<open>next\<close>.\<close>

primrec follow :: "nat \<Rightarrow> links \<Rightarrow> nat \<Rightarrow> nat list" where
  "follow 0 l b = []"
| "follow (Suc n) l b = (if b = NBUF then [] else b # follow n l (lnext l b))"

lemma dseg_append: "dseg l a (us @ x # vs) b \<longleftrightarrow> dseg l a us x \<and> dseg l x vs b"
  by (induction us arbitrary: a) auto

lemma dseg_cong:
  "dseg l a xs b \<Longrightarrow> (\<And>x. x \<in> insert a (set xs) \<Longrightarrow> lnext l' x = lnext l x) \<Longrightarrow>
   (\<And>x. x \<in> insert b (set xs) \<Longrightarrow> lprev l' x = lprev l x) \<Longrightarrow> dseg l' a xs b"
  by (induction xs arbitrary: a) auto

lemma dseg_ends: "dseg l a xs b \<Longrightarrow> lnext l a = hd (xs @ [b]) \<and> lprev l b = last (a # xs)"
  by (induction xs arbitrary: a) auto

lemma dseg_change_end:
  "dseg l a us b \<Longrightarrow> distinct (a # us) \<Longrightarrow> n \<notin> set us \<Longrightarrow>
   lnext l' = (lnext l)(last (a # us) := n) \<Longrightarrow> lprev l' = (lprev l)(n := last (a # us)) \<Longrightarrow> dseg l' a us n"
proof (induction us arbitrary: a)
  case (Cons u us)
  then have "a \<noteq> last (u # us)" by (metis distinct.simps(2) last_in_set list.distinct(1))
  moreover have "dseg l' u us n" using Cons.prems by (intro Cons.IH) auto
  ultimately show ?case using Cons.prems by auto
qed simp

lemma unlink_ring:
  assumes "ring_of l (us @ b # vs)"
  shows "ring_of (unlink b l) (us @ vs)"
proof -
  define P N where "P = last (NBUF # us)" and "N = hd (vs @ [NBUF])"
  have seg: "dseg l NBUF us b" "dseg l b vs NBUF" and d: "distinct (NBUF # us @ b # vs)"
    using assms by (auto simp: ring_of_def dseg_append)
  have p: "lprev l b = P" and n: "lnext l b = N"
    using dseg_ends [OF seg(1)] dseg_ends [OF seg(2)] by (simp_all only: P_def N_def)
  have pin: "P \<in> insert NBUF (set us)" using last_in_set [of "NBUF # us"] by (simp only: P_def) simp
  have nb: "N \<noteq> b" "N \<notin> set us" using d by (cases vs; simp add: N_def)+
  have u: "lnext (unlink b l) = (lnext l)(P := N)" "lprev (unlink b l) = (lprev l)(N := P)"
    using nb(1) by (simp_all add: unlink_def Let_def p n)
  have left: "dseg (unlink b l) NBUF us N"
    by (rule dseg_change_end [OF seg(1) _ nb(2)]) (use d in \<open>simp_all add: u P_def\<close>)
  have "dseg (unlink b l) NBUF (us @ vs) NBUF"
  proof (cases vs)
    case (Cons v vs')
    have v: "N = v" by (simp add: N_def Cons)
    have "dseg l v vs' NBUF" using seg(2) by (simp add: Cons)
    then have "dseg (unlink b l) v vs' NBUF"
      by (rule dseg_cong) (use d pin Cons in \<open>auto simp: u v\<close>)
    then show ?thesis using left v Cons by (simp add: dseg_append)
  qed (use left N_def in simp)
  with d show ?thesis by (auto simp: ring_of_def)
qed

lemma link_front_ring:
  assumes "ring_of l xs" "b \<noteq> NBUF" "b \<notin> set xs"
  shows "ring_of (link_front b l) (b # xs)"
proof -
  define N where "N = hd (xs @ [NBUF])"
  have seg: "dseg l NBUF xs NBUF" and d: "distinct (NBUF # xs)" using assms(1) by (auto simp: ring_of_def)
  have n: "lnext l NBUF = N" using dseg_ends [OF seg] by (simp only: N_def)
  have nb: "N \<noteq> b" using assms(2,3) by (cases xs) (auto simp: N_def)
  have u: "lnext (link_front b l) = (lnext l)(b := N, NBUF := b)" "lprev (link_front b l) = (lprev l)(b := NBUF, N := b)"
    using assms(2) by (simp_all add: link_front_def Let_def n)
  have "dseg (link_front b l) b xs NBUF"
  proof (cases xs)
    case Nil
    then show ?thesis using assms(2) by (simp add: u N_def)
  next
    case (Cons x xs')
    have x: "N = x" by (simp add: N_def Cons)
    have "dseg l x xs' NBUF" using seg by (simp add: Cons)
    then have "dseg (link_front b l) x xs' NBUF"
      by (rule dseg_cong) (use d assms(2,3) Cons in \<open>auto simp: u x\<close>)
    then show ?thesis using Cons assms(2,3) d x by (simp add: u)
  qed
  then show ?thesis using nb assms(2,3) d by (simp add: ring_of_def u)
qed

lemma binit_links_ring:
  "ring_of l xs \<Longrightarrow> distinct bs \<Longrightarrow> NBUF \<notin> set bs \<Longrightarrow> set bs \<inter> set xs = {} \<Longrightarrow> ring_of (fold link_front bs l) (rev bs @ xs)"
  by (induction bs arbitrary: l xs) (auto simp: link_front_ring)

lemma follow_dseg: "dseg l a xs NBUF \<Longrightarrow> NBUF \<notin> set xs \<Longrightarrow> length xs < n \<Longrightarrow> follow n l (lnext l a) = xs"
proof (induction xs arbitrary: a n)
  case Nil
  then show ?case by (cases n) auto
next
  case (Cons x xs)
  then show ?case by (cases n) auto
qed

lemma binit_ring: "ring_of (binit_links l) (rev [0..<NBUF])"
proof -
  have "ring_of (fold link_front [0..<NBUF] (l\<lparr>lprev := (lprev l)(NBUF := NBUF), lnext := (lnext l)(NBUF := NBUF)\<rparr>)) (rev [0..<NBUF] @ [])"
    by (rule binit_links_ring) (simp_all add: ring_of_def)
  then show ?thesis by (simp add: binit_links_def)
qed

text \<open>C16. The pointer code of the buffer cache implements the most-recently-used list: \<^verbatim>\<open>binit\<close> links all
  buffers, and releasing a buffer moves it to the front; following \<^verbatim>\<open>next\<close> from the head visits exactly
  the list, as \<^verbatim>\<open>bget\<close> does.\<close>

theorem bcache_links_refine:
  assumes "ring_of l (mru s)" "busy (bufs s ! k)" "k \<in> set (mru s)"
  shows "ring_of (binit_links l0) (mru (binit s)) \<and>
    (\<exists>s'. brelse k s = Inr s' \<and> ring_of (brelse_links k l) (mru s')) \<and>
    follow (Suc (length (mru s))) l (lnext l NBUF) = mru s"
proof (intro conjI)
  show "ring_of (binit_links l0) (mru (binit s))" using binit_ring by (simp add: binit_def)
  obtain us vs where m: "mru s = us @ k # vs" using assms(3) by (auto dest: split_list)
  have d: "distinct (NBUF # us @ k # vs)" using assms(1) m by (simp add: ring_of_def)
  then have "removeAll k (mru s) = us @ vs" by (auto simp: m removeAll_id)
  moreover have "ring_of (brelse_links k l) (k # us @ vs)"
    unfolding brelse_links_def using assms(1) m d by (intro link_front_ring unlink_ring) auto
  ultimately show "\<exists>s'. brelse k s = Inr s' \<and> ring_of (brelse_links k l) (mru s')"
    using assms(2) by (simp add: brelse_def)
  show "follow (Suc (length (mru s))) l (lnext l NBUF) = mru s"
    using assms(1) follow_dseg [of l NBUF "mru s" "Suc (length (mru s))"] by (simp add: ring_of_def del: follow.simps)
qed

text \<open>A cache after \<^verbatim>\<open>binit\<close> in which buffer 5 is held.\<close>

definition buf0 :: buf where
  "buf0 = \<lparr>busy = False, valid = False, dirty = False, dev = -1, blockno = 0, bdata = (\<lambda>_. 0)\<rparr>"

definition bworld :: bkern where
  "bworld = mkern.extend mxworld \<lparr>memdisk = (\<lambda>_ _. 0), disksize = 1000, dwrites = [], bufs = replicate NBUF buf0, mru = rev [0..<NBUF]\<rparr>"

definition links0 :: links where
  "links0 = \<lparr>lnext = (\<lambda>_. 0), lprev = (\<lambda>_. 0)\<rparr>"

theorem bcache_links_refine_witness:
  "ring_of (binit_links links0) (mru (binit (upd_buf 5 (\<lambda>b. b\<lparr>busy := True\<rparr>) bworld))) \<and>
    (\<exists>s'. brelse 5 (upd_buf 5 (\<lambda>b. b\<lparr>busy := True\<rparr>) bworld) = Inr s' \<and> ring_of (brelse_links 5 (binit_links links0)) (mru s')) \<and>
    follow (Suc (length (mru (upd_buf 5 (\<lambda>b. b\<lparr>busy := True\<rparr>) bworld)))) (binit_links links0) (lnext (binit_links links0) NBUF) =
      mru (upd_buf 5 (\<lambda>b. b\<lparr>busy := True\<rparr>) bworld)"
proof (rule bcache_links_refine)
  show "ring_of (binit_links links0) (mru (upd_buf 5 (\<lambda>b. b\<lparr>busy := True\<rparr>) bworld))"
    using binit_ring [of links0] by (simp add: bworld_def mkern.defs)
qed (simp_all add: bworld_def mkern.defs NBUF_def)

end
