(* ===== verification/Log.thy ===== *)
theory Log
  imports Bio
begin

text \<open>
  The file-system log (\<^verbatim>\<open>log.c\<close>), a redo log of whole blocks. The header block holds the number of logged
  blocks and their block numbers as 32-bit words. \<^verbatim>\<open>begin_op\<close> stops with \<open>Sleep\<close> where the code waits,
  which it does without having changed the state.
\<close>

section \<open>State and operations\<close>

definition LOGSIZE :: nat where "LOGSIZE = 30"
definition MAXOPBLOCKS :: nat where "MAXOPBLOCKS = 10"

record superblock =
  sb_size :: u32
  nblocks :: u32
  ninodes :: u32
  nlog :: u32
  logstart :: u32
  inodestart :: u32
  bmapstart :: u32

record lkern = bkern +
  log_start :: u32
  log_size :: int
  outstanding :: int
  committing :: bool
  log_dev :: u32
  lh_n :: int
  lh_block :: "u32 list"

text \<open>\<^verbatim>\<open>readsb\<close> (\<^verbatim>\<open>fs.c\<close>): the superblock is block 1.\<close>

definition decode_sb :: "block \<Rightarrow> superblock" where
  "decode_sb b = \<lparr>sb_size = pg_word b 0, nblocks = pg_word b 1, ninodes = pg_word b 2, nlog = pg_word b 3,
     logstart = pg_word b 4, inodestart = pg_word b 5, bmapstart = pg_word b 6\<rparr>"

definition readsb :: "u32 \<Rightarrow> 'z bkern_scheme \<Rightarrow> (superblock \<times> 'z bkern_scheme) outcome" where
  "readsb d s = run (bread d 1 s) (\<lambda>(k, s).
     let sb = decode_sb (bdata (bufs s ! k)) in run (brelse k s) (\<lambda>s. Inr (sb, s)))"

text \<open>\<^verbatim>\<open>install_trans\<close>, from the log block number \<open>tail\<close> on.\<close>

primrec install_from :: "nat \<Rightarrow> nat \<Rightarrow> 'z lkern_scheme \<Rightarrow> 'z lkern_scheme outcome" where
  "install_from 0 tail s = Inr s"
| "install_from (Suc n) tail s =
     run (bread (log_dev s) (log_start s + of_nat tail + 1) s) (\<lambda>(lbuf, s).
     run (bread (log_dev s) (lh_block s ! tail) s) (\<lambda>(dbuf, s).
     run (bwrite dbuf (bset dbuf (\<lambda>_. bdata (bufs s ! lbuf)) s)) (\<lambda>s.
     run (brelse lbuf s) (\<lambda>s.
     run (brelse dbuf s) (\<lambda>s. install_from n (Suc tail) s)))))"

definition install_trans :: "'z lkern_scheme \<Rightarrow> 'z lkern_scheme outcome" where
  "install_trans s = install_from (nat (lh_n s)) 0 s"

definition read_head :: "'z lkern_scheme \<Rightarrow> 'z lkern_scheme outcome" where
  "read_head s = run (bread (log_dev s) (log_start s) s) (\<lambda>(k, s).
     let lh = bdata (bufs s ! k); n = sint (pg_word lh 0)
     in if n > int LOGSIZE then Inl OutOfBounds
        else brelse k (s\<lparr>lh_n := n,
          lh_block := map (\<lambda>i. if int i < n then pg_word lh (Suc i) else lh_block s ! i) [0..<LOGSIZE]\<rparr>))"

text \<open>The header block as \<^verbatim>\<open>write_head\<close> fills it in.\<close>

definition put_head :: "int \<Rightarrow> u32 list \<Rightarrow> block \<Rightarrow> block" where
  "put_head n bs b = fold (\<lambda>i b. pg_set_word b (Suc i) (bs ! i)) [0..<nat n] (pg_set_word b 0 (word_of_int n))"

definition write_head :: "'z lkern_scheme \<Rightarrow> 'z lkern_scheme outcome" where
  "write_head s = run (bread (log_dev s) (log_start s) s) (\<lambda>(k, s).
     run (bwrite k (bset k (put_head (lh_n s) (lh_block s)) s)) (brelse k))"

definition recover_from_log :: "'z lkern_scheme \<Rightarrow> 'z lkern_scheme outcome" where
  "recover_from_log s = run (read_head s) (\<lambda>s. run (install_trans s) (\<lambda>s. write_head (s\<lparr>lh_n := 0\<rparr>)))"

definition initlog :: "u32 \<Rightarrow> 'z lkern_scheme \<Rightarrow> 'z lkern_scheme outcome" where
  "initlog d s =
     (if 4 * (LOGSIZE + 1) \<ge> BSIZE then Inl (Panic ''initlog: too big logheader'')
      else run (readsb d s) (\<lambda>(sb, s).
        recover_from_log (s\<lparr>log_start := logstart sb, log_size := sint (nlog sb), log_dev := d\<rparr>)))"

definition begin_op :: "'z lkern_scheme \<Rightarrow> 'z lkern_scheme outcome" where
  "begin_op s =
     (if committing s then Inl (Sleep ChLog)
      else if lh_n s + (outstanding s + 1) * int MAXOPBLOCKS > int LOGSIZE then Inl (Sleep ChLog)
      else Inr (s\<lparr>outstanding := outstanding s + 1\<rparr>))"

primrec write_log_from :: "nat \<Rightarrow> nat \<Rightarrow> 'z lkern_scheme \<Rightarrow> 'z lkern_scheme outcome" where
  "write_log_from 0 tail s = Inr s"
| "write_log_from (Suc n) tail s =
     run (bread (log_dev s) (log_start s + of_nat tail + 1) s) (\<lambda>(dst, s).
     run (bread (log_dev s) (lh_block s ! tail) s) (\<lambda>(src, s).
     run (bwrite dst (bset dst (\<lambda>_. bdata (bufs s ! src)) s)) (\<lambda>s.
     run (brelse src s) (\<lambda>s.
     run (brelse dst s) (\<lambda>s. write_log_from n (Suc tail) s)))))"

definition write_log :: "'z lkern_scheme \<Rightarrow> 'z lkern_scheme outcome" where
  "write_log s = write_log_from (nat (lh_n s)) 0 s"

definition commit :: "'z lkern_scheme \<Rightarrow> 'z lkern_scheme outcome" where
  "commit s =
     (if lh_n s > 0 then
        run (write_log s) (\<lambda>s. run (write_head s) (\<lambda>s. run (install_trans s) (\<lambda>s.
          write_head (s\<lparr>lh_n := 0\<rparr>))))
      else Inr s)"

definition end_op :: "'z lkern_scheme \<Rightarrow> 'z lkern_scheme outcome" where
  "end_op s =
     (let s = s\<lparr>outstanding := outstanding s - 1\<rparr>
      in if committing s then Inl (Panic ''log.committing'')
         else if outstanding s = 0 then
           run (commit (s\<lparr>committing := True\<rparr>)) (\<lambda>s. Inr (wakeup ChLog (s\<lparr>committing := False\<rparr>)))
         else Inr (wakeup ChLog s))"

definition log_write :: "nat \<Rightarrow> 'z lkern_scheme \<Rightarrow> 'z lkern_scheme outcome" where
  "log_write k s =
     (if lh_n s \<ge> int LOGSIZE \<or> lh_n s \<ge> log_size s - 1 then Inl (Panic ''too big a transaction'')
      else if outstanding s < 1 then Inl (Panic ''log_write outside of trans'')
      else let bn = blockno (bufs s ! k);
               i = (case scan (\<lambda>b. b = bn) (take (nat (lh_n s)) (lh_block s)) of Some i \<Rightarrow> i | None \<Rightarrow> nat (lh_n s));
               s = s\<lparr>lh_block := (lh_block s)[i := bn]\<rparr>;
               s = (if int i = lh_n s then s\<lparr>lh_n := lh_n s + 1\<rparr> else s)
           in Inr (upd_buf k (\<lambda>b. b\<lparr>dirty := True\<rparr>) s))"


section \<open>Frames\<close>

text \<open>
  What the block operations may change: the disk, the buffers, their order, and the process table (by
  \<^verbatim>\<open>wakeup\<close>). \<open>wrote ws s s'\<close> says in addition which disk writes happened.
\<close>

definition frame :: "'z bkern_scheme \<Rightarrow> 'z bkern_scheme \<Rightarrow> bool" where
  "frame s s' \<longleftrightarrow> (\<exists>p m w b r. s' = s\<lparr>ptable := p, memdisk := m, dwrites := w, bufs := b, mru := r\<rparr>)"

definition apply_writes :: "(u32 \<Rightarrow> block) \<Rightarrow> (u32 \<times> block) list \<Rightarrow> u32 \<Rightarrow> block" where
  "apply_writes d ws = fold (\<lambda>(b, x) d. d(b := x)) ws d"

definition wrote :: "(u32 \<times> block) list \<Rightarrow> 'z bkern_scheme \<Rightarrow> 'z bkern_scheme \<Rightarrow> bool" where
  "wrote ws s s' \<longleftrightarrow> dwrites s' = dwrites s @ ws \<and> memdisk s' = apply_writes (memdisk s) ws \<and> frame s s'"

definition dirty_blocks :: "'z bkern_scheme \<Rightarrow> u32 set" where
  "dirty_blocks s = {blockno (bufs s ! k) |k. k < NBUF \<and> dirty (bufs s ! k)}"

lemma apply_writes_Nil [simp]: "apply_writes d [] = d"
  by (simp add: apply_writes_def)

lemma apply_writes_append [simp]: "apply_writes d (ws @ vs) = apply_writes (apply_writes d ws) vs"
  by (simp add: apply_writes_def)

lemma apply_writes_Cons: "apply_writes d ((b, x) # ws) = apply_writes (d(b := x)) ws"
  by (simp add: apply_writes_def)

lemma apply_writes_at: "apply_writes d ws b = (case map_of (rev ws) b of None \<Rightarrow> d b | Some x \<Rightarrow> x)"
  by (induction ws rule: rev_induct) (auto simp: apply_writes_Cons)

lemma frameI: "frame s (s\<lparr>ptable := p, memdisk := m, dwrites := w, bufs := b, mru := r\<rparr>)"
  unfolding frame_def by blast

lemma frame_trans: "frame s s' \<Longrightarrow> frame s' s'' \<Longrightarrow> frame s s''"
proof -
  assume "frame s s'" "frame s' s''"
  then obtain p m w b r p' m' w' b' r' where "s' = s\<lparr>ptable := p, memdisk := m, dwrites := w, bufs := b, mru := r\<rparr>"
    "s'' = s'\<lparr>ptable := p', memdisk := m', dwrites := w', bufs := b', mru := r'\<rparr>"
    unfolding frame_def by blast
  then have "s'' = s\<lparr>ptable := p', memdisk := m', dwrites := w', bufs := b', mru := r'\<rparr>" by simp
  then show ?thesis unfolding frame_def by blast
qed

lemma frame_refl: "frame s s"
proof -
  have "s = s\<lparr>ptable := ptable s, memdisk := memdisk s, dwrites := dwrites s, bufs := bufs s, mru := mru s\<rparr>" by simp
  then show ?thesis unfolding frame_def by blast
qed

lemma frame_bufs: "frame s (s\<lparr>bufs := b\<rparr>)"
proof -
  have "s\<lparr>bufs := b\<rparr> = s\<lparr>ptable := ptable s, memdisk := memdisk s, dwrites := dwrites s, bufs := b, mru := mru s\<rparr>" by simp
  then show ?thesis unfolding frame_def by blast
qed

lemma frame_write: "s' = s\<lparr>memdisk := m, dwrites := w, bufs := b\<rparr> \<Longrightarrow> frame s s'"
proof -
  assume "s' = s\<lparr>memdisk := m, dwrites := w, bufs := b\<rparr>"
  then have "s' = s\<lparr>ptable := ptable s, memdisk := m, dwrites := w, bufs := b, mru := mru s\<rparr>" by simp
  then show ?thesis unfolding frame_def by blast
qed

lemma frame_wakeup: "s' = wakeup c (s\<lparr>mru := m, bufs := b\<rparr>) \<Longrightarrow> frame s s'"
proof -
  assume "s' = wakeup c (s\<lparr>mru := m, bufs := b\<rparr>)"
  then have "\<exists>p. s' = s\<lparr>ptable := p, memdisk := memdisk s, dwrites := dwrites s, bufs := b, mru := m\<rparr>"
    unfolding wakeup_def wakeup1_def by (cases s) auto
  then show ?thesis unfolding frame_def by blast
qed

lemma frame_sel:
  "frame s s' \<Longrightarrow> disksize s' = disksize s"
  by (auto simp: frame_def)

lemma frame_log:
  assumes "frame s s'"
  shows "disksize s' = disksize s" "log_start s' = log_start s" "log_size s' = log_size s" "outstanding s' = outstanding s"
    "committing s' = committing s" "log_dev s' = log_dev s" "lh_n s' = lh_n s" "lh_block s' = lh_block s"
  using assms by (auto simp: frame_def)

end
