(* ===== verification/LogCrash.thy ===== *)
theory LogCrash
  imports Log
begin

text \<open>
  Correctness of the log: what \<^verbatim>\<open>commit\<close> and \<^verbatim>\<open>recover_from_log\<close> write to the disk, in which order, and that a
  crash between any two of these writes loses either the whole transaction or nothing of it.
\<close>

section \<open>Held buffers\<close>

lemma dirty_blocks_cong:
  assumes "\<And>j. j < NBUF \<Longrightarrow> dirty (bufs s' ! j) = dirty (bufs s ! j)"
    and "\<And>j. j < NBUF \<Longrightarrow> dirty (bufs s ! j) \<Longrightarrow> blockno (bufs s' ! j) = blockno (bufs s ! j)"
  shows "dirty_blocks s' = dirty_blocks s"
  unfolding dirty_blocks_def using assms by (metis (no_types, lifting))

lemma dirty_blocks_unbusy:
  assumes "length (bufs s) = NBUF" "bufs s' = (bufs s)[k := (bufs s ! k)\<lparr>busy := v\<rparr>]"
  shows "dirty_blocks s' = dirty_blocks s"
  by (rule dirty_blocks_cong) (simp_all add: assms nth_update_cases)

lemma got_block_dirty: "got_block H bn s k s' \<Longrightarrow> dirty_blocks s' = dirty_blocks s"
  by (rule dirty_blocks_cong) (metis got_block_def holds_block_def)+

lemma got_block_frame: "got_block H bn s k s' \<Longrightarrow> frame s s' \<and> memdisk s' = memdisk s \<and> dwrites s' = dwrites s"
proof -
  assume "got_block H bn s k s'"
  then have e: "s' = s\<lparr>bufs := bufs s'\<rparr>" by (simp add: got_block_def)
  define b where "b = bufs s'"
  with e have "s' = s\<lparr>bufs := b\<rparr>" by simp
  then show ?thesis using frame_bufs [of s b] by simp
qed

lemma clean_bufI:
  assumes ok: "bcache_ok H s" and fin: "card (dirty_blocks s) + card H < NBUF"
  shows "clean_buf H s"
proof (rule ccontr)
  assume "\<not> clean_buf H s"
  then have sub: "{..<NBUF} \<subseteq> H \<union> {k. k < NBUF \<and> dirty (bufs s ! k)}" by (auto simp: clean_buf_def)
  let ?D = "{k. k < NBUF \<and> dirty (bufs s ! k)}"
  have "inj_on (\<lambda>k. blockno (bufs s ! k)) ?D"
    using bcache_okD(6,8) [OF ok] by (auto simp: inj_on_def)
  then have "card ?D = card ((\<lambda>k. blockno (bufs s ! k)) ` ?D)" by (simp add: card_image)
  also have "(\<lambda>k. blockno (bufs s ! k)) ` ?D = dirty_blocks s" by (auto simp: dirty_blocks_def)
  finally have "card ?D = card (dirty_blocks s)" .
  moreover have "finite H" using bcache_okD(4) [OF ok] by (rule finite_subset) simp
  then have "card {..<NBUF} \<le> card (H \<union> ?D)" using sub by (intro card_mono) auto
  then have "NBUF \<le> card H + card ?D" using card_Un_le [of H ?D] by simp
  ultimately show False using fin by simp
qed

lemma dirty_cached:
  assumes "bcache_ok H s" "bn \<in> dirty_blocks s"
  shows "\<exists>k < NBUF. dev (bufs s ! k) = 1 \<and> blockno (bufs s ! k) = bn"
  using assms bcache_okD(6) [OF assms(1)] by (auto simp: dirty_blocks_def)

text \<open>The held source and destination buffers of one round of \<^verbatim>\<open>write_log\<close> or \<^verbatim>\<open>install_trans\<close>.\<close>

lemma dirty_blocks_clear:
  assumes ok: "bcache_ok H s" and k: "k < NBUF" "holds_block (bufs s ! k) bd"
    and s': "bufs s' = (bufs s)[k := b]" "\<not> dirty b"
  shows "dirty_blocks s' = dirty_blocks s - {bd}"
proof -
  note D = bcache_okD [OF ok]
  have n: "bufs s' ! j = (if j = k then b else bufs s ! j)" if "j < NBUF" for j
    using that k D(1) by (simp add: s' nth_update_cases)
  have "blockno (bufs s ! j) \<noteq> bd" if "j < NBUF" "j \<noteq> k" "dirty (bufs s ! j)" for j
    using D(6) [of j] D(8) [of j k] that k by (auto simp: holds_block_def)
  moreover have "blockno (bufs s ! k) = bd" using k by (simp add: holds_block_def)
  ultimately have "x \<in> dirty_blocks s' \<longleftrightarrow> x \<in> dirty_blocks s \<and> x \<noteq> bd" for x
    using n s'(2) k(1) unfolding dirty_blocks_def mem_Collect_eq by metis
  then show ?thesis by blast
qed

lemma copy_held:
  assumes ok: "bcache_ok {ks, kd} s" and ne: "ks \<noteq> kd"
    and src: "holds_block (bufs s ! ks) bs" "dirty (bufs s ! ks) \<or> bdata (bufs s ! ks) = memdisk s bs"
    and dst: "holds_block (bufs s ! kd) bd" "bd < disksize s"
  shows "\<exists>s'. run (bwrite kd (bset kd (\<lambda>_. bdata (bufs s ! ks)) s)) (\<lambda>s. run (brelse ks s) (brelse kd)) = Inr s' \<and>
    bcache_ok {} s' \<and> view s' = (view s)(bd := view s bs) \<and> wrote [(bd, view s bs)] s s' \<and>
    dirty_blocks s' = dirty_blocks s - {bd}"
proof -
  note D = bcache_okD [OF ok]
  have k: "ks < NBUF" "kd < NBUF" using D(4) by auto
  have bne: "bs \<noteq> bd" using D(8) [of ks kd] k ne src(1) dst(1) by (auto simp: holds_block_def)
  have vs: "view s bs = bdata (bufs s ! ks)" by (rule view_hit [OF ok k(1) src(1)])
  define s1 where "s1 = bset kd (\<lambda>_. bdata (bufs s ! ks)) s"
  have b1: "bufs s1 = (bufs s)[kd := (bufs s ! kd)\<lparr>bdata := bdata (bufs s ! ks)\<rparr>]" "memdisk s1 = memdisk s"
    "disksize s1 = disksize s" "dwrites s1 = dwrites s" by (simp_all add: s1_def bset_def)
  have ok1: "bcache_ok {ks, kd} s1" and v1: "view s1 = (view s)(bd := view s bs)"
    using bset_ok [OF ok _ dst(1), of "\<lambda>_. bdata (bufs s ! ks)"] by (simp_all add: s1_def vs)
  have n1: "bufs s1 ! ks = bufs s ! ks" "bufs s1 ! kd = (bufs s ! kd)\<lparr>bdata := bdata (bufs s ! ks)\<rparr>"
    using b1 k ne D(1) by simp_all
  have h1: "holds_block (bufs s1 ! kd) bd" using dst(1) n1 by (simp add: holds_block_def)
  obtain s2 where w2: "bwrite kd s1 = Inr s2" and ok2: "bcache_ok {ks, kd} s2" and v2: "view s2 = view s1"
    and m2: "memdisk s2 = (memdisk s)(bd := view s bs)"
    and b2: "bufs s2 = (bufs s1)[kd := (bufs s1 ! kd)\<lparr>dirty := False\<rparr>]"
    and d2: "dwrites s2 = dwrites s @ [(bd, view s bs)]"
    and f2: "s2 = s1\<lparr>memdisk := memdisk s2, dwrites := dwrites s2, bufs := bufs s2\<rparr>"
    using bwrite_ok [OF ok1 _ h1] dst(2) b1 v1 by auto
  have n2: "bufs s2 ! ks = bufs s ! ks" "bufs s2 ! kd = (bufs s ! kd)\<lparr>bdata := bdata (bufs s ! ks), dirty := False\<rparr>"
    using b2 n1 k ne bcache_okD(1) [OF ok1] by simp_all
  obtain s3 where w3: "brelse ks s2 = Inr s3" and ok3: "bcache_ok ({ks, kd} - {ks}) s3" and v3: "view s3 = view s2"
    and m3: "memdisk s3 = memdisk s2" and b3: "bufs s3 = (bufs s2)[ks := (bufs s2 ! ks)\<lparr>busy := False\<rparr>]"
    and d3: "dwrites s3 = dwrites s2"
    and f3: "s3 = wakeup (ChBuf ks) (s2\<lparr>mru := mru s3, bufs := bufs s3\<rparr>)"
    using brelse_ok [OF ok2, of ks bs] src n2 m2 bne by (auto simp: holds_block_def)
  have n3: "bufs s3 ! kd = bufs s2 ! kd" "kd \<in> {ks, kd} - {ks}" using b3 ne by simp_all
  obtain s4 where w4: "brelse kd s3 = Inr s4" and ok4: "bcache_ok ({ks, kd} - {ks} - {kd}) s4" and v4: "view s4 = view s3"
    and m4: "memdisk s4 = memdisk s3" and b4: "bufs s4 = (bufs s3)[kd := (bufs s3 ! kd)\<lparr>busy := False\<rparr>]"
    and d4: "dwrites s4 = dwrites s3"
    and f4: "s4 = wakeup (ChBuf kd) (s3\<lparr>mru := mru s4, bufs := bufs s4\<rparr>)"
    using brelse_ok [OF ok3, of kd bd] n3 n2 dst(1) vs m2 m3 by (auto simp: holds_block_def)
  have "run (bwrite kd (bset kd (\<lambda>_. bdata (bufs s ! ks)) s)) (\<lambda>s. run (brelse ks s) (brelse kd)) = Inr s4"
    using w2 w3 w4 by (simp flip: s1_def)
  moreover have "bcache_ok {} s4" using ok4 by (simp add: insert_Diff_if ne split: if_splits)
  moreover have "frame s s4"
  proof -
    have "s1 = s\<lparr>bufs := bufs s1\<rparr>" by (simp add: s1_def bset_def upd_buf_def)
    then have "frame s s1" using frame_bufs [of s "bufs s1"] by simp
    then show ?thesis using frame_write [OF f2] frame_wakeup [OF f3] frame_wakeup [OF f4] by (blast intro: frame_trans)
  qed
  moreover have "dirty_blocks s4 = dirty_blocks s - {bd}"
  proof -
    have "dirty_blocks s2 = dirty_blocks s - {bd}"
      by (rule dirty_blocks_clear [OF ok k(2) dst(1)]) (use b2 b1 n1 in auto)
    moreover have "dirty_blocks s3 = dirty_blocks s2" "dirty_blocks s4 = dirty_blocks s3"
      using dirty_blocks_unbusy [OF bcache_okD(1) [OF ok2] b3] dirty_blocks_unbusy [OF bcache_okD(1) [OF ok3] b4] by auto
    ultimately show ?thesis by simp
  qed
  ultimately show ?thesis
    using v4 v3 v2 v1 m4 m3 m2 d4 d3 d2 by (auto simp: wrote_def apply_writes_def)
qed

lemma view_clean:
  assumes ok: "bcache_ok {} s" and "a \<notin> dirty_blocks s"
  shows "view s a = memdisk s a"
proof (rule view_eqI [OF ok])
  show "\<forall>k < NBUF. holds_block (bufs s ! k) a \<longrightarrow> bdata (bufs s ! k) = memdisk s a"
    using bcache_okD(7) [OF ok] assms(2) by (auto simp: holds_block_def dirty_blocks_def)
qed simp

lemma held_coherent:
  assumes ok: "bcache_ok {} s" and ok': "bcache_ok H s'" and k: "k < NBUF" "holds_block (bufs s' ! k) a"
    and same: "dirty_blocks s' = dirty_blocks s" "memdisk s' = memdisk s" "view s' = view s"
  shows "dirty (bufs s' ! k) \<or> bdata (bufs s' ! k) = memdisk s' a"
proof (cases "a \<in> dirty_blocks s")
  case True
  then have "a \<in> dirty_blocks s'" using same(1) by simp
  then obtain j where j: "j < NBUF" "dirty (bufs s' ! j)" "blockno (bufs s' ! j) = a" by (auto simp: dirty_blocks_def)
  then have "j = k" using bcache_okD(6) [OF ok' j(1)] bcache_okD(8) [OF ok', of j k] k by (simp add: holds_block_def)
  with j show ?thesis by simp
next
  case False
  then show ?thesis using view_clean [OF ok] view_hit [OF ok' k] same by simp
qed

lemma bread2_ok:
  assumes ok: "bcache_ok {} s" and ne: "a \<noteq> b" and lt: "a < disksize s" "b < disksize s"
    and room: "card (dirty_blocks s) < NBUF" "b \<in> dirty_blocks s \<or> card (dirty_blocks s) + 1 < NBUF"
  shows "\<exists>ka s1 kb s2. bread 1 a s = Inr (ka, s1) \<and> bread 1 b s1 = Inr (kb, s2) \<and> ka \<noteq> kb \<and> frame s s1 \<and>
    bcache_ok {ka, kb} s2 \<and> holds_block (bufs s2 ! ka) a \<and> holds_block (bufs s2 ! kb) b \<and> view s2 = view s \<and>
    dirty_blocks s2 = dirty_blocks s \<and> wrote [] s s2"
proof -
  have "clean_buf {} s" using clean_bufI [OF ok] room(1) by simp
  then obtain ka s1 where r1: "bread 1 a s = Inr (ka, s1)" and g1: "got_block {} a s ka s1"
    using bread_ok [OF ok _ lt(1)] by blast
  have k1: "ka < NBUF" "bcache_ok {ka} s1" "holds_block (bufs s1 ! ka) a" "view s1 = view s"
    using g1 by (simp_all add: got_block_def)
  note f1 = got_block_frame [OF g1] and d1 = got_block_dirty [OF g1]
  have room1: "clean_buf {ka} s1 \<or> (\<exists>k < NBUF. dev (bufs s1 ! k) = 1 \<and> blockno (bufs s1 ! k) = b)"
    using room(2) clean_bufI [OF k1(2)] dirty_cached [OF k1(2), of b] by (auto simp: d1)
  have free: "\<forall>k \<in> {ka}. \<not> (dev (bufs s1 ! k) = 1 \<and> blockno (bufs s1 ! k) = b)" using k1(3) ne by (simp add: holds_block_def)
  have "b < disksize s1" using lt(2) f1 frame_sel by metis
  then obtain kb s2 where r2: "bread 1 b s1 = Inr (kb, s2)" and g2: "got_block {ka} b s1 kb s2"
    using bread_ok [OF k1(2) room1 _ free] by blast
  have k2: "kb < NBUF" "ka \<noteq> kb" "bcache_ok {ka, kb} s2" "holds_block (bufs s2 ! kb) b" "view s2 = view s1"
    "bufs s2 ! ka = bufs s1 ! ka"
    using g2 by (auto simp: got_block_def insert_commute)
  note f2 = got_block_frame [OF g2] and d2 = got_block_dirty [OF g2]
  have "frame s s2" using f1 f2 frame_trans by blast
  then have "wrote [] s s2" using f1 f2 by (simp add: wrote_def)
  then show ?thesis
    using r1 r2 k1 k2 f1 d1 d2 by (intro exI [of _ ka] exI [of _ s1] exI [of _ kb] exI [of _ s2]) simp
qed

lemma wrote_trans: "wrote ws s s' \<Longrightarrow> wrote vs s' s'' \<Longrightarrow> wrote (ws @ vs) s s''"
  using frame_trans by (auto simp: wrote_def)

lemma wrote_frame: "wrote ws s s' \<Longrightarrow> frame s s'"
  by (simp add: wrote_def)

text \<open>One round of each of the two loops, reading source and destination in either order.\<close>

lemma copy_dst_first:
  assumes ok: "bcache_ok {} s" and ne: "bd \<noteq> bs" and lt: "bd < disksize s" "bs < disksize s"
    and room: "card (dirty_blocks s) < NBUF" "bs \<in> dirty_blocks s \<or> card (dirty_blocks s) + 1 < NBUF"
  shows "\<exists>kd s1 ks s2 s'. bread 1 bd s = Inr (kd, s1) \<and> frame s s1 \<and> bread 1 bs s1 = Inr (ks, s2) \<and>
    run (bwrite kd (bset kd (\<lambda>_. bdata (bufs s2 ! ks)) s2)) (\<lambda>s. run (brelse ks s) (brelse kd)) = Inr s' \<and>
    bcache_ok {} s' \<and> view s' = (view s)(bd := view s bs) \<and> wrote [(bd, view s bs)] s s' \<and>
    dirty_blocks s' = dirty_blocks s - {bd}"
proof -
  from bread2_ok [OF ok ne lt room] obtain kd s1 ks s2 where r: "bread 1 bd s = Inr (kd, s1)" "bread 1 bs s1 = Inr (ks, s2)"
    "kd \<noteq> ks" "frame s s1" "bcache_ok {kd, ks} s2" "holds_block (bufs s2 ! kd) bd" "holds_block (bufs s2 ! ks) bs"
    "view s2 = view s" "dirty_blocks s2 = dirty_blocks s" "wrote [] s s2" by blast
  have ok2: "bcache_ok {ks, kd} s2" using r(5) by (simp add: insert_commute)
  have "ks < NBUF" using bcache_okD(4) [OF ok2] by simp
  then have c: "dirty (bufs s2 ! ks) \<or> bdata (bufs s2 ! ks) = memdisk s2 bs"
    using held_coherent [OF ok ok2 _ r(7) r(9) _ r(8)] r(10) by (simp add: wrote_def)
  have "bd < disksize s2" using lt(1) frame_sel [OF wrote_frame [OF r(10)]] by simp
  from copy_held [OF ok2 r(3) [symmetric] r(7) c r(6) this] obtain s' where c:
    "run (bwrite kd (bset kd (\<lambda>_. bdata (bufs s2 ! ks)) s2)) (\<lambda>s. run (brelse ks s) (brelse kd)) = Inr s'"
    "bcache_ok {} s'" "view s' = (view s)(bd := view s bs)" "wrote [(bd, view s bs)] s2 s'"
    "dirty_blocks s' = dirty_blocks s - {bd}" unfolding r(8,9) by blast
  have "wrote [(bd, view s bs)] s s'" using wrote_trans [OF r(10) c(4)] by simp
  with r(1,2,4) c show ?thesis by blast
qed

lemma copy_src_first:
  assumes ok: "bcache_ok {} s" and ne: "bs \<noteq> bd" and lt: "bs < disksize s" "bd < disksize s"
    and room: "card (dirty_blocks s) < NBUF" "bd \<in> dirty_blocks s \<or> card (dirty_blocks s) + 1 < NBUF"
  shows "\<exists>ks s1 kd s2 s'. bread 1 bs s = Inr (ks, s1) \<and> frame s s1 \<and> bread 1 bd s1 = Inr (kd, s2) \<and>
    run (bwrite kd (bset kd (\<lambda>_. bdata (bufs s2 ! ks)) s2)) (\<lambda>s. run (brelse ks s) (brelse kd)) = Inr s' \<and>
    bcache_ok {} s' \<and> view s' = (view s)(bd := view s bs) \<and> wrote [(bd, view s bs)] s s' \<and>
    dirty_blocks s' = dirty_blocks s - {bd}"
proof -
  from bread2_ok [OF ok ne lt room] obtain ks s1 kd s2 where r: "bread 1 bs s = Inr (ks, s1)" "bread 1 bd s1 = Inr (kd, s2)"
    "ks \<noteq> kd" "frame s s1" "bcache_ok {ks, kd} s2" "holds_block (bufs s2 ! ks) bs" "holds_block (bufs s2 ! kd) bd"
    "view s2 = view s" "dirty_blocks s2 = dirty_blocks s" "wrote [] s s2" by blast
  have "ks < NBUF" using bcache_okD(4) [OF r(5)] by simp
  then have c: "dirty (bufs s2 ! ks) \<or> bdata (bufs s2 ! ks) = memdisk s2 bs"
    using held_coherent [OF ok r(5) _ r(6) r(9) _ r(8)] r(10) by (simp add: wrote_def)
  have "bd < disksize s2" using lt(2) frame_sel [OF wrote_frame [OF r(10)]] by simp
  from copy_held [OF r(5) r(3) r(6) c r(7) this] obtain s' where c:
    "run (bwrite kd (bset kd (\<lambda>_. bdata (bufs s2 ! ks)) s2)) (\<lambda>s. run (brelse ks s) (brelse kd)) = Inr s'"
    "bcache_ok {} s'" "view s' = (view s)(bd := view s bs)" "wrote [(bd, view s bs)] s2 s'"
    "dirty_blocks s' = dirty_blocks s - {bd}" unfolding r(8,9) by blast
  have "wrote [(bd, view s bs)] s s'" using wrote_trans [OF r(10) c(4)] by simp
  with r(1,2,4) c show ?thesis by blast
qed

lemma update_block:
  assumes ok: "bcache_ok {} s" and lt: "bn < disksize s" and room: "card (dirty_blocks s) < NBUF"
  shows "\<exists>k s1 s'. bread 1 bn s = Inr (k, s1) \<and> frame s s1 \<and> run (bwrite k (bset k f s1)) (brelse k) = Inr s' \<and>
    bcache_ok {} s' \<and> view s' = (view s)(bn := f (view s bn)) \<and> wrote [(bn, f (view s bn))] s s' \<and>
    dirty_blocks s' = dirty_blocks s - {bn}"
proof -
  have "clean_buf {} s" using clean_bufI [OF ok] room by simp
  then obtain k s1 where r: "bread 1 bn s = Inr (k, s1)" and g: "got_block {} bn s k s1"
    using bread_ok [OF ok _ lt] by blast
  have k: "k < NBUF" and ok1: "bcache_ok {k} s1" and h: "holds_block (bufs s1 ! k) bn" and v: "view s1 = view s"
    using g by (simp_all add: got_block_def)
  note f1 = got_block_frame [OF g] and d1 = got_block_dirty [OF g]
  define s2 where "s2 = bset k f s1"
  have ok2: "bcache_ok {k} s2" and v2: "view s2 = (view s)(bn := f (view s bn))"
    using bset_ok [OF ok1 _ h, of f] by (simp_all add: s2_def v)
  have b2: "bufs s2 = (bufs s1)[k := (bufs s1 ! k)\<lparr>bdata := f (bdata (bufs s1 ! k))\<rparr>]" by (simp add: s2_def bset_def)
  have h2: "holds_block (bufs s2 ! k) bn" using h k bcache_okD(1) [OF ok1] by (simp add: b2 holds_block_def)
  have f2: "frame s1 s2" using frame_bufs [of s1 "bufs s2"] by (simp add: s2_def bset_def upd_buf_def)
  have m2: "memdisk s2 = memdisk s1" "dwrites s2 = dwrites s1" by (simp_all add: s2_def bset_def)
  have "bn < disksize s2" using lt frame_sel f1 f2 by metis
  then obtain s3 where w3: "bwrite k s2 = Inr s3" and ok3: "bcache_ok {k} s3" and v3: "view s3 = view s2"
    and m3: "memdisk s3 = (memdisk s2)(bn := view s2 bn)" and b3: "bufs s3 = (bufs s2)[k := (bufs s2 ! k)\<lparr>dirty := False\<rparr>]"
    and d3: "dwrites s3 = dwrites s2 @ [(bn, view s2 bn)]" and e3: "s3 = s2\<lparr>memdisk := memdisk s3, dwrites := dwrites s3, bufs := bufs s3\<rparr>"
    using bwrite_ok [OF ok2 _ h2] by blast
  have h3: "holds_block (bufs s3 ! k) bn" using h2 k bcache_okD(1) [OF ok2] by (simp add: b3 holds_block_def)
  have "bdata (bufs s3 ! k) = memdisk s3 bn" using view_hit [OF ok3 k h3] v3 m3 by simp
  then obtain s4 where w4: "brelse k s3 = Inr s4" and ok4: "bcache_ok ({k} - {k}) s4" and v4: "view s4 = view s3"
    and m4: "memdisk s4 = memdisk s3" and b4: "bufs s4 = (bufs s3)[k := (bufs s3 ! k)\<lparr>busy := False\<rparr>]"
    and d4: "dwrites s4 = dwrites s3" and e4: "s4 = wakeup (ChBuf k) (s3\<lparr>mru := mru s4, bufs := bufs s4\<rparr>)"
    using brelse_ok [OF ok3 _ h3] by blast
  have "frame s s4" using f1 f2 frame_write [OF e3] frame_wakeup [OF e4] by (blast intro: frame_trans)
  then have "wrote [(bn, f (view s bn))] s s4" using f1 m2 m3 m4 d3 d4 v2 by (simp add: wrote_def apply_writes_def)
  moreover have "dirty_blocks s4 = dirty_blocks s - {bn}"
  proof -
    have "dirty_blocks s3 = dirty_blocks s1 - {bn}"
      by (rule dirty_blocks_clear [OF ok1 k h]) (use b2 b3 in auto)
    then show ?thesis using dirty_blocks_unbusy [OF bcache_okD(1) [OF ok3] b4] d1 by simp
  qed
  moreover have "run (bwrite k (bset k f s1)) (brelse k) = Inr s4" using w3 w4 by (simp flip: s2_def)
  ultimately show ?thesis using r f1 ok4 v4 v3 v2 by auto
qed

section \<open>The loops\<close>

definition in_log :: "'z lkern_scheme \<Rightarrow> u32 \<Rightarrow> bool" where
  "in_log s b \<longleftrightarrow> unat (log_start s) \<le> unat b \<and> unat b < unat (log_start s) + nat (log_size s)"

definition log_blk :: "'z lkern_scheme \<Rightarrow> nat \<Rightarrow> u32" where
  "log_blk s i = log_start s + of_nat i + 1"

definition log_geom :: "'z lkern_scheme \<Rightarrow> bool" where
  "log_geom s \<longleftrightarrow> log_dev s = 1 \<and> 0 < log_size s \<and> unat (log_start s) + nat (log_size s) \<le> unat (disksize s)"

lemma unat_log_blk:
  assumes "log_geom s" "int (Suc i) < log_size s"
  shows "unat (log_blk s i) = unat (log_start s) + Suc i"
proof -
  have "unat (log_start s) + Suc i < 2 ^ 32"
  proof -
    have "unat (log_start s) + nat (log_size s) < 2 ^ 32"
      using assms(1) unsigned_less [of "disksize s", where ?'a = nat] by (simp add: log_geom_def)
    then show ?thesis using assms(2) by linarith
  qed
  then have "unat (of_nat (unat (log_start s) + Suc i) :: u32) = unat (log_start s) + Suc i"
    by (simp only: unsigned_of_nat) (simp add: take_bit_nat_eq_self)
  then show ?thesis by (simp add: log_blk_def ac_simps)
qed

lemma log_blk_in:
  assumes "log_geom s" "int (Suc i) < log_size s"
  shows "in_log s (log_blk s i)" "log_blk s i < disksize s" "log_blk s i \<noteq> log_start s"
proof -
  note u = unat_log_blk [OF assms]
  show "in_log s (log_blk s i)" using u assms by (simp add: in_log_def)
  show "log_blk s i < disksize s" using u assms by (simp add: word_less_nat_alt log_geom_def) linarith
  show "log_blk s i \<noteq> log_start s" using u by auto
qed

lemma log_start_in: "log_geom s \<Longrightarrow> in_log s (log_start s) \<and> log_start s < disksize s"
  by (auto simp: log_geom_def in_log_def word_less_nat_alt)

lemma frame_in_log: "frame s s' \<Longrightarrow> in_log s' = in_log s \<and> log_blk s' = log_blk s \<and> log_geom s' = log_geom s"
  by (simp add: in_log_def [abs_def] log_blk_def [abs_def] log_geom_def frame_log)

definition log_copies :: "'z lkern_scheme \<Rightarrow> nat list \<Rightarrow> (u32 \<times> block) list" where
  "log_copies s is = map (\<lambda>i. (log_blk s i, view s (lh_block s ! i))) is"

definition installs :: "'z lkern_scheme \<Rightarrow> nat list \<Rightarrow> (u32 \<times> block) list" where
  "installs s is = map (\<lambda>i. (lh_block s ! i, view s (log_blk s i))) is"

definition homes_ok :: "'z lkern_scheme \<Rightarrow> nat set \<Rightarrow> bool" where
  "homes_ok s I \<longleftrightarrow> (\<forall>i \<in> I. lh_block s ! i < disksize s \<and> \<not> in_log s (lh_block s ! i))"

lemma frame_homes: "frame s s' \<Longrightarrow> homes_ok s' I = homes_ok s I"
  by (simp add: homes_ok_def frame_log frame_in_log)

lemma write_log_from_ok:
  assumes "bcache_ok {} s" "log_geom s" "int (tail + n) < log_size s" "homes_ok s {tail..<tail + n}"
    and "card (dirty_blocks s) < NBUF" "\<forall>b \<in> dirty_blocks s. \<not> in_log s b"
    and "\<forall>i \<in> {tail..<tail + n}. lh_block s ! i \<in> dirty_blocks s \<or> card (dirty_blocks s) + 1 < NBUF"
  shows "\<exists>s'. write_log_from n tail s = Inr s' \<and> bcache_ok {} s' \<and> wrote (log_copies s [tail..<tail + n]) s s' \<and>
    view s' = apply_writes (view s) (log_copies s [tail..<tail + n]) \<and> dirty_blocks s' = dirty_blocks s"
  using assms
proof (induction n arbitrary: tail s)
  case 0
  then show ?case by (simp add: log_copies_def wrote_def frame_refl)
next
  case (Suc n)
  let ?h = "lh_block s ! tail" and ?l = "log_blk s tail"
  have l: "in_log s ?l" "?l < disksize s" using log_blk_in [OF Suc.prems(2), of tail] Suc.prems(3) by simp_all
  have h: "\<not> in_log s ?h" "?h < disksize s" using Suc.prems(4) by (simp_all add: homes_ok_def)
  then have "?l \<noteq> ?h" using l by auto
  moreover have "?h \<in> dirty_blocks s \<or> card (dirty_blocks s) + 1 < NBUF" using Suc.prems(7) by auto
  ultimately obtain kd s1 ks s2 s' where r: "bread 1 ?l s = Inr (kd, s1)" "frame s s1" "bread 1 ?h s1 = Inr (ks, s2)"
    "run (bwrite kd (bset kd (\<lambda>_. bdata (bufs s2 ! ks)) s2)) (\<lambda>s. run (brelse ks s) (brelse kd)) = Inr s'"
    "bcache_ok {} s'" "view s' = (view s)(?l := view s ?h)" "wrote [(?l, view s ?h)] s s'"
    "dirty_blocks s' = dirty_blocks s - {?l}"
    using copy_dst_first [OF Suc.prems(1) _ l(2) h(2) Suc.prems(5)] by blast
  have f: "frame s s'" using r(7) by (rule wrote_frame)
  have d: "dirty_blocks s' = dirty_blocks s" using r(8) l(1) Suc.prems(6) by auto
  have e: "write_log_from (Suc n) tail s = write_log_from n (Suc tail) s'"
  proof -
    obtain s3 s4 where "bwrite kd (bset kd (\<lambda>_. bdata (bufs s2 ! ks)) s2) = Inr s3" "brelse ks s3 = Inr s4" "brelse kd s4 = Inr s'"
      using r(4) by (auto split: sum.splits simp: run_def)
    then show ?thesis using r(1,3) Suc.prems(2) frame_log [OF r(2)] by (simp add: log_geom_def log_blk_def)
  qed
  have "\<exists>s''. write_log_from n (Suc tail) s' = Inr s'' \<and> bcache_ok {} s'' \<and> wrote (log_copies s' [Suc tail..<Suc tail + n]) s' s'' \<and>
    view s'' = apply_writes (view s') (log_copies s' [Suc tail..<Suc tail + n]) \<and> dirty_blocks s'' = dirty_blocks s'"
  proof (rule Suc.IH)
    show "homes_ok s' {Suc tail..<Suc tail + n}" using Suc.prems(4) unfolding frame_homes [OF f] by (auto simp: homes_ok_def)
  qed (use Suc.prems r(5) in \<open>auto simp: frame_in_log [OF f] frame_log [OF f] d\<close>)
  moreover have "log_copies s' [Suc tail..<Suc tail + n] = log_copies s [Suc tail..<Suc tail + n]"
    unfolding log_copies_def
  proof (rule map_cong [OF refl])
    fix i assume "i \<in> set [Suc tail..<Suc tail + n]"
    then have "i \<in> {tail..<tail + Suc n}" by auto
    then have "lh_block s ! i \<noteq> ?l" using Suc.prems(4) l(1) unfolding homes_ok_def by metis
    then show "(log_blk s' i, view s' (lh_block s' ! i)) = (log_blk s i, view s (lh_block s ! i))"
      by (simp add: frame_in_log [OF f] frame_log [OF f] r(6))
  qed
  moreover have "log_copies s [tail..<tail + Suc n] = (?l, view s ?h) # log_copies s [Suc tail..<Suc tail + n]"
    by (simp add: log_copies_def upt_conv_Cons del: upt_Suc)
  ultimately show ?case using e d r(6) wrote_trans [OF r(7)] by (fastforce simp: apply_writes_Cons)
qed

lemma install_from_ok:
  assumes "bcache_ok {} s" "log_geom s" "int (tail + n) < log_size s" "homes_ok s {tail..<tail + n}"
    and "card (dirty_blocks s) < NBUF"
    and "\<forall>i \<in> {tail..<tail + n}. lh_block s ! i \<in> dirty_blocks s \<or> card (dirty_blocks s) + 1 < NBUF"
  shows "\<exists>s'. install_from n tail s = Inr s' \<and> bcache_ok {} s' \<and> wrote (installs s [tail..<tail + n]) s s' \<and>
    view s' = apply_writes (view s) (installs s [tail..<tail + n]) \<and>
    dirty_blocks s' = dirty_blocks s - (!) (lh_block s) ` {tail..<tail + n}"
  using assms
proof (induction n arbitrary: tail s)
  case 0
  then show ?case by (simp add: installs_def wrote_def frame_refl)
next
  case (Suc n)
  let ?h = "lh_block s ! tail" and ?l = "log_blk s tail"
  have l: "in_log s ?l" "?l < disksize s" using log_blk_in [OF Suc.prems(2), of tail] Suc.prems(3) by simp_all
  have h: "\<not> in_log s ?h" "?h < disksize s" using Suc.prems(4) by (simp_all add: homes_ok_def)
  then have "?l \<noteq> ?h" using l by auto
  moreover have room: "?h \<in> dirty_blocks s \<or> card (dirty_blocks s) + 1 < NBUF" using Suc.prems(6) by auto
  ultimately obtain ks s1 kd s2 s' where r: "bread 1 ?l s = Inr (ks, s1)" "frame s s1" "bread 1 ?h s1 = Inr (kd, s2)"
    "run (bwrite kd (bset kd (\<lambda>_. bdata (bufs s2 ! ks)) s2)) (\<lambda>s. run (brelse ks s) (brelse kd)) = Inr s'"
    "bcache_ok {} s'" "view s' = (view s)(?h := view s ?l)" "wrote [(?h, view s ?l)] s s'"
    "dirty_blocks s' = dirty_blocks s - {?h}"
    using copy_src_first [OF Suc.prems(1) _ l(2) h(2) Suc.prems(5)] by blast
  have f: "frame s s'" using r(7) by (rule wrote_frame)
  have fin: "finite (dirty_blocks s)" by (simp add: dirty_blocks_def)
  have c: "card (dirty_blocks s') < NBUF" "card (dirty_blocks s') + 1 < NBUF"
  proof -
    show 1: "card (dirty_blocks s') + 1 < NBUF"
      using room fin Suc.prems(5) card_Diff_singleton [of ?h "dirty_blocks s"] card_gt_0_iff [of "dirty_blocks s"]
      by (cases "?h \<in> dirty_blocks s") (auto simp: r(8))
    then show "card (dirty_blocks s') < NBUF" by simp
  qed
  have e: "install_from (Suc n) tail s = install_from n (Suc tail) s'"
  proof -
    obtain s3 s4 where "bwrite kd (bset kd (\<lambda>_. bdata (bufs s2 ! ks)) s2) = Inr s3" "brelse ks s3 = Inr s4" "brelse kd s4 = Inr s'"
      using r(4) by (auto split: sum.splits simp: run_def)
    then show ?thesis using r(1,3) Suc.prems(2) frame_log [OF r(2)] by (simp add: log_geom_def log_blk_def)
  qed
  have "\<exists>s''. install_from n (Suc tail) s' = Inr s'' \<and> bcache_ok {} s'' \<and> wrote (installs s' [Suc tail..<Suc tail + n]) s' s'' \<and>
    view s'' = apply_writes (view s') (installs s' [Suc tail..<Suc tail + n]) \<and>
    dirty_blocks s'' = dirty_blocks s' - (!) (lh_block s') ` {Suc tail..<Suc tail + n}"
  proof (rule Suc.IH)
    show "homes_ok s' {Suc tail..<Suc tail + n}" using Suc.prems(4) unfolding frame_homes [OF f] by (auto simp: homes_ok_def)
  qed (use Suc.prems r(5) c in \<open>auto simp: frame_in_log [OF f] frame_log [OF f]\<close>)
  moreover have "installs s' [Suc tail..<Suc tail + n] = installs s [Suc tail..<Suc tail + n]"
    unfolding installs_def
  proof (rule map_cong [OF refl])
    fix i assume "i \<in> set [Suc tail..<Suc tail + n]"
    then have "int (Suc i) < log_size s" using Suc.prems(3) by auto
    then have "in_log s (log_blk s i)" using log_blk_in [OF Suc.prems(2)] by blast
    then have "log_blk s i \<noteq> ?h" using h(1) by auto
    then show "(lh_block s' ! i, view s' (log_blk s' i)) = (lh_block s ! i, view s (log_blk s i))"
      by (simp add: frame_in_log [OF f] frame_log [OF f] r(6))
  qed
  moreover have "installs s [tail..<tail + Suc n] = (?h, view s ?l) # installs s [Suc tail..<Suc tail + n]"
    by (simp add: installs_def upt_conv_Cons del: upt_Suc)
  moreover have "dirty_blocks s' - (!) (lh_block s') ` {Suc tail..<Suc tail + n} = dirty_blocks s - (!) (lh_block s) ` {tail..<tail + Suc n}"
  proof -
    have "{tail..<tail + Suc n} = insert tail {Suc tail..<Suc tail + n}" by auto
    then show ?thesis by (auto simp: r(8) frame_log [OF f])
  qed
  ultimately show ?case using e r(6) wrote_trans [OF r(7)] by (fastforce simp: apply_writes_Cons)
qed

lemma write_head_ok:
  assumes "bcache_ok {} s" "log_geom s" "card (dirty_blocks s) < NBUF"
  shows "\<exists>s'. write_head s = Inr s' \<and> bcache_ok {} s' \<and>
    wrote [(log_start s, put_head (lh_n s) (lh_block s) (view s (log_start s)))] s s' \<and>
    view s' = (view s)(log_start s := put_head (lh_n s) (lh_block s) (view s (log_start s))) \<and>
    dirty_blocks s' = dirty_blocks s - {log_start s}"
proof -
  have lt: "log_start s < disksize s" using log_start_in [OF assms(2)] by blast
  from update_block [OF assms(1) lt assms(3), of "put_head (lh_n s) (lh_block s)"]
  obtain k s1 s' where r: "bread 1 (log_start s) s = Inr (k, s1)" "frame s s1"
    "run (bwrite k (bset k (put_head (lh_n s) (lh_block s)) s1)) (brelse k) = Inr s'" "bcache_ok {} s'"
    "view s' = (view s)(log_start s := put_head (lh_n s) (lh_block s) (view s (log_start s)))"
    "wrote [(log_start s, put_head (lh_n s) (lh_block s) (view s (log_start s)))] s s'"
    "dirty_blocks s' = dirty_blocks s - {log_start s}" by blast
  have "write_head s = Inr s'" using r(1,3) frame_log [OF r(2)] assms(2) by (simp add: write_head_def log_geom_def)
  with r show ?thesis by blast
qed

section \<open>Commit and recovery\<close>

definition logged :: "'z lkern_scheme \<Rightarrow> u32 list" where
  "logged s = take (nat (lh_n s)) (lh_block s)"

text \<open>
  The invariant of the log between operations: the pinned buffers are those of the logged blocks, none of
  which lies in the log itself, and the header on disk is empty.
\<close>

definition log_ok :: "'z lkern_scheme \<Rightarrow> bool" where
  "log_ok s \<longleftrightarrow> bcache_ok {} s \<and> log_geom s \<and> length (lh_block s) = LOGSIZE \<and> 0 \<le> lh_n s \<and> lh_n s < int NBUF \<and>
     lh_n s < log_size s \<and> distinct (logged s) \<and> set (logged s) = dirty_blocks s \<and>
     (\<forall>b \<in> set (logged s). b < disksize s \<and> \<not> in_log s b) \<and> pg_word (memdisk s (log_start s)) 0 = 0"

lemma pg_word_put_head:
  assumes "0 \<le> n" "nat n \<le> m"
  shows "pg_word (put_head n bs b) 0 = word_of_int n"
    "i < nat n \<Longrightarrow> pg_word (put_head n bs b) (Suc i) = bs ! i"
proof -
  have *: "pg_word (fold (\<lambda>i b. pg_set_word b (Suc i) (bs ! i)) [0..<k] b) 0 = pg_word b 0 \<and>
    (\<forall>i < k. pg_word (fold (\<lambda>i b. pg_set_word b (Suc i) (bs ! i)) [0..<k] b) (Suc i) = bs ! i)" for k b
    by (induction k) (auto simp: pg_word_set less_Suc_eq)
  show "pg_word (put_head n bs b) 0 = word_of_int n"
    "i < nat n \<Longrightarrow> pg_word (put_head n bs b) (Suc i) = bs ! i"
    using * by (simp_all add: put_head_def)
qed

lemma lkern_upd [simp]:
  "bcache_ok H (s\<lparr>lh_n := n\<rparr>) = bcache_ok H s" "view (s\<lparr>lh_n := n\<rparr>) = view s" "dirty_blocks (s\<lparr>lh_n := n\<rparr>) = dirty_blocks s"
  "log_geom (s\<lparr>lh_n := n\<rparr>) = log_geom s" "in_log (s\<lparr>lh_n := n\<rparr>) = in_log s" "log_blk (s\<lparr>lh_n := n\<rparr>) = log_blk s"
  "bcache_ok H (s\<lparr>lh_block := l\<rparr>) = bcache_ok H s" "view (s\<lparr>lh_block := l\<rparr>) = view s"
  "dirty_blocks (s\<lparr>lh_block := l\<rparr>) = dirty_blocks s" "log_geom (s\<lparr>lh_block := l\<rparr>) = log_geom s"
  "in_log (s\<lparr>lh_block := l\<rparr>) = in_log s" "log_blk (s\<lparr>lh_block := l\<rparr>) = log_blk s"
  by (simp_all add: bcache_ok_def view_def [abs_def] cached_def dirty_blocks_def log_geom_def in_log_def [abs_def] log_blk_def [abs_def]
      cong: option.case_cong)

lemma wrote_lh_n: "wrote ws s s' \<Longrightarrow> wrote ws (s\<lparr>lh_n := n\<rparr>) (s'\<lparr>lh_n := n\<rparr>)"
proof -
  assume w: "wrote ws s s'"
  then obtain p m w b r where "s' = s\<lparr>ptable := p, memdisk := m, dwrites := w, bufs := b, mru := r\<rparr>"
    unfolding wrote_def frame_def by blast
  then have "s'\<lparr>lh_n := n\<rparr> = s\<lparr>lh_n := n, ptable := p, memdisk := m, dwrites := w, bufs := b, mru := r\<rparr>" by (cases s) simp
  then have "frame (s\<lparr>lh_n := n\<rparr>) (s'\<lparr>lh_n := n\<rparr>)" unfolding frame_def by blast
  with w show ?thesis by (simp add: wrote_def)
qed

lemma log_okD:
  assumes "log_ok s"
  shows "bcache_ok {} s" "log_geom s" "length (lh_block s) = LOGSIZE" "int (0 + nat (lh_n s)) < log_size s"
    "homes_ok s {0..<0 + nat (lh_n s)}" "card (dirty_blocks s) < NBUF" "\<forall>b \<in> dirty_blocks s. \<not> in_log s b"
    "\<forall>i \<in> {0..<0 + nat (lh_n s)}. lh_block s ! i \<in> dirty_blocks s"
    "logged s = map ((!) (lh_block s)) [0..<nat (lh_n s)]" "set (logged s) = dirty_blocks s"
    "pg_word (memdisk s (log_start s)) 0 = 0" "0 \<le> lh_n s"
proof -
  have n: "nat (lh_n s) \<le> length (lh_block s)" using assms by (auto simp: log_ok_def LOGSIZE_def NBUF_def)
  then show l: "logged s = map ((!) (lh_block s)) [0..<nat (lh_n s)]"
    by (intro nth_equalityI) (auto simp: logged_def)
  show "bcache_ok {} s" "log_geom s" "length (lh_block s) = LOGSIZE" "int (0 + nat (lh_n s)) < log_size s"
    "set (logged s) = dirty_blocks s" "\<forall>b \<in> dirty_blocks s. \<not> in_log s b" "0 \<le> lh_n s"
    "pg_word (memdisk s (log_start s)) 0 = 0"
    using assms by (simp_all add: log_ok_def)
  have "card (set (logged s)) \<le> length (logged s)" by (rule card_length)
  then show "card (dirty_blocks s) < NBUF" using assms n by (auto simp: log_ok_def logged_def)
  have "lh_block s ! i \<in> set (logged s)" if "i < nat (lh_n s)" for i using that by (auto simp: l)
  then show "homes_ok s {0..<0 + nat (lh_n s)}" "\<forall>i \<in> {0..<0 + nat (lh_n s)}. lh_block s ! i \<in> dirty_blocks s"
    using assms by (auto simp: log_ok_def homes_ok_def)
qed

text \<open>The writes of one commit, in their order: log blocks, header, home blocks, cleared header.\<close>

definition full_head :: "'z lkern_scheme \<Rightarrow> block" where
  "full_head s = put_head (lh_n s) (lh_block s) (view s (log_start s))"

definition commit_writes :: "'z lkern_scheme \<Rightarrow> (u32 \<times> block) list" where
  "commit_writes s = log_copies s [0..<nat (lh_n s)] @ [(log_start s, full_head s)] @
     map (\<lambda>b. (b, view s b)) (logged s) @ [(log_start s, put_head 0 (lh_block s) (full_head s))]"

lemma apply_writes_other: "b \<notin> fst ` set ws \<Longrightarrow> apply_writes d ws b = d b"
  by (induction ws arbitrary: d) (auto simp: apply_writes_Cons)

lemma apply_homes: "apply_writes d (map (\<lambda>b. (b, v b)) bs) b = (if b \<in> set bs then v b else d b)"
  by (induction bs arbitrary: d) (auto simp: apply_writes_Cons)

lemma log_copies_keys:
  assumes "log_geom s" "int n < log_size s" "(b, x) \<in> set (log_copies s [0..<n])"
  shows "in_log s b \<and> b \<noteq> log_start s"
proof -
  obtain i where i: "i < n" "b = log_blk s i" using assms(3) unfolding log_copies_def by fastforce
  then have "int (Suc i) < log_size s" using assms(2) by linarith
  then show ?thesis using log_blk_in(1,3) [OF assms(1)] i(2) by simp
qed

lemma apply_log_copies:
  assumes "log_geom s" "int n < log_size s" "i < n"
  shows "apply_writes d (log_copies s [0..<n]) (log_blk s i) = view s (lh_block s ! i)"
  using assms(2,3)
proof (induction n)
  case (Suc n)
  have a: "apply_writes d (log_copies s [0..<Suc n]) =
    (apply_writes d (log_copies s [0..<n]))(log_blk s n := view s (lh_block s ! n))"
    by (simp add: log_copies_def apply_writes_Cons)
  show ?case
  proof (cases "i = n")
    case False
    have "unat (log_blk s i) = unat (log_start s) + Suc i" "unat (log_blk s n) = unat (log_start s) + Suc n"
      using Suc.prems unat_log_blk [OF assms(1), of i] unat_log_blk [OF assms(1), of n] by simp_all
    with False have "log_blk s i \<noteq> log_blk s n" by auto
    moreover have "apply_writes d (log_copies s [0..<n]) (log_blk s i) = view s (lh_block s ! i)"
      using Suc False by simp
    ultimately show ?thesis by (simp add: a del: upt_Suc)
  qed (simp add: a del: upt_Suc)
qed simp

lemma commit_ok:
  assumes ok: "log_ok s" and n: "0 < lh_n s"
  shows "\<exists>s'. commit s = Inr s' \<and> wrote (commit_writes s) (s\<lparr>lh_n := 0\<rparr>) s' \<and> bcache_ok {} s' \<and> dirty_blocks s' = {} \<and>
    (\<forall>b. \<not> in_log s b \<longrightarrow> view s' b = view s b)"
proof -
  note D = log_okD [OF ok]
  let ?n = "nat (lh_n s)" and ?st = "log_start s"
  obtain s1 where s1: "write_log s = Inr s1" "bcache_ok {} s1" "wrote (log_copies s [0..<?n]) s s1"
    "view s1 = apply_writes (view s) (log_copies s [0..<?n])" "dirty_blocks s1 = dirty_blocks s"
    using write_log_from_ok [OF D(1,2,4,5,6,7)] D(8) by (auto simp: write_log_def)
  note f1 = wrote_frame [OF s1(3)]
  note g1 = frame_log [OF f1] frame_in_log [OF f1]
  have vst: "view s1 ?st = view s ?st"
    unfolding s1(4) by (rule apply_writes_other) (use log_copies_keys [OF D(2)] D(4) in force)
  obtain s2 where s2: "write_head s1 = Inr s2" "bcache_ok {} s2" "wrote [(?st, full_head s)] s1 s2"
    "view s2 = (view s1)(?st := full_head s)" "dirty_blocks s2 = dirty_blocks s"
    using write_head_ok [OF s1(2)] D(2,6,7) log_start_in [OF D(2)] vst by (auto simp: s1(5) g1 full_head_def)
  note f2 = wrote_frame [OF s2(3)]
  note g2 = frame_log [OF f2] frame_in_log [OF f2] frame_homes [OF f2] frame_homes [OF f1]
  obtain s3 where s3: "install_trans s2 = Inr s3" "bcache_ok {} s3" "wrote (installs s2 [0..<?n]) s2 s3"
    "view s3 = apply_writes (view s2) (installs s2 [0..<?n])" "dirty_blocks s3 = dirty_blocks s2 - (!) (lh_block s2) ` {0..<?n}"
    using install_from_ok [OF s2(2), of 0 ?n] D(2,4,5,6,8) by (auto simp: install_trans_def s2(5) g1 g2)
  have inst: "installs s2 [0..<?n] = map (\<lambda>b. (b, view s b)) (logged s)"
  proof -
    have "view s2 (log_blk s i) = view s (lh_block s ! i)" if "i < ?n" for i
    proof -
      have "int (Suc i) < log_size s" using that D(4) by linarith
      then have "view s2 (log_blk s i) = view s1 (log_blk s i)" using log_blk_in(3) [OF D(2)] by (simp add: s2(4))
      then show ?thesis using apply_log_copies [OF D(2) _ that, of "view s"] D(4) by (simp add: s1(4))
    qed
    then show ?thesis by (simp add: installs_def D(9) g1 g2)
  qed
  note f3 = wrote_frame [OF s3(3)]
  note g3 = frame_log [OF f3] frame_in_log [OF f3]
  have d3: "dirty_blocks s3 = {}" using s3(5) D(9,10) by (auto simp: s2(5) g1 g2)
  have v3: "view s3 ?st = full_head s"
    unfolding s3(4) inst by (subst apply_writes_other) (use D(7,10) log_start_in [OF D(2)] s2(4) in auto)
  obtain s4 where s4: "write_head (s3\<lparr>lh_n := 0\<rparr>) = Inr s4" "bcache_ok {} s4"
    "wrote [(?st, put_head 0 (lh_block s) (full_head s))] (s3\<lparr>lh_n := 0\<rparr>) s4"
    "view s4 = (view s3)(?st := put_head 0 (lh_block s) (full_head s))" "dirty_blocks s4 = {}"
    using write_head_ok [of "s3\<lparr>lh_n := 0\<rparr>"] s3(2) D(2) d3 v3 by (auto simp: g1 g2 g3 NBUF_def)
  have "wrote (log_copies s [0..<?n] @ [(?st, full_head s)] @ map (\<lambda>b. (b, view s b)) (logged s)) s s3"
    using wrote_trans [OF s1(3) wrote_trans [OF s2(3) s3(3)]] by (simp add: inst)
  from wrote_trans [OF wrote_lh_n [OF this] s4(3)] have w: "wrote (commit_writes s) (s\<lparr>lh_n := 0\<rparr>) s4"
    by (simp add: commit_writes_def)
  have "view s4 b = view s b" if "\<not> in_log s b" for b
  proof -
    have "b \<noteq> ?st" using that log_start_in [OF D(2)] by auto
    moreover have "view s1 b = view s b"
      unfolding s1(4) by (rule apply_writes_other) (use log_copies_keys [OF D(2)] D(4) that in force)
    ultimately show ?thesis by (simp add: s4(4) s3(4) inst s2(4) apply_homes)
  qed
  moreover have "commit s = Inr s4" using s1(1) s2(1) s3(1) s4(1) n by (simp add: commit_def)
  ultimately show ?thesis using w s4 by blast
qed

text \<open>What recovery finds on a disk with the geometry of \<open>s\<close>.\<close>

definition hdr_n :: "'z lkern_scheme \<Rightarrow> (u32 \<Rightarrow> block) \<Rightarrow> int" where
  "hdr_n s d = sint (pg_word (d (log_start s)) 0)"

definition replay :: "'z lkern_scheme \<Rightarrow> (u32 \<Rightarrow> block) \<Rightarrow> (u32 \<times> block) list" where
  "replay s d = map (\<lambda>i. (pg_word (d (log_start s)) (Suc i), d (log_blk s i))) [0..<nat (hdr_n s d)]"

definition disk_ok :: "'z lkern_scheme \<Rightarrow> (u32 \<Rightarrow> block) \<Rightarrow> bool" where
  "disk_ok s d \<longleftrightarrow> hdr_n s d \<le> int LOGSIZE \<and> hdr_n s d < log_size s \<and>
     (\<forall>i < nat (hdr_n s d). pg_word (d (log_start s)) (Suc i) < disksize s \<and> \<not> in_log s (pg_word (d (log_start s)) (Suc i)))"

text \<open>A machine \<open>c\<close> that has just booted from the disk \<open>d\<close>, with an empty cache and the geometry of \<open>s\<close>.\<close>

definition rebooted :: "'z lkern_scheme \<Rightarrow> (u32 \<Rightarrow> block) \<Rightarrow> 'y lkern_scheme \<Rightarrow> bool" where
  "rebooted s d c \<longleftrightarrow> memdisk c = d \<and> dwrites c = [] \<and> bcache_ok {} c \<and> dirty_blocks c = {} \<and> log_dev c = 1 \<and>
     length (lh_block c) = LOGSIZE \<and> log_start c = log_start s \<and> log_size c = log_size s \<and> disksize c = disksize s"

lemma put_head_0 [simp]: "put_head 0 bs b = pg_set_word b 0 0"
  by (simp add: put_head_def)

lemma read_head_ok:
  assumes ok: "bcache_ok {} c" "log_geom c" "dirty_blocks c = {}" and n: "hdr_n c (memdisk c) \<le> int LOGSIZE"
  shows "\<exists>l c'. read_head c = Inr c' \<and> bcache_ok {} c' \<and> dirty_blocks c' = {} \<and> view c' = view c \<and>
    wrote [] (c\<lparr>lh_n := hdr_n c (memdisk c), lh_block := l\<rparr>) c' \<and>
    (\<forall>i < nat (hdr_n c (memdisk c)). l ! i = pg_word (memdisk c (log_start c)) (Suc i))"
proof -
  let ?st = "log_start c"
  have v: "view c ?st = memdisk c ?st" using view_clean [OF ok(1)] ok(3) by simp
  have "clean_buf {} c" using clean_bufI [OF ok(1)] ok(3) by (simp add: NBUF_def)
  then obtain k c1 where r: "bread 1 ?st c = Inr (k, c1)" and g: "got_block {} ?st c k c1"
    using bread_ok [OF ok(1)] log_start_in [OF ok(2)] by blast
  have k: "bcache_ok {k} c1" "holds_block (bufs c1 ! k) ?st" "bdata (bufs c1 ! k) = memdisk c ?st" "view c1 = view c"
    using g v by (simp_all add: got_block_def)
  note f = got_block_frame [OF g] and d = got_block_dirty [OF g]
  define l where "l = map (\<lambda>i. if int i < hdr_n c (memdisk c) then pg_word (memdisk c ?st) (Suc i) else lh_block c1 ! i) [0..<LOGSIZE]"
  define c2 where "c2 = c1\<lparr>lh_n := hdr_n c (memdisk c), lh_block := l\<rparr>"
  have c2: "bcache_ok {k} c2" "bufs c2 = bufs c1" "view c2 = view c" "memdisk c2 = memdisk c" "dwrites c2 = dwrites c"
    "dirty_blocks c2 = {}"
    using k d f ok(3) by (simp_all add: c2_def)
  obtain c' where c': "brelse k c2 = Inr c'" "bcache_ok ({k} - {k}) c'" "view c' = view c" "memdisk c' = memdisk c"
    "bufs c' = (bufs c2)[k := (bufs c2 ! k)\<lparr>busy := False\<rparr>]" "dwrites c' = dwrites c"
    "c' = wakeup (ChBuf k) (c2\<lparr>mru := mru c', bufs := bufs c'\<rparr>)"
    using brelse_ok [OF c2(1), of k ?st] k(2,3) c2(2-5) by auto
  have "read_head c = Inr c'"
    using r ok(2) n c'(1) frame_log [OF conjunct1 [OF f]]
    by (simp add: read_head_def Let_def log_geom_def k(3) hdr_n_def c2_def l_def del: upt_Suc cong: if_cong)
  moreover have "dirty_blocks c' = {}" using dirty_blocks_unbusy [OF bcache_okD(1) [OF c2(1)] c'(5)] c2(6) by simp
  moreover have "wrote [] (c\<lparr>lh_n := hdr_n c (memdisk c), lh_block := l\<rparr>) c'"
  proof -
    have "c1 = c\<lparr>bufs := bufs c1\<rparr>" using g by (simp add: got_block_def)
    then have "c2 = c\<lparr>bufs := bufs c1, lh_n := hdr_n c (memdisk c), lh_block := l\<rparr>" unfolding c2_def by simp
    also have "\<dots> = c\<lparr>lh_n := hdr_n c (memdisk c), lh_block := l, bufs := bufs c1\<rparr>" by (cases c) simp
    finally have "frame (c\<lparr>lh_n := hdr_n c (memdisk c), lh_block := l\<rparr>) c2" using frame_bufs by metis
    then have "frame (c\<lparr>lh_n := hdr_n c (memdisk c), lh_block := l\<rparr>) c'"
      using frame_wakeup [OF c'(7)] frame_trans by blast
    with c'(4,6) show ?thesis by (simp add: wrote_def)
  qed
  moreover have "\<forall>i < nat (hdr_n c (memdisk c)). l ! i = pg_word (memdisk c ?st) (Suc i)"
    using n by (auto simp: l_def simp del: upt_Suc)
  ultimately show ?thesis using c' by auto
qed

lemma frame_geom_upd: "log_geom (c\<lparr>lh_n := n, lh_block := l\<rparr>) = log_geom c"
  by simp

lemma recover_ok:
  assumes c: "rebooted s d c" and geom: "log_geom s" and d: "disk_ok s d"
  shows "\<exists>c'. recover_from_log c = Inr c' \<and> memdisk c' = apply_writes d (dwrites c') \<and>
    dwrites c' = replay s d @ [(log_start s, pg_set_word (d (log_start s)) 0 0)]"
proof -
  let ?st = "log_start s" and ?n = "nat (hdr_n s d)"
  have ok: "bcache_ok {} c" "dirty_blocks c = {}" "memdisk c = d" "dwrites c = []" using c by (simp_all add: rebooted_def)
  have gc: "log_geom c" "log_start c = ?st" "in_log c = in_log s" "log_blk c = log_blk s" "disksize c = disksize s"
    "log_size c = log_size s" "hdr_n c = hdr_n s"
    using c geom by (simp_all add: rebooted_def log_geom_def in_log_def [abs_def] log_blk_def [abs_def] hdr_n_def [abs_def])
  have n: "hdr_n c (memdisk c) \<le> int LOGSIZE" using d by (simp add: gc ok disk_ok_def)
  obtain l c1 where c1: "read_head c = Inr c1" "bcache_ok {} c1" "dirty_blocks c1 = {}" "view c1 = view c"
    "wrote [] (c\<lparr>lh_n := hdr_n s d, lh_block := l\<rparr>) c1" "\<forall>i < ?n. l ! i = pg_word (d ?st) (Suc i)"
    using read_head_ok [OF ok(1) gc(1) ok(2) n] by (auto simp: gc ok)
  note f1 = wrote_frame [OF c1(5)]
  have g1: "log_geom c1" "in_log c1 = in_log s" "log_blk c1 = log_blk s" "lh_n c1 = hdr_n s d" "lh_block c1 = l"
    "disksize c1 = disksize s" "log_size c1 = log_size s" "log_start c1 = ?st" "dwrites c1 = []" "memdisk c1 = d"
    using frame_log [OF f1] frame_in_log [OF f1] c1(5) gc ok by (simp_all add: wrote_def)
  have v: "view c b = d b" for b using view_clean [OF ok(1)] ok by simp
  have sz: "0 < log_size s" using geom by (simp add: log_geom_def)
  have szn: "int (0 + ?n) < log_size c1" using d sz by (auto simp: g1 disk_ok_def)
  have homes: "homes_ok c1 {0..<0 + ?n}" using d c1(6) by (simp add: homes_ok_def g1 disk_ok_def)
  obtain c2 where c2: "install_trans c1 = Inr c2" "bcache_ok {} c2" "wrote (installs c1 [0..<?n]) c1 c2"
    "view c2 = apply_writes (view c1) (installs c1 [0..<?n])" "dirty_blocks c2 = {}"
    using install_from_ok [OF c1(2) g1(1) szn homes] by (auto simp: install_trans_def g1 c1(3) NBUF_def)
  have inst: "installs c1 [0..<?n] = replay s d" using c1(6) by (simp add: installs_def replay_def g1 c1(4) v)
  note f2 = wrote_frame [OF c2(3)]
  note g2 = frame_log [OF f2] frame_in_log [OF f2]
  have "?st \<notin> fst ` set (replay s d)"
    using d log_start_in [OF geom] by (auto simp: replay_def disk_ok_def)
  then have "view c2 ?st = d ?st" by (simp add: c2(4) inst apply_writes_other c1(4) v)
  then obtain c3 where c3: "write_head (c2\<lparr>lh_n := 0\<rparr>) = Inr c3" "wrote [(?st, pg_set_word (d ?st) 0 0)] (c2\<lparr>lh_n := 0\<rparr>) c3"
    using write_head_ok [of "c2\<lparr>lh_n := 0\<rparr>"] c2(2,5) g1 by (auto simp: g2 NBUF_def)
  have "wrote (replay s d @ [(?st, pg_set_word (d ?st) 0 0)]) (c1\<lparr>lh_n := 0\<rparr>) c3"
    using wrote_trans [OF wrote_lh_n [OF c2(3)] c3(2)] by (simp add: inst)
  then show ?thesis using c1(1) c2(1) c3(1) g1 by (simp add: recover_from_log_def wrote_def)
qed

text \<open>Disks from which recovery restores the blocks \<open>t\<close> outside the log.\<close>

definition recovers :: "'z lkern_scheme \<Rightarrow> (u32 \<Rightarrow> block) \<Rightarrow> (u32 \<Rightarrow> block) \<Rightarrow> bool" where
  "recovers s t d \<longleftrightarrow> disk_ok s d \<and> (\<forall>b. \<not> in_log s b \<longrightarrow> apply_writes d (replay s d) b = t b)"

lemma replay_cong:
  assumes "d' (log_start s) = d (log_start s)" "\<And>i. i < nat (hdr_n s d) \<Longrightarrow> d' (log_blk s i) = d (log_blk s i)"
  shows "hdr_n s d' = hdr_n s d \<and> replay s d' = replay s d \<and> disk_ok s d' = disk_ok s d"
proof -
  have "hdr_n s d' = hdr_n s d" using assms(1) by (simp add: hdr_n_def)
  then show ?thesis using assms by (simp add: replay_def disk_ok_def)
qed

lemma empty_header_recovers:
  assumes "0 < log_size s" "pg_word (d (log_start s)) 0 = 0" "\<And>b. \<not> in_log s b \<Longrightarrow> d b = t b"
  shows "recovers s t d"
  using assms by (simp add: recovers_def disk_ok_def replay_def hdr_n_def)

lemma apply_writes_again: "apply_writes (apply_writes d (take j ws)) ws = apply_writes d ws"
proof
  fix b
  show "apply_writes (apply_writes d (take j ws)) ws b = apply_writes d ws b"
  proof (cases "map_of (rev ws) b")
    case None
    then have "b \<notin> fst ` set ws" by (simp add: map_of_eq_None_iff)
    then have "b \<notin> fst ` set (take j ws)" using set_take_subset [of j ws] by blast
    with \<open>b \<notin> fst ` set ws\<close> show ?thesis by (simp add: apply_writes_other)
  next
    case (Some x)
    then show ?thesis by (simp add: apply_writes_at)
  qed
qed

lemma crash_in_recovery:
  assumes r: "recovers s t d" and geom: "log_geom s"
  shows "recovers s t (apply_writes d (take j (replay s d @ [(log_start s, pg_set_word (d (log_start s)) 0 0)])))"
proof (cases "j \<le> length (replay s d)")
  case True
  let ?d = "apply_writes d (take j (replay s d))"
  have k: "?d b = d b" if "in_log s b" for b
  proof (rule apply_writes_other)
    have "b \<notin> fst ` set (replay s d)" using r that by (auto simp: recovers_def disk_ok_def replay_def)
    then show "b \<notin> fst ` set (take j (replay s d))" using set_take_subset [of j "replay s d"] by blast
  qed
  have "in_log s (log_blk s i)" if "i < nat (hdr_n s d)" for i
  proof (rule log_blk_in(1) [OF geom])
    have "hdr_n s d < log_size s" using r by (simp add: recovers_def disk_ok_def)
    then show "int (Suc i) < log_size s" using that by linarith
  qed
  then have "hdr_n s ?d = hdr_n s d \<and> replay s ?d = replay s d \<and> disk_ok s ?d = disk_ok s d"
    using k log_start_in [OF geom] by (intro replay_cong) auto
  then show ?thesis using r True by (simp add: recovers_def apply_writes_again)
next
  case False
  then have "take j (replay s d @ [(log_start s, pg_set_word (d (log_start s)) 0 0)]) =
    replay s d @ [(log_start s, pg_set_word (d (log_start s)) 0 0)]" by simp
  moreover have "recovers s t ((apply_writes d (replay s d))(log_start s := pg_set_word (d (log_start s)) 0 0))"
    using geom r log_start_in [OF geom] by (intro empty_header_recovers) (auto simp: log_geom_def recovers_def)
  ultimately show ?thesis by (simp add: apply_writes_Cons)
qed

lemma crash_in_commit:
  assumes ok: "log_ok s"
  shows "recovers s (if j \<le> nat (lh_n s) then memdisk s else view s) (apply_writes (memdisk s) (take j (commit_writes s)))"
proof -
  note D = log_okD [OF ok]
  let ?n = "nat (lh_n s)" and ?st = "log_start s" and ?L = "log_copies s [0..<nat (lh_n s)]" and ?I = "map (\<lambda>b. (b, view s b)) (logged s)"
  have lens: "length ?L = ?n" "length ?I = ?n" by (simp_all add: log_copies_def D(9))
  have sz: "0 < log_size s" using D(2) by (simp add: log_geom_def)
  have keys: "b \<notin> fst ` set ?L" if "\<not> in_log s b \<or> b = ?st" for b using log_copies_keys [OF D(2), of ?n] D(4) that by force
  have take_keys: "b \<notin> fst ` set (take j ?L)" if "\<not> in_log s b \<or> b = ?st" for b
    using keys [OF that] set_take_subset [of j ?L] by blast
  have clean: "memdisk s b = view s b" if "b \<notin> set (logged s)" for b using view_clean [OF D(1)] that D(10) by simp
  have homes: "\<not> in_log s b" if "b \<in> set (logged s)" for b using that D(7,10) by simp
  consider (early) "j \<le> ?n" | (middle) m where "j = Suc (?n + m)" "m \<le> ?n" | (late) "j \<ge> 2 * ?n + 2"
  proof -
    have "j = Suc (?n + (j - Suc ?n))" "j - Suc ?n \<le> ?n" if "\<not> j \<le> ?n" "\<not> j \<ge> 2 * ?n + 2" using that by linarith+
    then show ?thesis using that by blast
  qed
  then show ?thesis
  proof cases
    case early
    then have "take j (commit_writes s) = take j ?L" by (simp add: commit_writes_def lens)
    moreover have "recovers s (memdisk s) (apply_writes (memdisk s) (take j ?L))"
      by (rule empty_header_recovers) (use D(11) sz take_keys in \<open>auto simp: apply_writes_other\<close>)
    ultimately show ?thesis using early by simp
  next
    case middle
    let ?d1 = "(apply_writes (memdisk s) ?L)(?st := full_head s)"
    define d where d: "d = apply_writes ?d1 (take m ?I)"
    have t: "take j (commit_writes s) = ?L @ (?st, full_head s) # take m ?I"
      using middle lens by (simp add: commit_writes_def)
    have log: "d b = ?d1 b" if "in_log s b" for b
      unfolding d using that homes by (intro apply_writes_other) (auto dest!: in_set_takeD)
    have st: "d ?st = full_head s" using log log_start_in [OF D(2)] by simp
    have n: "hdr_n s d = lh_n s"
      using st D(12) ok sint_small [of "lh_n s"] pg_word_put_head(1) [OF D(12) order_refl]
      by (simp add: hdr_n_def full_head_def log_ok_def NBUF_def)
    have blk: "d (log_blk s i) = view s (lh_block s ! i)" if "i < ?n" for i
    proof -
      have "int (Suc i) < log_size s" using that D(4) by linarith
      then have "in_log s (log_blk s i)" "log_blk s i \<noteq> ?st" using log_blk_in [OF D(2)] by blast+
      then show ?thesis using log apply_log_copies [OF D(2) _ that, of "memdisk s"] D(4) by simp
    qed
    have hdr: "pg_word (d ?st) (Suc i) = lh_block s ! i" if "i < ?n" for i
      unfolding st using pg_word_put_head(2) [OF D(12) order_refl that] by (simp add: full_head_def)
    have "replay s d = ?I" using blk hdr by (simp add: replay_def n D(9))
    moreover have "disk_ok s d"
      using hdr D(4,5,3) ok by (auto simp: disk_ok_def n homes_ok_def log_ok_def NBUF_def LOGSIZE_def)
    moreover have "apply_writes d ?I b = view s b" if "\<not> in_log s b" for b
    proof -
      have "b \<noteq> ?st" using that log_start_in [OF D(2)] by auto
      then have "?d1 b = memdisk s b" using apply_writes_other [OF keys] that by simp
      then show ?thesis by (simp only: d apply_writes_again apply_homes) (auto simp: clean)
    qed
    ultimately have "recovers s (view s) d" by (simp add: recovers_def)
    moreover have "\<not> j \<le> ?n" using middle by simp
    ultimately show ?thesis by (simp add: t d apply_writes_Cons)
  next
    case late
    then have t: "take j (commit_writes s) = commit_writes s" using lens by (simp add: commit_writes_def)
    have "recovers s (view s) (apply_writes (memdisk s) (commit_writes s))"
    proof (rule empty_header_recovers [OF sz])
      fix b assume b: "\<not> in_log s b"
      then have "b \<noteq> ?st" using log_start_in [OF D(2)] by auto
      then show "apply_writes (memdisk s) (commit_writes s) b = view s b"
        using apply_writes_other [OF keys, of b "memdisk s"] b
        by (simp add: commit_writes_def apply_writes_Cons apply_homes clean)
    qed (simp add: commit_writes_def apply_writes_Cons)
    moreover have "\<not> j \<le> ?n" using late by simp
    ultimately show ?thesis by (simp add: t)
  qed
qed

section \<open>Atomicity\<close>

text \<open>
  Power failures: the machine stops after \<open>j\<close> of the writes of a recovery and boots again from what is then
  on the disk, any number of times.
\<close>

inductive survives :: "'z lkern_scheme \<Rightarrow> (u32 \<Rightarrow> block) \<Rightarrow> (u32 \<Rightarrow> block) \<Rightarrow> bool" for s where
  no_crash: "survives s d d"
| crash: "survives s d d' \<Longrightarrow> rebooted s d' (c :: lkern) \<Longrightarrow> recover_from_log c = Inr c' \<Longrightarrow>
    survives s d (apply_writes d' (take j (dwrites c')))"

lemma survives_recovers: "survives s d d' \<Longrightarrow> log_geom s \<Longrightarrow> recovers s t d \<Longrightarrow> recovers s t d'"
proof (induction rule: survives.induct)
  case (crash d d' c c' j)
  then have r: "recovers s t d'" by blast
  then have "dwrites c' = replay s d' @ [(log_start s, pg_set_word (d' (log_start s)) 0 0)]"
    using recover_ok [OF crash.hyps(2) crash.prems(1)] crash.hyps(3) by (auto simp: recovers_def)
  then show ?case using crash_in_recovery [OF r crash.prems(1), of j] by simp
qed

text \<open>The disk after the first \<open>j\<close> writes between the states \<open>s\<close> and \<open>s'\<close>.\<close>

definition crash_disk :: "'z lkern_scheme \<Rightarrow> 'z lkern_scheme \<Rightarrow> nat \<Rightarrow> u32 \<Rightarrow> block" where
  "crash_disk s s' j = apply_writes (memdisk s) (take j (drop (length (dwrites s)) (dwrites s')))"

text \<open>C1. Crash atomicity of the log. \<^verbatim>\<open>commit\<close> of a non-empty transaction succeeds, keeps the invariant and
  the content of every block outside the log. If the machine stops after any number \<open>j\<close> of its disk
  writes, and again any number of times during the recoveries that follow, then the next
  \<^verbatim>\<open>recover_from_log\<close> succeeds, leaves an empty log, and every block outside the log has its content from
  before the transaction, when the crash came before the header write, and its new content otherwise: never
  a mixture.\<close>

theorem log_commit_atomic:
  assumes "log_ok s" "0 < lh_n s"
  shows "\<exists>s'. commit s = Inr s' \<and> log_ok s' \<and> lh_n s' = 0 \<and> (\<forall>b. \<not> in_log s b \<longrightarrow> view s' b = view s b) \<and>
    (\<forall>j d c. survives s (crash_disk s s' j) d \<longrightarrow> rebooted s d (c :: lkern) \<longrightarrow>
       (\<exists>c'. recover_from_log c = Inr c' \<and> hdr_n s (memdisk c') = 0 \<and>
          (\<forall>b. \<not> in_log s b \<longrightarrow> memdisk c' b = (if j \<le> nat (lh_n s) then memdisk s b else view s b))))"
proof -
  note D = log_okD [OF assms(1)]
  obtain s' where s': "commit s = Inr s'" "wrote (commit_writes s) (s\<lparr>lh_n := 0\<rparr>) s'" "bcache_ok {} s'" "dirty_blocks s' = {}"
    "\<forall>b. \<not> in_log s b \<longrightarrow> view s' b = view s b"
    using commit_ok [OF assms] by blast
  have w: "dwrites s' = dwrites s @ commit_writes s" "memdisk s' = apply_writes (memdisk s) (commit_writes s)"
    using s'(2) by (simp_all add: wrote_def)
  note f = frame_log [OF wrote_frame [OF s'(2)], simplified] frame_in_log [OF wrote_frame [OF s'(2)], simplified]
  have "log_ok s'"
    using s'(3,4) D(2,3) w by (simp add: log_ok_def f logged_def NBUF_def log_geom_def commit_writes_def apply_writes_Cons)
  moreover have "\<exists>c'. recover_from_log c = Inr c' \<and> hdr_n s (memdisk c') = 0 \<and>
      (\<forall>b. \<not> in_log s b \<longrightarrow> memdisk c' b = (if j \<le> nat (lh_n s) then memdisk s b else view s b))"
    if crashes: "survives s (crash_disk s s' j) d" "rebooted s d c" for j d and c :: lkern
  proof -
    have "crash_disk s s' j = apply_writes (memdisk s) (take j (commit_writes s))" by (simp add: crash_disk_def w)
    then have r: "recovers s (if j \<le> nat (lh_n s) then memdisk s else view s) d"
      using survives_recovers [OF crashes(1) D(2)] crash_in_commit [OF assms(1), of j] by simp
    then obtain c' where c': "recover_from_log c = Inr c'" "memdisk c' = apply_writes d (dwrites c')"
      "dwrites c' = replay s d @ [(log_start s, pg_set_word (d (log_start s)) 0 0)]"
      using recover_ok [OF crashes(2) D(2)] by (auto simp: recovers_def)
    have "hdr_n s (memdisk c') = 0" using c' by (simp add: hdr_n_def apply_writes_Cons)
    moreover have "memdisk c' b = (if j \<le> nat (lh_n s) then memdisk s b else view s b)" if "\<not> in_log s b" for b
    proof -
      have "b \<noteq> log_start s" using that log_start_in [OF D(2)] by auto
      then have "memdisk c' b = apply_writes d (replay s d) b" using c' by (simp add: apply_writes_Cons)
      then show ?thesis using r that by (simp add: recovers_def split: if_splits)
    qed
    ultimately show ?thesis using c'(1) by blast
  qed
  ultimately show ?thesis using s' f by blast
qed

text \<open>A transaction of one block, number 40, cached and changed in buffer 0, and the machine after a crash.\<close>

definition lbuf :: "nat \<Rightarrow> buf" where
  "lbuf k = \<lparr>busy = False, valid = (k = 0), dirty = (k = 0), dev = (if k = 0 then 1 else -1), blockno = 40, bdata = (\<lambda>_. 7)\<rparr>"

definition lboot :: "(u32 \<Rightarrow> block) \<Rightarrow> lkern" where
  "lboot d = bkern.extend (mkern.extend mxworld \<lparr>memdisk = d, disksize = 1000, dwrites = [],
       bufs = replicate NBUF (lbuf 1), mru = [0..<NBUF]\<rparr>)
     \<lparr>log_start = 2, log_size = 30, outstanding = 0, committing = True, log_dev = 1, lh_n = 0, lh_block = replicate LOGSIZE 0\<rparr>"

definition lworld :: lkern where
  "lworld = (lboot (\<lambda>_ _. 0))\<lparr>bufs := map lbuf [0..<NBUF], lh_n := 1, lh_block := 40 # replicate 29 0\<rparr>"

lemma lboot_sel [simp]:
  "memdisk (lboot d) = d" "disksize (lboot d) = 1000" "dwrites (lboot d) = []" "bufs (lboot d) = replicate NBUF (lbuf 1)"
  "mru (lboot d) = [0..<NBUF]" "log_start (lboot d) = 2" "log_size (lboot d) = 30" "log_dev (lboot d) = 1"
  "lh_block (lboot d) = replicate LOGSIZE 0"
  by (simp_all add: lboot_def bkern.defs mkern.defs)

lemma lworld_ok: "log_ok lworld" "lh_n lworld = 1" "view lworld 40 = (\<lambda>_. 7)" "\<not> in_log lworld 40"
proof -
  have b: "bufs lworld ! k = lbuf k" if "k < NBUF" for k using that by (simp add: lworld_def NBUF_def)
  have c: "bcache_ok {} lworld"
    using b by (auto simp: bcache_ok_def lbuf_def split: if_splits) (auto simp: lworld_def)
  have "dirty_blocks lworld = {40}" using b by (auto simp: dirty_blocks_def lbuf_def NBUF_def split: if_splits intro: exI [of _ 0])
  then show "log_ok lworld"
    using c by (simp add: log_ok_def log_geom_def logged_def lworld_def LOGSIZE_def NBUF_def in_log_def word_less_nat_alt
        pg_word_def load_le32_def)
  show "lh_n lworld = 1" by (simp add: lworld_def)
  show "\<not> in_log lworld 40" by (simp add: in_log_def lworld_def)
  show "view lworld 40 = (\<lambda>_. 7)"
    using view_hit [OF c, of 0 40] b [of 0] by (simp add: NBUF_def holds_block_def lbuf_def)
qed

lemma lboot_rebooted: "rebooted lworld d (lboot d)"
proof -
  have "bcache_ok {} (lboot d)" by (auto simp: bcache_ok_def lbuf_def)
  moreover have "dirty_blocks (lboot d) = {}" by (auto simp: dirty_blocks_def lbuf_def)
  ultimately show ?thesis by (simp add: rebooted_def lworld_def)
qed

theorem log_commit_atomic_witness:
  "\<exists>s'. commit lworld = Inr s' \<and> log_ok s' \<and>
    (\<exists>c'. recover_from_log (lboot (crash_disk lworld s' 1)) = Inr c' \<and> memdisk c' 40 = (\<lambda>_. 0)) \<and>
    (\<exists>c'. recover_from_log (lboot (crash_disk lworld s' 2)) = Inr c' \<and> memdisk c' 40 = (\<lambda>_. 7))"
proof -
  have m: "memdisk lworld 40 = (\<lambda>_. 0)" by (simp add: lworld_def)
  obtain s' where s': "commit lworld = Inr s'" "log_ok s'"
    "\<And>j d c. survives lworld (crash_disk lworld s' j) d \<Longrightarrow> rebooted lworld d (c :: lkern) \<Longrightarrow>
       (\<exists>c'. recover_from_log c = Inr c' \<and> hdr_n lworld (memdisk c') = 0 \<and>
          (\<forall>b. \<not> in_log lworld b \<longrightarrow> memdisk c' b = (if j \<le> nat (lh_n lworld) then memdisk lworld b else view lworld b)))"
    using log_commit_atomic [OF lworld_ok(1)] lworld_ok(2) by auto
  have "\<exists>c'. recover_from_log (lboot (crash_disk lworld s' j)) = Inr c' \<and>
    memdisk c' 40 = (if j \<le> 1 then (\<lambda>_. 0) else (\<lambda>_. 7))" for j
    using s'(3) [OF no_crash lboot_rebooted, of j] lworld_ok(2-4) m by auto
  from this [of 1] this [of 2] s'(1,2) show ?thesis by simp
qed

end
