(* ===== verification/Fs.thy ===== *)
theory Fs
  imports Log
begin

text \<open>
  The file system (\<^verbatim>\<open>fs.c\<close>): block allocator, inodes, file contents, directories and path names. An inode
  pointer is an index into \<open>icache\<close>. The buffer a caller passes to be filled is a list of bytes in the
  result; a buffer it passes to be read is a function from offsets to bytes. A path is the list of its
  bytes before the terminating NUL. The table of device functions \<^verbatim>\<open>devsw\<close> is an argument of the
  operations that dispatch through it.
\<close>

section \<open>State\<close>

definition NDIRECT :: nat where "NDIRECT = 12"
definition NINDIRECT :: nat where "NINDIRECT = 128"
definition MAXFILE :: nat where "MAXFILE = NDIRECT + NINDIRECT"
definition IPB :: nat where "IPB = 8"
definition BPB :: nat where "BPB = 4096"
definition NINODE :: nat where "NINODE = 50"
definition NDEV :: int where "NDEV = 10"
definition DIRSIZ :: nat where "DIRSIZ = 14"
definition ROOTDEV :: u32 where "ROOTDEV = 1"
definition ROOTINO :: u32 where "ROOTINO = 1"
definition T_DIR :: u16 where "T_DIR = 1"
definition T_FILE :: u16 where "T_FILE = 2"
definition T_DEV :: u16 where "T_DEV = 3"

record dinode =
  di_type :: u16
  di_major :: u16
  di_minor :: u16
  di_nlink :: u16
  di_size :: u32
  di_addrs :: "u32 list"

record inode =
  idev :: u32
  inum :: u32
  iref :: int
  ibusy :: bool
  ivalid :: bool
  itype :: u16
  major :: u16
  minor :: u16
  nlink :: u16
  isize :: u32
  addrs :: "u32 list"

record ikern = lkern +
  icache :: "inode list"
  sb :: superblock

record 's devsw =
  dev_read :: "(nat \<Rightarrow> u32 \<Rightarrow> 's \<Rightarrow> (int \<times> u8 list \<times> 's) outcome) option"
  dev_write :: "(nat \<Rightarrow> (nat \<Rightarrow> u8) \<Rightarrow> u32 \<Rightarrow> 's \<Rightarrow> (int \<times> 's) outcome) option"

record stat =
  st_type :: u16
  st_dev :: u32
  st_ino :: u32
  st_nlink :: u16
  st_size :: u32

definition upd_inode :: "nat \<Rightarrow> (inode \<Rightarrow> inode) \<Rightarrow> 'z ikern_scheme \<Rightarrow> 'z ikern_scheme" where
  "upd_inode i f s = s\<lparr>icache := (icache s)[i := f (icache s ! i)]\<rparr>"

text \<open>16-bit fields of a block, and the 64 bytes of a disk inode at an offset of its block.\<close>

definition load_le16 :: "block \<Rightarrow> nat \<Rightarrow> u16" where
  "load_le16 b a = ucast (b a) OR push_bit 8 (ucast (b (a + 1)))"

definition store_le16 :: "block \<Rightarrow> nat \<Rightarrow> u16 \<Rightarrow> block" where
  "store_le16 b a w = b(a := ucast w, a + 1 := ucast (drop_bit 8 w))"

definition get_dinode :: "block \<Rightarrow> nat \<Rightarrow> dinode" where
  "get_dinode b a = \<lparr>di_type = load_le16 b a, di_major = load_le16 b (a + 2), di_minor = load_le16 b (a + 4),
     di_nlink = load_le16 b (a + 6), di_size = load_le32 b (a + 8),
     di_addrs = map (\<lambda>i. load_le32 b (a + 12 + 4 * i)) [0..<NDIRECT + 1]\<rparr>"

definition put_dinode :: "dinode \<Rightarrow> nat \<Rightarrow> block \<Rightarrow> block" where
  "put_dinode d a b =
     (let b = store_le16 b a (di_type d); b = store_le16 b (a + 2) (di_major d); b = store_le16 b (a + 4) (di_minor d);
          b = store_le16 b (a + 6) (di_nlink d); b = store_le32 b (a + 8) (di_size d)
      in fold (\<lambda>i b. store_le32 b (a + 12 + 4 * i) (di_addrs d ! i)) [0..<NDIRECT + 1] b)"

definition dinode_off :: "u32 \<Rightarrow> nat" where
  "dinode_off n = 64 * (unat n mod IPB)"

definition IBLOCK :: "u32 \<Rightarrow> superblock \<Rightarrow> u32" where
  "IBLOCK n b = n div 8 + inodestart b"

definition BBLOCK :: "u32 \<Rightarrow> superblock \<Rightarrow> u32" where
  "BBLOCK n b = n div 4096 + bmapstart b"

section \<open>Blocks\<close>

definition bzero :: "u32 \<Rightarrow> u32 \<Rightarrow> 'z ikern_scheme \<Rightarrow> 'z ikern_scheme outcome" where
  "bzero d bno s = run (bread d bno s) (\<lambda>(k, s).
     run (log_write k (bset k (\<lambda>x. memset x 0 0 BSIZE) s)) (brelse k))"

text \<open>The inner loop of \<^verbatim>\<open>balloc\<close>: the first clear bit among the first \<open>n\<close>.\<close>

definition free_bit :: "block \<Rightarrow> nat \<Rightarrow> nat option" where
  "free_bit x n = scan (\<lambda>bi. \<not> bit (x (bi div 8)) (bi mod 8)) [0..<n]"

definition mark_bit :: "nat \<Rightarrow> block \<Rightarrow> block" where
  "mark_bit bi x = x(bi div 8 := set_bit (bi mod 8) (x (bi div 8)))"

definition clear_bit :: "nat \<Rightarrow> block \<Rightarrow> block" where
  "clear_bit bi x = x(bi div 8 := unset_bit (bi mod 8) (x (bi div 8)))"

function balloc_from :: "u32 \<Rightarrow> nat \<Rightarrow> 'z ikern_scheme \<Rightarrow> (u32 \<times> 'z ikern_scheme) outcome" where
  "balloc_from d b s =
     (if b < unat (sb_size (sb s)) then
        run (bread d (BBLOCK (of_nat b) (sb s)) s) (\<lambda>(k, s).
          case free_bit (bdata (bufs s ! k)) (min BPB (unat (sb_size (sb s)) - b)) of
            Some bi \<Rightarrow>
              run (log_write k (bset k (mark_bit bi) s)) (\<lambda>s.
              run (brelse k s) (\<lambda>s.
              run (bzero d (of_nat (b + bi)) s) (\<lambda>s. Inr (of_nat (b + bi), s))))
          | None \<Rightarrow> run (brelse k s) (balloc_from d (b + BPB)))
      else Inl (Panic ''balloc: out of blocks''))"
  by auto
termination
proof (relation "measure (\<lambda>(d, b, s). 2 ^ 32 - b)")
  fix d b and s :: "'z ikern_scheme"
  assume "b < unat (sb_size (sb s))"
  then have "b < 2 ^ 32" using unsigned_less [of "sb_size (sb s)", where ?'a = nat] by simp
  then show "((d, b + BPB, s'), d, b, s) \<in> measure (\<lambda>(d, b, s). 2 ^ 32 - b)" for s' :: "'z ikern_scheme"
    by (simp add: BPB_def)
qed simp

declare balloc_from.simps [simp del]

definition balloc :: "u32 \<Rightarrow> 'z ikern_scheme \<Rightarrow> (u32 \<times> 'z ikern_scheme) outcome" where
  "balloc d s = balloc_from d 0 s"

definition bfree :: "u32 \<Rightarrow> u32 \<Rightarrow> 'z ikern_scheme \<Rightarrow> 'z ikern_scheme outcome" where
  "bfree d b s =
     run (readsb d s) (\<lambda>(x, s).
     run (bread d (BBLOCK b x) (s\<lparr>sb := x\<rparr>)) (\<lambda>(k, s).
       let bi = unat b mod BPB
       in if \<not> bit (bdata (bufs s ! k) (bi div 8)) (bi mod 8) then Inl (Panic ''freeing free block'')
          else run (log_write k (bset k (clear_bit bi) s)) (brelse k)))"

section \<open>Inodes\<close>

definition iinit :: "u32 \<Rightarrow> 'z ikern_scheme \<Rightarrow> 'z ikern_scheme outcome" where
  "iinit d s = run (readsb d s) (\<lambda>(x, s). Inr (s\<lparr>sb := x\<rparr>))"

definition iget :: "u32 \<Rightarrow> u32 \<Rightarrow> 'z ikern_scheme \<Rightarrow> (nat \<times> 'z ikern_scheme) outcome" where
  "iget d n s =
     (case scan (\<lambda>ip. iref ip > 0 \<and> idev ip = d \<and> inum ip = n) (icache s) of
        Some i \<Rightarrow> Inr (i, upd_inode i (\<lambda>ip. ip\<lparr>iref := iref ip + 1\<rparr>) s)
      | None \<Rightarrow>
          (case scan (\<lambda>ip. iref ip = 0) (icache s) of
             None \<Rightarrow> Inl (Panic ''iget: no inodes'')
           | Some i \<Rightarrow> Inr (i, upd_inode i (\<lambda>ip. ip\<lparr>idev := d, inum := n, iref := 1, ibusy := False, ivalid := False\<rparr>) s)))"

primrec ialloc_from :: "nat list \<Rightarrow> u32 \<Rightarrow> u16 \<Rightarrow> 'z ikern_scheme \<Rightarrow> (nat \<times> 'z ikern_scheme) outcome" where
  "ialloc_from [] d t s = Inl (Panic ''ialloc: no inodes'')"
| "ialloc_from (n # ns) d t s =
     run (bread d (IBLOCK (of_nat n) (sb s)) s) (\<lambda>(k, s).
       let a = dinode_off (of_nat n)
       in if di_type (get_dinode (bdata (bufs s ! k)) a) = 0 then
            run (log_write k (bset k (\<lambda>x. store_le16 (memset x a 0 64) a t) s)) (\<lambda>s.
            run (brelse k s) (\<lambda>s. iget d (of_nat n) s))
          else run (brelse k s) (ialloc_from ns d t))"

definition ialloc :: "u32 \<Rightarrow> u16 \<Rightarrow> 'z ikern_scheme \<Rightarrow> (nat \<times> 'z ikern_scheme) outcome" where
  "ialloc d t s = ialloc_from [1..<unat (ninodes (sb s))] d t s"

definition disk_copy :: "inode \<Rightarrow> dinode" where
  "disk_copy ip = \<lparr>di_type = itype ip, di_major = major ip, di_minor = minor ip, di_nlink = nlink ip,
     di_size = isize ip, di_addrs = addrs ip\<rparr>"

definition iupdate :: "nat \<Rightarrow> 'z ikern_scheme \<Rightarrow> 'z ikern_scheme outcome" where
  "iupdate i s =
     (let ip = icache s ! i
      in run (bread (idev ip) (IBLOCK (inum ip) (sb s)) s) (\<lambda>(k, s).
         run (log_write k (bset k (put_dinode (disk_copy ip) (dinode_off (inum ip))) s)) (brelse k)))"

definition idup :: "nat \<Rightarrow> 'z ikern_scheme \<Rightarrow> 'z ikern_scheme" where
  "idup i s = upd_inode i (\<lambda>ip. ip\<lparr>iref := iref ip + 1\<rparr>) s"

definition ilock :: "nat \<Rightarrow> 'z ikern_scheme \<Rightarrow> 'z ikern_scheme outcome" where
  "ilock i s =
     (if iref (icache s ! i) < 1 then Inl (Panic ''ilock'')
      else if ibusy (icache s ! i) then Inl (Sleep (ChInode i))
      else
        let s = upd_inode i (\<lambda>ip. ip\<lparr>ibusy := True\<rparr>) s; ip = icache s ! i
        in if \<not> ivalid ip then
             run (bread (idev ip) (IBLOCK (inum ip) (sb s)) s) (\<lambda>(k, s).
               let dip = get_dinode (bdata (bufs s ! k)) (dinode_off (inum ip));
                   s = upd_inode i (\<lambda>ip. ip\<lparr>itype := di_type dip, major := di_major dip, minor := di_minor dip,
                     nlink := di_nlink dip, isize := di_size dip, addrs := di_addrs dip\<rparr>) s
               in run (brelse k s) (\<lambda>s.
                    let s = upd_inode i (\<lambda>ip. ip\<lparr>ivalid := True\<rparr>) s
                    in if itype (icache s ! i) = 0 then Inl (Panic ''ilock: no type'') else Inr s))
           else Inr s)"

definition iunlock :: "nat \<Rightarrow> 'z ikern_scheme \<Rightarrow> 'z ikern_scheme outcome" where
  "iunlock i s =
     (if \<not> ibusy (icache s ! i) \<or> iref (icache s ! i) < 1 then Inl (Panic ''iunlock'')
      else Inr (wakeup (ChInode i) (upd_inode i (\<lambda>ip. ip\<lparr>ibusy := False\<rparr>) s)))"

section \<open>Inode content\<close>

definition bmap :: "nat \<Rightarrow> nat \<Rightarrow> 'z ikern_scheme \<Rightarrow> (u32 \<times> 'z ikern_scheme) outcome" where
  "bmap i bn s =
     (let ip = icache s ! i
      in if bn < NDIRECT then
           if addrs ip ! bn = 0 then
             run (balloc (idev ip) s) (\<lambda>(addr, s). Inr (addr, upd_inode i (\<lambda>ip. ip\<lparr>addrs := (addrs ip)[bn := addr]\<rparr>) s))
           else Inr (addrs ip ! bn, s)
         else if bn - NDIRECT < NINDIRECT then
           run (if addrs ip ! NDIRECT = 0 then
                  run (balloc (idev ip) s) (\<lambda>(addr, s). Inr (addr, upd_inode i (\<lambda>ip. ip\<lparr>addrs := (addrs ip)[NDIRECT := addr]\<rparr>) s))
                else Inr (addrs ip ! NDIRECT, s)) (\<lambda>(addr, s).
           run (bread (idev ip) addr s) (\<lambda>(k, s).
             let addr = pg_word (bdata (bufs s ! k)) (bn - NDIRECT)
             in run (if addr = 0 then
                       run (balloc (idev ip) s) (\<lambda>(addr, s).
                       run (log_write k (bset k (\<lambda>x. pg_set_word x (bn - NDIRECT) addr) s)) (\<lambda>s. Inr (addr, s)))
                     else Inr (addr, s)) (\<lambda>(addr, s).
                run (brelse k s) (\<lambda>s. Inr (addr, s)))))
         else Inl (Panic ''bmap: out of range''))"

primrec itrunc_direct :: "nat list \<Rightarrow> nat \<Rightarrow> 'z ikern_scheme \<Rightarrow> 'z ikern_scheme outcome" where
  "itrunc_direct [] i s = Inr s"
| "itrunc_direct (j # js) i s =
     (let ip = icache s ! i
      in if addrs ip ! j \<noteq> 0 then
           run (bfree (idev ip) (addrs ip ! j) s) (\<lambda>s. itrunc_direct js i (upd_inode i (\<lambda>ip. ip\<lparr>addrs := (addrs ip)[j := 0]\<rparr>) s))
         else itrunc_direct js i s)"

primrec itrunc_indirect :: "nat list \<Rightarrow> u32 \<Rightarrow> nat \<Rightarrow> 'z ikern_scheme \<Rightarrow> 'z ikern_scheme outcome" where
  "itrunc_indirect [] d k s = Inr s"
| "itrunc_indirect (j # js) d k s =
     (let a = pg_word (bdata (bufs s ! k)) j
      in if a \<noteq> 0 then run (bfree d a s) (itrunc_indirect js d k) else itrunc_indirect js d k s)"

definition itrunc :: "nat \<Rightarrow> 'z ikern_scheme \<Rightarrow> 'z ikern_scheme outcome" where
  "itrunc i s =
     run (itrunc_direct [0..<NDIRECT] i s) (\<lambda>s.
     run (let ip = icache s ! i
          in if addrs ip ! NDIRECT \<noteq> 0 then
               run (bread (idev ip) (addrs ip ! NDIRECT) s) (\<lambda>(k, s).
               run (itrunc_indirect [0..<NINDIRECT] (idev ip) k s) (\<lambda>s.
               run (brelse k s) (\<lambda>s.
               run (bfree (idev ip) (addrs ip ! NDIRECT) s) (\<lambda>s.
               Inr (upd_inode i (\<lambda>ip. ip\<lparr>addrs := (addrs ip)[NDIRECT := 0]\<rparr>) s)))))
             else Inr s) (\<lambda>s.
     iupdate i (upd_inode i (\<lambda>ip. ip\<lparr>isize := 0\<rparr>) s)))"

definition iput :: "nat \<Rightarrow> 'z ikern_scheme \<Rightarrow> 'z ikern_scheme outcome" where
  "iput i s =
     (let ip = icache s ! i
      in run (if iref ip = 1 \<and> ivalid ip \<and> nlink ip = 0 then
                if ibusy ip then Inl (Panic ''iput busy'')
                else run (itrunc i (upd_inode i (\<lambda>ip. ip\<lparr>ibusy := True\<rparr>) s)) (\<lambda>s.
                     run (iupdate i (upd_inode i (\<lambda>ip. ip\<lparr>itype := 0\<rparr>) s)) (\<lambda>s.
                     Inr (wakeup (ChInode i) (upd_inode i (\<lambda>ip. ip\<lparr>ibusy := False, ivalid := False\<rparr>) s))))
              else Inr s) (\<lambda>s. Inr (upd_inode i (\<lambda>ip. ip\<lparr>iref := iref ip - 1\<rparr>) s)))"

definition iunlockput :: "nat \<Rightarrow> 'z ikern_scheme \<Rightarrow> 'z ikern_scheme outcome" where
  "iunlockput i s = run (iunlock i s) (iput i)"

definition stati :: "nat \<Rightarrow> 'z ikern_scheme \<Rightarrow> stat" where
  "stati i s = (let ip = icache s ! i in \<lparr>st_type = itype ip, st_dev = idev ip, st_ino = inum ip, st_nlink = nlink ip, st_size = isize ip\<rparr>)"

text \<open>The device function for the major number of an inode, if the range check and the table allow it.\<close>

definition dev_fun :: "('s devsw \<Rightarrow> 'f option) \<Rightarrow> 's devsw list \<Rightarrow> inode \<Rightarrow> 'f option" where
  "dev_fun f ds ip = (if sint (major ip) < 0 \<or> sint (major ip) \<ge> NDEV then None else f (ds ! nat (sint (major ip))))"

text \<open>The loop of \<^verbatim>\<open>readi\<close>; \<open>rem\<close> is \<^verbatim>\<open>n - tot\<close>.\<close>

function readi_loop :: "nat \<Rightarrow> nat \<Rightarrow> nat \<Rightarrow> 'z ikern_scheme \<Rightarrow> (u8 list \<times> 'z ikern_scheme) outcome" where
  "readi_loop i rem off s =
     (if rem = 0 then Inr ([], s)
      else
        run (bmap i (off div BSIZE) s) (\<lambda>(addr, s).
        run (bread (idev (icache s ! i)) addr s) (\<lambda>(k, s).
          let m = min rem (BSIZE - off mod BSIZE); xs = map (\<lambda>j. bdata (bufs s ! k) (off mod BSIZE + j)) [0..<m]
          in run (brelse k s) (\<lambda>s.
             run (readi_loop i (rem - m) (off + m) s) (\<lambda>(ys, s). Inr (xs @ ys, s))))))"
  by auto
termination
  by (relation "measure (\<lambda>(i, rem, off, s). rem)") (auto simp: BSIZE_def)

declare readi_loop.simps [simp del]

definition readi :: "'z ikern_scheme devsw list \<Rightarrow> nat \<Rightarrow> u32 \<Rightarrow> u32 \<Rightarrow> 'z ikern_scheme \<Rightarrow> (int \<times> u8 list \<times> 'z ikern_scheme) outcome" where
  "readi ds i off n s =
     (let ip = icache s ! i
      in if itype ip = T_DEV then
           (case dev_fun dev_read ds ip of None \<Rightarrow> Inr (-1, [], s) | Some f \<Rightarrow> f i n s)
         else if off > isize ip \<or> off + n < off then Inr (-1, [], s)
         else
           let n = (if off + n > isize ip then isize ip - off else n)
           in run (readi_loop i (unat n) (unat off) s) (\<lambda>(xs, s). Inr (sint n, xs, s)))"

text \<open>The loop of \<^verbatim>\<open>writei\<close>; \<open>at\<close> is the offset of \<^verbatim>\<open>src\<close> from its first value.\<close>

function writei_loop :: "nat \<Rightarrow> (nat \<Rightarrow> u8) \<Rightarrow> nat \<Rightarrow> nat \<Rightarrow> nat \<Rightarrow> 'z ikern_scheme \<Rightarrow> 'z ikern_scheme outcome" where
  "writei_loop i src at rem off s =
     (if rem = 0 then Inr s
      else
        run (bmap i (off div BSIZE) s) (\<lambda>(addr, s).
        run (bread (idev (icache s ! i)) addr s) (\<lambda>(k, s).
          let m = min rem (BSIZE - off mod BSIZE)
          in run (log_write k (bset k (\<lambda>x j. if off mod BSIZE \<le> j \<and> j < off mod BSIZE + m then src (at + (j - off mod BSIZE)) else x j) s)) (\<lambda>s.
             run (brelse k s) (writei_loop i src (at + m) (rem - m) (off + m))))))"
  by auto
termination
  by (relation "measure (\<lambda>(i, src, at, rem, off, s). rem)") (auto simp: BSIZE_def)

declare writei_loop.simps [simp del]

definition writei :: "'z ikern_scheme devsw list \<Rightarrow> nat \<Rightarrow> (nat \<Rightarrow> u8) \<Rightarrow> u32 \<Rightarrow> u32 \<Rightarrow> 'z ikern_scheme \<Rightarrow> (int \<times> 'z ikern_scheme) outcome" where
  "writei ds i src off n s =
     (let ip = icache s ! i
      in if itype ip = T_DEV then
           (case dev_fun dev_write ds ip of None \<Rightarrow> Inr (-1, s) | Some f \<Rightarrow> f i src n s)
         else if off > isize ip \<or> off + n < off then Inr (-1, s)
         else if unat (off + n) > MAXFILE * BSIZE then Inr (-1, s)
         else
           run (writei_loop i src 0 (unat n) (unat off) s) (\<lambda>s.
           let off = off + n
           in if n > 0 \<and> off > isize (icache s ! i) then
                run (iupdate i (upd_inode i (\<lambda>ip. ip\<lparr>isize := off\<rparr>) s)) (\<lambda>s. Inr (sint n, s))
              else Inr (sint n, s)))"

section \<open>Directories\<close>

definition namecmp :: "cstr \<Rightarrow> cstr \<Rightarrow> int" where
  "namecmp p q = strncmp p q DIRSIZ"

text \<open>A directory entry: a 16-bit inode number and 14 name bytes.\<close>

definition de_inum :: "u8 list \<Rightarrow> u16" where
  "de_inum de = load_le16 ((!) de) 0"

definition de_name :: "u8 list \<Rightarrow> cstr" where
  "de_name de j = (if j < DIRSIZ then de ! (2 + j) else 0)"

function dirlookup_loop :: "'z ikern_scheme devsw list \<Rightarrow> nat \<Rightarrow> cstr \<Rightarrow> nat \<Rightarrow> 'z ikern_scheme \<Rightarrow> ((nat \<times> nat) option \<times> 'z ikern_scheme) outcome" where
  "dirlookup_loop ds dp name off s =
     (if off < unat (isize (icache s ! dp)) then
        run (readi ds dp (of_nat off) 16 s) (\<lambda>(r, de, s).
          if r \<noteq> 16 then Inl (Panic ''dirlink read'')
          else if de_inum de = 0 then dirlookup_loop ds dp name (off + 16) s
          else if namecmp name (de_name de) = 0 then
            run (iget (idev (icache s ! dp)) (ucast (de_inum de)) s) (\<lambda>(i, s). Inr (Some (i, off), s))
          else dirlookup_loop ds dp name (off + 16) s)
      else Inr (None, s))"
  by auto
termination
proof (relation "measure (\<lambda>(ds, dp, name, off, s). 2 ^ 32 - off)", goal_cases)
  case (2 ds dp name off s)
  then show ?case using unsigned_less [of "isize (icache s ! dp)", where ?'a = nat] by simp
next
  case (3 ds dp name off s)
  then show ?case using unsigned_less [of "isize (icache s ! dp)", where ?'a = nat] by simp
qed simp

declare dirlookup_loop.simps [simp del]

text \<open>The result is the inode and the offset stored through \<^verbatim>\<open>poff\<close>.\<close>

definition dirlookup :: "'z ikern_scheme devsw list \<Rightarrow> nat \<Rightarrow> cstr \<Rightarrow> 'z ikern_scheme \<Rightarrow> ((nat \<times> nat) option \<times> 'z ikern_scheme) outcome" where
  "dirlookup ds dp name s =
     (if itype (icache s ! dp) \<noteq> T_DIR then Inl (Panic ''dirlookup not DIR'') else dirlookup_loop ds dp name 0 s)"

function empty_dirent :: "'z ikern_scheme devsw list \<Rightarrow> nat \<Rightarrow> nat \<Rightarrow> 'z ikern_scheme \<Rightarrow> (nat \<times> 'z ikern_scheme) outcome" where
  "empty_dirent ds dp off s =
     (if off < unat (isize (icache s ! dp)) then
        run (readi ds dp (of_nat off) 16 s) (\<lambda>(r, de, s).
          if r \<noteq> 16 then Inl (Panic ''dirlink read'')
          else if de_inum de = 0 then Inr (off, s)
          else empty_dirent ds dp (off + 16) s)
      else Inr (off, s))"
  by auto
termination
proof (relation "measure (\<lambda>(ds, dp, off, s). 2 ^ 32 - off)", goal_cases)
  case (2 ds dp off s)
  then show ?case using unsigned_less [of "isize (icache s ! dp)", where ?'a = nat] by simp
qed simp

declare empty_dirent.simps [simp del]

definition make_dirent :: "cstr \<Rightarrow> u32 \<Rightarrow> u8 list" where
  "make_dirent name n = map (store_le16 (\<lambda>_. 0) 0 (ucast n)) [0, 1] @ strncpy (replicate DIRSIZ 0) name DIRSIZ"

definition dirlink :: "'z ikern_scheme devsw list \<Rightarrow> nat \<Rightarrow> cstr \<Rightarrow> u32 \<Rightarrow> 'z ikern_scheme \<Rightarrow> (int \<times> 'z ikern_scheme) outcome" where
  "dirlink ds dp name n s =
     run (dirlookup ds dp name s) (\<lambda>(r, s).
       case r of
         Some (i, off) \<Rightarrow> run (iput i s) (\<lambda>s. Inr (-1, s))
       | None \<Rightarrow>
           run (empty_dirent ds dp 0 s) (\<lambda>(off, s).
           run (writei ds dp (\<lambda>j. make_dirent name n ! j) (of_nat off) 16 s) (\<lambda>(r, s).
             if r \<noteq> 16 then Inl (Panic ''dirlink'') else Inr (0, s))))"

section \<open>Paths\<close>

definition slash :: u8 where "slash = 0x2F"

text \<open>The rest of the path and the new content of the \<^verbatim>\<open>DIRSIZ\<close> bytes at \<^verbatim>\<open>name\<close>.\<close>

definition skipelem :: "u8 list \<Rightarrow> u8 list \<Rightarrow> (u8 list \<times> u8 list) option" where
  "skipelem path name =
     (let path = dropWhile ((=) slash) path
      in if path = [] then None
         else
           let s = takeWhile ((\<noteq>) slash) path; path = dropWhile ((\<noteq>) slash) path;
               name = (if length s \<ge> DIRSIZ then take DIRSIZ s @ drop DIRSIZ name else s @ 0 # drop (Suc (length s)) name)
           in Some (dropWhile ((=) slash) path, name))"

lemma skipelem_shorter: "skipelem path name = Some (path', name') \<Longrightarrow> length path' < length path"
proof -
  assume a: "skipelem path name = Some (path', name')"
  define p where "p = dropWhile ((=) slash) path"
  have p: "p \<noteq> []" "path' = dropWhile ((=) slash) (dropWhile ((\<noteq>) slash) p)"
    using a by (auto simp: skipelem_def Let_def p_def split: if_splits)
  then have "hd p \<noteq> slash" using hd_dropWhile [of "(=) slash" path] by (auto simp: p_def)
  then obtain x xs where "p = x # xs" "x \<noteq> slash" using p(1) by (cases p) auto
  then have "length path' \<le> length xs"
    using p(2) length_dropWhile_le [of "(=) slash" "dropWhile ((\<noteq>) slash) xs"] length_dropWhile_le [of "(\<noteq>) slash" xs] by auto
  moreover have "length p \<le> length path" unfolding p_def by (rule length_dropWhile_le)
  ultimately show ?thesis using \<open>p = x # xs\<close> by simp
qed

text \<open>The loop of \<^verbatim>\<open>namex\<close>: the inode, if any, and the buffer \<open>name\<close>.\<close>

function namex_loop :: "'z ikern_scheme devsw list \<Rightarrow> bool \<Rightarrow> nat \<Rightarrow> u8 list \<Rightarrow> u8 list \<Rightarrow> 'z ikern_scheme \<Rightarrow>
    (nat option \<times> u8 list \<times> 'z ikern_scheme) outcome" where
  "namex_loop ds par i path name s =
     (case skipelem path name of
        None \<Rightarrow> if par then run (iput i s) (\<lambda>s. Inr (None, name, s)) else Inr (Some i, name, s)
      | Some (path, name) \<Rightarrow>
          run (ilock i s) (\<lambda>s.
            if itype (icache s ! i) \<noteq> T_DIR then run (iunlockput i s) (\<lambda>s. Inr (None, name, s))
            else if par \<and> path = [] then run (iunlock i s) (\<lambda>s. Inr (Some i, name, s))
            else
              run (dirlookup ds i (\<lambda>j. if j < DIRSIZ then name ! j else 0) s) (\<lambda>(r, s).
              run (iunlockput i s) (\<lambda>s.
                case r of None \<Rightarrow> Inr (None, name, s) | Some (next, off) \<Rightarrow> namex_loop ds par next path name s))))"
  by auto
termination
  by (relation "measure (\<lambda>(ds, par, i, path, name, s). length path)") (auto dest: skipelem_shorter)

declare namex_loop.simps [simp del]

definition namex :: "'z ikern_scheme devsw list \<Rightarrow> u8 list \<Rightarrow> bool \<Rightarrow> u8 list \<Rightarrow> 'z ikern_scheme \<Rightarrow>
    (nat option \<times> u8 list \<times> 'z ikern_scheme) outcome" where
  "namex ds path par name s =
     (if path \<noteq> [] \<and> hd path = slash then run (iget ROOTDEV ROOTINO s) (\<lambda>(i, s). namex_loop ds par i path name s)
      else with_proc s (\<lambda>p.
        case cwd (ptable s ! p) of None \<Rightarrow> Inl NullDeref | Some i \<Rightarrow> namex_loop ds par i path name (idup i s)))"

definition namei :: "'z ikern_scheme devsw list \<Rightarrow> u8 list \<Rightarrow> 'z ikern_scheme \<Rightarrow> (nat option \<times> 'z ikern_scheme) outcome" where
  "namei ds path s = run (namex ds path False (replicate DIRSIZ 0) s) (\<lambda>(r, name, s). Inr (r, s))"

definition nameiparent :: "'z ikern_scheme devsw list \<Rightarrow> u8 list \<Rightarrow> u8 list \<Rightarrow> 'z ikern_scheme \<Rightarrow> (nat option \<times> u8 list \<times> 'z ikern_scheme) outcome" where
  "nameiparent ds path name s = namex ds path True name s"

end
