(* ===== verification/FsProps.thy ===== *)
theory FsProps
  imports LogCrash Fs
begin

text \<open>
  Correctness of the block allocator and of reading and writing file contents, inside a transaction. The
  operations work on what the cache shows of the disk (\<open>view\<close>); the log keeps its invariant.
\<close>

section \<open>Blocks inside a transaction\<close>

text \<open>What the file system's block operations may change besides the data: buffers, log header, wakeups.\<close>

definition tframe :: "'z lkern_scheme \<Rightarrow> 'z lkern_scheme \<Rightarrow> bool" where
  "tframe s s' \<longleftrightarrow> (\<exists>p b r n l. s' = s\<lparr>ptable := p, bufs := b, mru := r, lh_n := n, lh_block := l\<rparr>)"

lemma tframeI: "s' = s\<lparr>ptable := p, bufs := b, mru := r, lh_n := n, lh_block := l\<rparr> \<Longrightarrow> tframe s s'"
  unfolding tframe_def by blast

lemma tframe_refl: "tframe s s"
  by (rule tframeI [where p = "ptable s" and b = "bufs s" and r = "mru s" and n = "lh_n s" and l = "lh_block s"]) simp

lemma tframe_trans: "tframe s s' \<Longrightarrow> tframe s' s'' \<Longrightarrow> tframe s s''"
proof -
  assume "tframe s s'" "tframe s' s''"
  then obtain p b r n l p' b' r' n' l' where "s' = s\<lparr>ptable := p, bufs := b, mru := r, lh_n := n, lh_block := l\<rparr>"
    "s'' = s'\<lparr>ptable := p', bufs := b', mru := r', lh_n := n', lh_block := l'\<rparr>" unfolding tframe_def by blast
  then show ?thesis by (intro tframeI [where p = p' and b = b' and r = r' and n = n' and l = l']) simp
qed

lemma tframe_bufs: "tframe s (s\<lparr>bufs := b\<rparr>)"
  by (rule tframeI [where p = "ptable s" and b = b and r = "mru s" and n = "lh_n s" and l = "lh_block s"]) simp

lemma tframe_wakeup: "s' = wakeup c (s\<lparr>mru := m, bufs := b\<rparr>) \<Longrightarrow> tframe s s'"
proof -
  assume "s' = wakeup c (s\<lparr>mru := m, bufs := b\<rparr>)"
  then have "\<exists>p. s' = s\<lparr>ptable := p, bufs := b, mru := m, lh_n := lh_n s, lh_block := lh_block s\<rparr>"
    unfolding wakeup_def wakeup1_def by (cases s) auto
  then show ?thesis unfolding tframe_def by blast
qed

lemma tframe_sel:
  assumes "tframe s s'"
  shows "disksize s' = disksize s" "log_start s' = log_start s" "log_size s' = log_size s" "outstanding s' = outstanding s"
    "committing s' = committing s" "log_dev s' = log_dev s" "memdisk s' = memdisk s" "dwrites s' = dwrites s"
  using assms by (auto simp: tframe_def)

lemma tframe_isel:
  assumes "tframe s s'"
  shows "icache s' = icache s" "sb s' = sb s"
  using assms by (auto simp: tframe_def)

lemma tframe_log: "tframe s s' \<Longrightarrow> in_log s' = in_log s \<and> log_blk s' = log_blk s \<and> log_geom s' = log_geom s"
  by (simp add: in_log_def [abs_def] log_blk_def [abs_def] log_geom_def tframe_sel)

text \<open>Room for \<open>k\<close> more blocks in the current transaction.\<close>

definition log_room :: "nat \<Rightarrow> 'z lkern_scheme \<Rightarrow> bool" where
  "log_room k s \<longleftrightarrow> log_ok s \<and> 1 \<le> outstanding s \<and> log_size s \<le> int NBUF \<and> lh_n s + int k < log_size s"

lemma log_ok_read:
  assumes ok: "log_ok s" and s': "bcache_ok {} s'" "dirty_blocks s' = dirty_blocks s" "lh_n s' = lh_n s" "lh_block s' = lh_block s"
    and f: "tframe s s'"
  shows "log_ok s'"
  using ok s' tframe_sel [OF f] tframe_log [OF f] by (simp add: log_ok_def logged_def)

lemma read_block:
  assumes ok: "log_ok s" and lt: "bn < disksize s"
  shows "\<exists>k s1 s'. bread 1 bn s = Inr (k, s1) \<and> bdata (bufs s1 ! k) = view s bn \<and> tframe s s1 \<and> brelse k s1 = Inr s' \<and> log_ok s' \<and>
    view s' = view s \<and> tframe s s' \<and> lh_n s' = lh_n s"
proof -
  note D = log_okD [OF ok]
  have "clean_buf {} s" using clean_bufI [OF D(1)] D(6) by simp
  then obtain k s1 where r: "bread 1 bn s = Inr (k, s1)" and g: "got_block {} bn s k s1"
    using bread_ok [OF D(1) _ lt] by blast
  have k: "k < NBUF" "bcache_ok {k} s1" "holds_block (bufs s1 ! k) bn" "bdata (bufs s1 ! k) = view s bn" "view s1 = view s"
    "s1 = s\<lparr>bufs := bufs s1\<rparr>"
    using g by (simp_all add: got_block_def)
  note f1 = got_block_frame [OF g] and d1 = got_block_dirty [OF g]
  have c: "dirty (bufs s1 ! k) \<or> bdata (bufs s1 ! k) = memdisk s1 bn"
    using held_coherent [OF D(1) k(2) k(1) k(3) d1 _ k(5)] f1 by blast
  obtain s2 where s2: "brelse k s1 = Inr s2" "bcache_ok ({k} - {k}) s2" "view s2 = view s1"
    "bufs s2 = (bufs s1)[k := (bufs s1 ! k)\<lparr>busy := False\<rparr>]" "s2 = wakeup (ChBuf k) (s1\<lparr>mru := mru s2, bufs := bufs s2\<rparr>)"
    using brelse_ok [OF k(2) _ k(3) c] by blast
  have t1: "tframe s s1" using tframe_bufs [of s "bufs s1"] k(6) by simp
  have t: "tframe s s2" using tframe_trans [OF t1 tframe_wakeup [OF s2(5)]] .
  have fr: "frame s s2" using frame_trans frame_wakeup [OF s2(5)] f1 by blast
  have "dirty_blocks s2 = dirty_blocks s" using dirty_blocks_unbusy [OF bcache_okD(1) [OF k(2)] s2(4)] d1 by simp
  then have "log_ok s2" using log_ok_read [OF ok _ _ _ _ t] s2(2) frame_log [OF fr] by simp
  then show ?thesis using r k(4,5) s2 t t1 frame_log(7) [OF fr] by (intro exI [of _ k] exI [of _ s1] exI [of _ s2]) simp
qed

lemma view_same:
  assumes ok: "bcache_ok H s" "bcache_ok H' s'" and m: "memdisk s' = memdisk s"
    and b: "\<And>j. j < NBUF \<Longrightarrow> holds_block (bufs s' ! j) = holds_block (bufs s ! j) \<and> bdata (bufs s' ! j) = bdata (bufs s ! j)"
  shows "view s' = view s"
proof
  fix bm
  show "view s' bm = view s bm"
  proof (rule view_eqI [OF ok(2)], safe)
    fix j assume j: "j < NBUF" "holds_block (bufs s' ! j) bm"
    then show "bdata (bufs s' ! j) = view s bm" using b [OF j(1)] view_hit [OF ok(1) j(1), of bm] by simp
  next
    assume "\<forall>j < NBUF. \<not> holds_block (bufs s' ! j) bm"
    then have "\<forall>j < NBUF. \<not> holds_block (bufs s ! j) bm" using b by simp
    then show "memdisk s' bm = view s bm" using view_miss [OF bcache_okD(1) [OF ok(1)]] m by simp
  qed
qed

lemma dirty_blocks_mark:
  assumes ok: "bcache_ok H s" and k: "k < NBUF" "blockno (bufs s ! k) = bn"
    and s': "bufs s' = (bufs s)[k := (bufs s ! k)\<lparr>dirty := True\<rparr>]"
  shows "dirty_blocks s' = insert bn (dirty_blocks s)"
proof -
  have n: "bufs s' ! j = (if j = k then (bufs s ! k)\<lparr>dirty := True\<rparr> else bufs s ! j)" if "j < NBUF" for j
    using that k bcache_okD(1) [OF ok] by (simp add: s' nth_update_cases)
  then have "dirty (bufs s' ! j) \<longleftrightarrow> j = k \<or> dirty (bufs s ! j)" "blockno (bufs s' ! j) = blockno (bufs s ! j)" if "j < NBUF" for j
    using that by simp_all
  then have "x \<in> dirty_blocks s' \<longleftrightarrow> x = bn \<or> x \<in> dirty_blocks s" for x
    unfolding dirty_blocks_def mem_Collect_eq using k by metis
  then show ?thesis by blast
qed

lemma logged_insert:
  assumes "length (lh_block s) = LOGSIZE" "0 \<le> lh_n s" "lh_n s < int LOGSIZE"
    and i_def: "i = (case scan (\<lambda>b. b = bn) (take (nat (lh_n s)) (lh_block s)) of Some i \<Rightarrow> i | None \<Rightarrow> nat (lh_n s))"
  shows "take (nat (if int i = lh_n s then lh_n s + 1 else lh_n s)) ((lh_block s)[i := bn]) =
    (if bn \<in> set (logged s) then logged s else logged s @ [bn])"
    "int i = lh_n s \<longleftrightarrow> bn \<notin> set (logged s)"
proof -
  let ?n = "nat (lh_n s)"
  have n: "?n < length (lh_block s)" using assms(1-3) by simp
  consider (new) "bn \<notin> set (logged s)" "i = ?n" | (old) "bn \<in> set (logged s)" "i < ?n" "lh_block s ! i = bn"
  proof (cases "scan (\<lambda>b. b = bn) (take ?n (lh_block s))")
    case None
    then have "bn \<notin> set (logged s)" by (auto simp: scan_None_iff logged_def)
    moreover have "i = ?n" using None i_def by simp
    ultimately show ?thesis by (rule that(1))
  next
    case (Some j)
    from scan_SomeD [OF this] have j: "j < ?n" "lh_block s ! j = bn" using n by simp_all
    then have "bn \<in> set (logged s)" using n by (auto simp: logged_def in_set_conv_nth)
    with j Some show ?thesis using that(2) by (simp add: i_def)
  qed
  note cases = this
  show "take (nat (if int i = lh_n s then lh_n s + 1 else lh_n s)) ((lh_block s)[i := bn]) =
    (if bn \<in> set (logged s) then logged s else logged s @ [bn])"
  proof (rule cases)
    assume h: "bn \<notin> set (logged s)" "i = ?n"
    have "nat (lh_n s + 1) = Suc ?n" using assms(2) by simp
    then show ?thesis using h n assms(2) by (simp add: logged_def take_Suc_conv_app_nth)
  next
    assume h: "bn \<in> set (logged s)" "i < ?n" "lh_block s ! i = bn"
    then have "(lh_block s)[i := bn] = lh_block s" "int i \<noteq> lh_n s" by (auto simp: list_update_same_conv n)
    then show ?thesis using h by (simp add: logged_def)
  qed
  show "int i = lh_n s \<longleftrightarrow> bn \<notin> set (logged s)" by (rule cases) (use assms(2) in auto)
qed

lemma log_update:
  assumes rm: "log_room (Suc m) s" and lt: "bn < disksize s" and nl: "\<not> in_log s bn"
  shows "\<exists>k s1 s'. bread 1 bn s = Inr (k, s1) \<and> bdata (bufs s1 ! k) = view s bn \<and> tframe s s1 \<and>
    run (log_write k (bset k f s1)) (brelse k) = Inr s' \<and> log_room m s' \<and>
    view s' = (view s)(bn := f (view s bn)) \<and> tframe s s'"
proof -
  have ok: "log_ok s" and out: "1 \<le> outstanding s" and sz: "log_size s \<le> int NBUF" "lh_n s + int (Suc m) < log_size s"
    using rm by (simp_all add: log_room_def)
  note D = log_okD [OF ok]
  have "clean_buf {} s" using clean_bufI [OF D(1)] D(6) by simp
  then obtain k s1 where r: "bread 1 bn s = Inr (k, s1)" and g: "got_block {} bn s k s1"
    using bread_ok [OF D(1) _ lt] by blast
  have k: "k < NBUF" "bcache_ok {k} s1" "holds_block (bufs s1 ! k) bn" "bdata (bufs s1 ! k) = view s bn" "view s1 = view s"
    "s1 = s\<lparr>bufs := bufs s1\<rparr>"
    using g by (simp_all add: got_block_def)
  have t1: "tframe s s1" using tframe_bufs [of s "bufs s1"] k(6) by simp
  note fr1 = frame_log [OF conjunct1 [OF got_block_frame [OF g]]]
  note d1 = got_block_dirty [OF g]
  define s2 where "s2 = bset k f s1"
  have ok2: "bcache_ok {k} s2" and v2: "view s2 = (view s)(bn := f (view s bn))"
    using bset_ok [OF k(2) _ k(3), of f] by (simp_all add: s2_def k(5))
  have b2: "bufs s2 = (bufs s1)[k := (bufs s1 ! k)\<lparr>bdata := f (bdata (bufs s1 ! k))\<rparr>]" by (simp add: s2_def bset_def)
  have t2: "tframe s s2" using tframe_trans [OF t1 tframe_bufs [of s1 "bufs s2"]] by (simp add: s2_def bset_def upd_buf_def)
  have l2: "lh_n s2 = lh_n s" "lh_block s2 = lh_block s" "outstanding s2 = outstanding s" "log_size s2 = log_size s"
    using fr1 by (simp_all add: s2_def bset_def upd_buf_def)
  have h2: "holds_block (bufs s2 ! k) bn" using k(1,3) bcache_okD(1) [OF k(2)] by (simp add: b2 holds_block_def)
  have d2: "dirty_blocks s2 = dirty_blocks s"
    using d1 bcache_okD(1) [OF k(2)] dirty_blocks_cong [of s2 s1] by (simp add: b2 nth_update_cases)
  define i where "i = (case scan (\<lambda>b. b = bn) (take (nat (lh_n s)) (lh_block s)) of Some i \<Rightarrow> i | None \<Rightarrow> nat (lh_n s))"
  define n3 where "n3 = (if int i = lh_n s then lh_n s + 1 else lh_n s)"
  define s3 where "s3 = upd_buf k (\<lambda>b. b\<lparr>dirty := True\<rparr>) (if int i = lh_n s
    then s2\<lparr>lh_block := (lh_block s)[i := bn], lh_n := lh_n s + 1\<rparr> else s2\<lparr>lh_block := (lh_block s)[i := bn]\<rparr>)"
  have s3: "lh_n s3 = n3" "lh_block s3 = (lh_block s)[i := bn]" "bufs s3 = (bufs s2)[k := (bufs s2 ! k)\<lparr>dirty := True\<rparr>]"
    "mru s3 = mru s2" "memdisk s3 = memdisk s2"
    by (simp_all add: s3_def n3_def upd_buf_def l2)
  have t3: "tframe s s3"
  proof -
    have "s3 = s2\<lparr>ptable := ptable s2, bufs := bufs s3, mru := mru s2, lh_n := lh_n s3, lh_block := lh_block s3\<rparr>"
      by (cases s2) (simp add: s3_def upd_buf_def)
    then show ?thesis using tframe_trans [OF t2] tframeI by blast
  qed
  have w3: "log_write k s2 = Inr s3"
  proof -
    have "\<not> (lh_n s \<ge> int LOGSIZE \<or> lh_n s \<ge> log_size s - 1)" "\<not> outstanding s < 1" using sz out by (simp_all add: NBUF_def LOGSIZE_def)
    moreover have "blockno (bufs s2 ! k) = bn" using h2 by (simp add: holds_block_def)
    ultimately show ?thesis unfolding log_write_def l2 Let_def i_def [symmetric] s3_def by (simp add: l2 flip: i_def)
  qed
  have busy2: "busy (bufs s2 ! k)" using bcache_okD(5) [OF ok2 k(1)] by simp
  have other: "blockno (bufs s2 ! j) \<noteq> bn" if "j < NBUF" "j \<noteq> k" "dev (bufs s2 ! j) = 1" for j
    using bcache_okD(8) [OF ok2, of j k] k(1) h2 that by (auto simp: holds_block_def)
  have ok3: "bcache_ok {k} s3"
    by (rule bcache_ok_upd [OF ok2 k(1) _ _ _ _ _ _ s3(3)])
      (use h2 busy2 other bcache_okD(2,3) [OF ok2] in \<open>auto simp: holds_block_def s3\<close>)
  have h3: "holds_block (bufs s3 ! k) bn" "dirty (bufs s3 ! k)"
    using h2 k(1) bcache_okD(1) [OF ok2] by (simp_all add: s3 holds_block_def)
  have v3: "view s3 = view s2"
    using bcache_okD(1) [OF ok2] by (intro view_same [OF ok2 ok3 s3(5)]) (simp add: s3 nth_update_cases holds_block_def [abs_def])
  have d3: "dirty_blocks s3 = insert bn (dirty_blocks s)"
    using dirty_blocks_mark [OF ok2 k(1) _ s3(3)] h2 d2 by (simp add: holds_block_def)
  obtain s4 where s4: "brelse k s3 = Inr s4" "bcache_ok ({k} - {k}) s4" "view s4 = view s3"
    "bufs s4 = (bufs s3)[k := (bufs s3 ! k)\<lparr>busy := False\<rparr>]" "s4 = wakeup (ChBuf k) (s3\<lparr>mru := mru s4, bufs := bufs s4\<rparr>)"
    using brelse_ok [OF ok3 _ h3(1)] h3(2) by blast
  have t4: "tframe s s4" using tframe_trans [OF t3 tframe_wakeup [OF s4(5)]] .
  have l4: "lh_n s4 = n3" "lh_block s4 = (lh_block s)[i := bn]"
    using frame_log(7,8) [OF frame_wakeup [OF s4(5)]] s3 by simp_all
  have d4: "dirty_blocks s4 = insert bn (dirty_blocks s)" using dirty_blocks_unbusy [OF bcache_okD(1) [OF ok3] s4(4)] d3 by simp
  have "lh_n s < int LOGSIZE" using sz by (simp add: NBUF_def LOGSIZE_def)
  note li = logged_insert [OF D(3) D(12) this i_def]
  have lg: "logged s4 = (if bn \<in> set (logged s) then logged s else logged s @ [bn])" using li(1) by (simp add: logged_def l4 n3_def)
  have n3: "lh_n s \<le> n3" "n3 \<le> lh_n s + 1" by (simp_all add: n3_def)
  have "log_ok s4"
    using ok s4(2) n3 sz lg d4 lt nl tframe_sel [OF t4] tframe_log [OF t4]
    by (auto simp: log_ok_def l4)
  then have "log_room m s4" using out sz n3 tframe_sel [OF t4] by (simp add: log_room_def l4)
  then show ?thesis
    using r k(4) t1 w3 s4(1,3) t4 v3 v2
    by (intro exI [of _ k] exI [of _ s1] exI [of _ s4]) (simp flip: s2_def)
qed

section \<open>The free map\<close>

definition used_bit :: "block \<Rightarrow> nat \<Rightarrow> bool" where
  "used_bit x bi \<longleftrightarrow> bit (x (bi div 8)) (bi mod 8)"

text \<open>Whether block \<open>b\<close> is marked in the free map.\<close>

definition blk_used :: "'z ikern_scheme \<Rightarrow> u32 \<Rightarrow> bool" where
  "blk_used s b \<longleftrightarrow> used_bit (view s (BBLOCK b (sb s))) (unat b mod BPB)"

definition in_fs :: "'z ikern_scheme \<Rightarrow> u32 \<Rightarrow> bool" where
  "in_fs s b \<longleftrightarrow> unat b < unat (sb_size (sb s))"

text \<open>
  The disk's layout as far as the allocator relies on it: the superblock is the one on disk, and the log and the free map
  itself are marked as used.
\<close>

definition map_ok :: "'z ikern_scheme \<Rightarrow> bool" where
  "map_ok s \<longleftrightarrow> unat (sb_size (sb s)) \<le> unat (disksize s) \<and> 1 < disksize s \<and> \<not> in_log s 1 \<and> sb s = decode_sb (view s 1) \<and>
     in_fs s 1 \<and> blk_used s 1 \<and>
     (\<forall>b. in_fs s b \<longrightarrow> BBLOCK b (sb s) < disksize s \<and> \<not> in_log s (BBLOCK b (sb s)) \<and> BBLOCK b (sb s) \<noteq> 1 \<and>
        blk_used s (BBLOCK b (sb s)) \<and> in_fs s (BBLOCK b (sb s)) \<and> (in_log s b \<longrightarrow> blk_used s b))"

lemma map_okD:
  assumes "map_ok s" "in_fs s b"
  shows "BBLOCK b (sb s) < disksize s" "\<not> in_log s (BBLOCK b (sb s))" "blk_used s (BBLOCK b (sb s))" "in_log s b \<Longrightarrow> blk_used s b"
    "BBLOCK b (sb s) \<noteq> 1" "b < disksize s"
proof -
  show "BBLOCK b (sb s) < disksize s" "\<not> in_log s (BBLOCK b (sb s))" "blk_used s (BBLOCK b (sb s))" "in_log s b \<Longrightarrow> blk_used s b"
    "BBLOCK b (sb s) \<noteq> 1" using assms unfolding map_ok_def by blast+
  show "b < disksize s" using assms unfolding map_ok_def in_fs_def word_less_nat_alt by linarith
qed

lemma used_mark: "used_bit (mark_bit i x) j \<longleftrightarrow> i = j \<or> used_bit x j"
proof (cases "i div 8 = j div 8")
  case True
  have "i mod 8 = j mod 8 \<longleftrightarrow> i = j" using True by (metis div_mult_mod_eq)
  then show ?thesis using True by (auto simp: used_bit_def mark_bit_def bit_set_bit_iff)
qed (auto simp: used_bit_def mark_bit_def)

lemma used_clear: "used_bit (clear_bit i x) j \<longleftrightarrow> i \<noteq> j \<and> used_bit x j"
proof (cases "i div 8 = j div 8")
  case True
  have "i mod 8 = j mod 8 \<longleftrightarrow> i = j" using True by (metis div_mult_mod_eq)
  then show ?thesis using True by (auto simp: used_bit_def clear_bit_def bit_unset_bit_iff)
qed (auto simp: used_bit_def clear_bit_def)

lemma free_bit_cases:
  "free_bit x n = None \<longleftrightarrow> (\<forall>i < n. used_bit x i)"
  "free_bit x n = Some i \<longleftrightarrow> i < n \<and> \<not> used_bit x i \<and> (\<forall>j < i. used_bit x j)"
proof -
  show "free_bit x n = None \<longleftrightarrow> (\<forall>i < n. used_bit x i)" by (auto simp: free_bit_def scan_None_iff used_bit_def)
  show "free_bit x n = Some i \<longleftrightarrow> i < n \<and> \<not> used_bit x i \<and> (\<forall>j < i. used_bit x j)"
    by (auto simp: free_bit_def scan_Some_iff used_bit_def)
qed

lemma mark_clear: "\<not> used_bit x i \<Longrightarrow> clear_bit i (mark_bit i x) = x"
  by (rule ext, rule bit_word_eqI) (auto simp: used_bit_def mark_bit_def clear_bit_def bit_set_bit_iff bit_unset_bit_iff)

text \<open>Block numbers and their place in the free map.\<close>

lemma map_place:
  assumes "b mod 4096 = 0" "i < 4096" "b + i < 2 ^ 32"
  shows "BBLOCK (of_nat (b + i)) x = BBLOCK (of_nat b) x" "unat (of_nat (b + i) :: u32) mod BPB = i" "unat (of_nat (b + i) :: u32) = b + i"
proof -
  have u: "unat (of_nat c :: u32) = c" if "c < 2 ^ 32" for c using that by (simp add: unsigned_of_nat take_bit_nat_eq_self)
  show c: "unat (of_nat (b + i) :: u32) = b + i" using u assms(3) by blast
  show "unat (of_nat (b + i) :: u32) mod BPB = i" using c assms(1,2) by (simp add: BPB_def mod_add_left_eq [symmetric])
  have "unat (of_nat (b + i) div 4096 :: u32) = unat (of_nat b div 4096 :: u32)"
    using c u [of b] assms by (simp only: unat_div) (auto simp: div_add1_eq [of b i])
  then have "(of_nat (b + i) div 4096 :: u32) = of_nat b div 4096" by (rule unsigned_word_eqI)
  then show "BBLOCK (of_nat (b + i)) x = BBLOCK (of_nat b) x" by (simp only: BBLOCK_def)
qed

lemma read_block_room:
  fixes s :: "'z ikern_scheme"
  assumes "log_room m s" "bn < disksize s"
  shows "\<exists>k s1 s'. bread 1 bn s = Inr (k, s1) \<and> bdata (bufs s1 ! k) = view s bn \<and> tframe s s1 \<and> brelse k s1 = Inr s' \<and>
    log_room m s' \<and> view s' = view s \<and> tframe s s'"
proof -
  have "log_ok s" using assms(1) by (simp add: log_room_def)
  then obtain k s1 s' where r: "bread 1 bn s = Inr (k, s1)" "bdata (bufs s1 ! k) = view s bn" "tframe s s1"
    "brelse k s1 = Inr s'" "log_ok s'" "view s' = view s" "tframe s s'" "lh_n s' = lh_n s"
    using read_block [OF _ assms(2)] by blast
  have "log_room m s'" using assms(1) r(5,8) tframe_sel [OF r(7)] by (simp add: log_room_def)
  then show ?thesis using r by blast
qed

lemma bzero_ok:
  fixes s :: "'z ikern_scheme"
  assumes "log_room (Suc m) s" "bn < disksize s" "\<not> in_log s bn"
  shows "\<exists>s'. bzero 1 bn s = Inr s' \<and> log_room m s' \<and> view s' = (view s)(bn := memset (view s bn) 0 0 BSIZE) \<and> tframe s s'"
proof -
  obtain k s1 s' where r: "bread 1 bn s = Inr (k, s1)"
    "run (log_write k (bset k (\<lambda>x. memset x 0 0 BSIZE) s1)) (brelse k) = Inr s'" "log_room m s'"
    "view s' = (view s)(bn := memset (view s bn) 0 0 BSIZE)" "tframe s s'"
    using log_update [OF assms, of "\<lambda>x. memset x 0 0 BSIZE"] by blast
  then have "bzero 1 bn s = Inr s'" by (simp add: bzero_def)
  then show ?thesis using r(3-5) by blast
qed

text \<open>What \<^verbatim>\<open>balloc\<close> does: it takes the first free block, marks and zeroes it, and changes nothing else.\<close>

definition balloc_spec :: "nat \<Rightarrow> 'z ikern_scheme \<Rightarrow> u32 \<Rightarrow> 'z ikern_scheme \<Rightarrow> bool" where
  "balloc_spec m s c s' \<longleftrightarrow> in_fs s c \<and> \<not> blk_used s c \<and> (\<forall>b. b < c \<longrightarrow> blk_used s b) \<and> log_room m s' \<and> tframe s s' \<and>
     view s' = (view s)(BBLOCK c (sb s) := mark_bit (unat c mod BPB) (view s (BBLOCK c (sb s))),
       c := memset (view s c) 0 0 BSIZE)"

lemma mark_and_zero:
  fixes s :: "'z ikern_scheme"
  assumes room: "log_room (Suc (Suc m)) s" and ok: "map_ok s" and c: "in_fs s c" "\<not> blk_used s c"
  shows "\<exists>k s1 s2 s'. bread 1 (BBLOCK c (sb s)) s = Inr (k, s1) \<and> bdata (bufs s1 ! k) = view s (BBLOCK c (sb s)) \<and> tframe s s1 \<and>
    run (log_write k (bset k (mark_bit (unat c mod BPB)) s1)) (brelse k) = Inr s2 \<and> bzero 1 c s2 = Inr s' \<and>
    log_room m s' \<and> tframe s s' \<and>
    view s' = (view s)(BBLOCK c (sb s) := mark_bit (unat c mod BPB) (view s (BBLOCK c (sb s))), c := memset (view s c) 0 0 BSIZE)"
proof -
  let ?B = "BBLOCK c (sb s)"
  have B: "?B < disksize s" "\<not> in_log s ?B" "blk_used s ?B" "\<not> in_log s c" using map_okD [OF ok c(1)] c(2) by blast+
  have cd: "c < disksize s" using map_okD [OF ok c(1)] by blast
  have ne: "?B \<noteq> c" using B(3) c(2) by metis
  obtain k s1 s2 where r: "bread 1 ?B s = Inr (k, s1)" "bdata (bufs s1 ! k) = view s ?B" "tframe s s1"
    "run (log_write k (bset k (mark_bit (unat c mod BPB)) s1)) (brelse k) = Inr s2" "log_room (Suc m) s2"
    "view s2 = (view s)(?B := mark_bit (unat c mod BPB) (view s ?B))" "tframe s s2"
    using log_update [OF room B(1,2), of "mark_bit (unat c mod BPB)"] by blast
  have "c < disksize s2" "\<not> in_log s2 c" using cd B(4) tframe_sel [OF r(7)] tframe_log [OF r(7)] by simp_all
  then obtain s' where z: "bzero 1 c s2 = Inr s'" "log_room m s'" "view s' = (view s2)(c := memset (view s2 c) 0 0 BSIZE)" "tframe s2 s'"
    using bzero_ok [OF r(5)] by blast
  have "view s' = (view s)(?B := mark_bit (unat c mod BPB) (view s ?B), c := memset (view s c) 0 0 BSIZE)"
    using z(3) r(6) ne by simp
  then show ?thesis using r(1-4) z(1,2) tframe_trans [OF r(7) z(4)] by blast
qed

lemma view_state: "view s' = view s \<Longrightarrow> tframe s s' \<Longrightarrow> blk_used s' = blk_used s \<and> in_fs s' = in_fs s \<and> (map_ok s' \<longleftrightarrow> map_ok s)"
proof -
  assume a: "view s' = view s" "tframe s s'"
  have u: "blk_used s' = blk_used s" "in_fs s' = in_fs s"
    using a by (simp_all add: blk_used_def [abs_def] in_fs_def [abs_def] tframe_isel)
  then have "map_ok s' \<longleftrightarrow> map_ok s"
    unfolding map_ok_def using a tframe_sel(1) [OF a(2)] tframe_isel(2) [OF a(2)] tframe_log [OF a(2)] by (simp only:)
  then show ?thesis using u by blast
qed

lemma balloc_from_ok:
  fixes s :: "'z ikern_scheme"
  assumes "log_room (Suc (Suc m)) s" "map_ok s" "b mod 4096 = 0" "\<forall>c. unat c < b \<longrightarrow> blk_used s c" "in_fs s e" "\<not> blk_used s e"
  shows "\<exists>c s'. balloc_from 1 b s = Inr (c, s') \<and> balloc_spec m s c s'"
  using assms
proof (induction "2 ^ 32 - b" arbitrary: b s rule: less_induct)
  case less
  let ?n = "min BPB (unat (sb_size (sb s)) - b)"
  let ?B = "BBLOCK (of_nat b) (sb s)"
  have be: "b \<le> unat e" using less.prems(4,6) not_le by blast
  have bs: "b < unat (sb_size (sb s))" using be less.prems(5) by (simp add: in_fs_def)
  have lt: "unat (sb_size (sb s)) < 2 ^ 32" using unsigned_less [of "sb_size (sb s)", where ?'a = nat] by simp
  have ufs: "unat (of_nat (b + i) :: u32) = b + i" "in_fs s (of_nat (b + i))" "BBLOCK (of_nat (b + i)) (sb s) = ?B"
    "blk_used s (of_nat (b + i)) \<longleftrightarrow> used_bit (view s ?B) i" "unat (of_nat (b + i) :: u32) mod BPB = i" if "i < ?n" for i
  proof -
    have l: "i < 4096" "b + i < 2 ^ 32" "b + i < unat (sb_size (sb s))" using that lt by (auto simp: BPB_def)
    note p = map_place [OF less.prems(3) l(1,2)]
    show "unat (of_nat (b + i) :: u32) = b + i" "BBLOCK (of_nat (b + i)) (sb s) = ?B" "unat (of_nat (b + i) :: u32) mod BPB = i" using p by blast+
    show "in_fs s (of_nat (b + i))" unfolding in_fs_def p(3) by (rule l(3))
    show "blk_used s (of_nat (b + i)) \<longleftrightarrow> used_bit (view s ?B) i" unfolding blk_used_def p(1,2) ..
  qed
  show ?case
  proof (cases "free_bit (view s ?B) ?n")
    case (Some i)
    let ?c = "of_nat (b + i) :: u32"
    have i: "i < ?n" "\<not> used_bit (view s ?B) i" "\<forall>j < i. used_bit (view s ?B) j" using Some free_bit_cases(2) by blast+
    note u = ufs [OF i(1)]
    have fr: "\<not> blk_used s ?c" using u(4) i(2) by simp
    obtain k s1 s2 s' where r: "bread 1 ?B s = Inr (k, s1)" "bdata (bufs s1 ! k) = view s ?B" "tframe s s1"
      "run (log_write k (bset k (mark_bit i) s1)) (brelse k) = Inr s2" "bzero 1 ?c s2 = Inr s'" "log_room m s'" "tframe s s'"
      "view s' = (view s)(?B := mark_bit i (view s ?B), ?c := memset (view s ?c) 0 0 BSIZE)"
      using mark_and_zero [OF less.prems(1,2) u(2) fr] unfolding u(3,5) by blast
    have first: "blk_used s d" if "d < ?c" for d
    proof (cases "unat d < b")
      case False
      have "unat d < b + i" using that u(1) unfolding word_less_nat_alt by simp
      then have j: "unat d - b < i" "of_nat (b + (unat d - b)) = d" using False by auto
      have "unat d - b < ?n" using j(1) i(1) by linarith
      then show ?thesis using ufs(4) [of "unat d - b"] i(3) j by simp
    qed (use less.prems(4) in blast)
    have sbs: "sb s1 = sb s" using tframe_isel [OF r(3)] by blast
    obtain s3 where w: "log_write k (bset k (mark_bit i) s1) = Inr s3" "brelse k s3 = Inr s2"
      using r(4) by (cases "log_write k (bset k (mark_bit i) s1)") auto
    have "balloc_from 1 b s = Inr (?c, s')"
      by (subst balloc_from.simps) (simp add: bs r(1) r(2) sbs Some w r(5) del: of_nat_add)
    moreover have "balloc_spec m s ?c s'"
      unfolding balloc_spec_def u(3,5) using u(2) fr first r(6-8) by blast
    ultimately show ?thesis by blast
  next
    case None
    then have all: "\<forall>i < ?n. used_bit (view s ?B) i" using free_bit_cases(1) by blast
    have Bd: "?B < disksize s"
    proof -
      have "0 < ?n" using bs by (simp add: BPB_def)
      then have "in_fs s (of_nat (b + 0))" by (rule ufs(2))
      then show ?thesis using map_okD(1) [OF less.prems(2)] by (simp only: add_0_right)
    qed
    obtain k s1 s' where r: "bread 1 ?B s = Inr (k, s1)" "bdata (bufs s1 ! k) = view s ?B" "tframe s s1" "brelse k s1 = Inr s'"
      "log_room (Suc (Suc m)) s'" "view s' = view s" "tframe s s'"
      using read_block_room [OF less.prems(1) Bd] by blast
    note same = view_state [OF r(6,7)]
    have sbs: "sb s1 = sb s" using tframe_isel [OF r(3)] by blast
    have step: "balloc_from 1 b s = balloc_from 1 (b + BPB) s'"
      by (subst balloc_from.simps) (simp add: bs r(1) r(2) sbs None r(4))
    have below: "blk_used s d" if d: "unat d < b + BPB" "in_fs s d" for d
    proof (cases "unat d < b")
      case False
      then have j: "unat d - b < ?n" "of_nat (b + (unat d - b)) = d" using d by (auto simp: in_fs_def)
      then show ?thesis using ufs(4) [OF j(1)] all by simp
    qed (use less.prems(4) in blast)
    have "b + BPB \<le> unat e" using below [of e] less.prems(5,6) not_le by blast
    then have bel: "\<forall>d. unat d < b + BPB \<longrightarrow> blk_used s d" using below less.prems(5) unfolding in_fs_def by (meson less_le_trans less_trans)
    have dec: "2 ^ 32 - (b + BPB) < 2 ^ 32 - b" using bs lt by (simp add: BPB_def)
    have al: "(b + BPB) mod 4096 = 0" using less.prems(3) by (simp add: BPB_def)
    have "\<exists>c s''. balloc_from 1 (b + BPB) s' = Inr (c, s'') \<and> balloc_spec m s' c s''"
      using less.hyps [OF dec r(5) _ al] same bel less.prems(2,5,6) by simp
    then obtain c s'' where h: "balloc_from 1 (b + BPB) s' = Inr (c, s'')" "balloc_spec m s' c s''" by blast
    have "balloc_spec m s c s''"
      using h(2) tframe_trans [OF r(7)] unfolding balloc_spec_def same r(6) tframe_isel(2) [OF r(7)] by (simp add: same)
    then show ?thesis using step h(1) by auto
  qed
qed

lemma same_place: "BBLOCK b x = BBLOCK c x \<Longrightarrow> unat b mod BPB = unat c mod BPB \<Longrightarrow> b = c"
proof -
  assume a: "BBLOCK b x = BBLOCK c x" "unat b mod BPB = unat c mod BPB"
  then have "b div 4096 = c div 4096" by (simp add: BBLOCK_def)
  then have "unat (b div 4096) = unat (c div 4096)" by simp
  then have "unat b div 4096 = unat c div 4096" by (simp add: unat_div)
  then have "unat b = unat c" using a(2) by (metis BPB_def div_mult_mod_eq)
  then show ?thesis by (rule unsigned_word_eqI)
qed

lemma balloc_spec_used:
  assumes ok: "map_ok s" and sp: "balloc_spec m s c s'" and b: "in_fs s b"
  shows "blk_used s' b \<longleftrightarrow> b = c \<or> blk_used s b"
proof -
  have v: "view s' = (view s)(BBLOCK c (sb s) := mark_bit (unat c mod BPB) (view s (BBLOCK c (sb s))), c := memset (view s c) 0 0 BSIZE)"
    and t: "tframe s s'" and c: "\<not> blk_used s c" using sp unfolding balloc_spec_def by blast+
  have ne: "BBLOCK b (sb s) \<noteq> c" using map_okD(3) [OF ok b] c by metis
  show ?thesis
  proof (cases "BBLOCK b (sb s) = BBLOCK c (sb s)")
    case True
    then have "blk_used s' b \<longleftrightarrow> used_bit (mark_bit (unat c mod BPB) (view s (BBLOCK c (sb s)))) (unat b mod BPB)"
      using ne by (simp add: blk_used_def v tframe_isel(2) [OF t])
    also have "\<dots> \<longleftrightarrow> unat c mod BPB = unat b mod BPB \<or> blk_used s b" unfolding used_mark blk_used_def True ..
    finally show ?thesis using same_place [OF True] by metis
  next
    case False
    then show ?thesis using ne by (auto simp: blk_used_def v tframe_isel(2) [OF t])
  qed
qed

text \<open>The allocator's invariant needs the superblock and the marks only.\<close>

lemma map_okI:
  assumes ok: "map_ok s" and t: "tframe s s'" and v1: "view s' 1 = view s 1" and u: "\<And>b. in_fs s b \<Longrightarrow> blk_used s b \<Longrightarrow> blk_used s' b"
  shows "map_ok s'"
proof -
  have one: "in_fs s 1" "blk_used s 1" using ok unfolding map_ok_def by blast+
  have fs: "in_fs s' = in_fs s" by (simp add: in_fs_def [abs_def] tframe_isel [OF t])
  note fr = tframe_sel(1) [OF t] tframe_isel(2) [OF t] fs tframe_log [OF t, THEN conjunct1] v1
  have "\<forall>b. in_fs s b \<longrightarrow> BBLOCK b (sb s) < disksize s \<and> \<not> in_log s (BBLOCK b (sb s)) \<and> BBLOCK b (sb s) \<noteq> 1 \<and>
      blk_used s' (BBLOCK b (sb s)) \<and> in_fs s (BBLOCK b (sb s)) \<and> (in_log s b \<longrightarrow> blk_used s' b)"
    (is "\<forall>b. _ \<longrightarrow> ?P b")
  proof (intro allI impI)
    fix b
    assume b: "in_fs s b"
    have "in_fs s (BBLOCK b (sb s))" using ok b unfolding map_ok_def by blast
    then show "?P b" using map_okD [OF ok b] u b by simp
  qed
  then show ?thesis using ok u [OF one] unfolding map_ok_def fr by (elim conjE) (intro conjI)
qed

lemma balloc_spec_map_ok:
  assumes ok: "map_ok s" and sp: "balloc_spec m s c s'"
  shows "map_ok s'"
proof (rule map_okI [OF ok])
  have c: "\<not> blk_used s c" "in_fs s c"
    and v: "view s' = (view s)(BBLOCK c (sb s) := mark_bit (unat c mod BPB) (view s (BBLOCK c (sb s))), c := memset (view s c) 0 0 BSIZE)"
    using sp unfolding balloc_spec_def by blast+
  show "tframe s s'" using sp unfolding balloc_spec_def by blast
  have "blk_used s 1" using ok unfolding map_ok_def by blast
  then have "c \<noteq> 1" using c(1) by metis
  then show "view s' 1 = view s 1" using map_okD(5) [OF ok c(2)] by (simp add: v)
qed (use balloc_spec_used [OF ok sp] in blast)

lemma readsb_ok:
  fixes s :: "'z ikern_scheme"
  assumes "log_room m s" "map_ok s"
  shows "\<exists>s'. readsb 1 s = Inr (sb s, s') \<and> log_room m s' \<and> view s' = view s \<and> tframe s s'"
proof -
  have m: "1 < disksize s" "sb s = decode_sb (view s 1)" using assms(2) unfolding map_ok_def by blast+
  obtain k s1 s' where r: "bread 1 1 s = Inr (k, s1)" "bdata (bufs s1 ! k) = view s 1" "brelse k s1 = Inr s'"
    "log_room m s'" "view s' = view s" "tframe s s'" using read_block_room [OF assms(1) m(1)] by blast
  have "readsb 1 s = Inr (decode_sb (view s 1), s')" by (simp add: readsb_def r(1-3))
  then show ?thesis using r(4-6) m(2) by metis
qed

lemma bfree_ok:
  fixes s :: "'z ikern_scheme"
  assumes room: "log_room (Suc m) s" and ok: "map_ok s" and b: "in_fs s b" "blk_used s b"
  shows "\<exists>s'. bfree 1 b s = Inr s' \<and> log_room m s' \<and> tframe s s' \<and>
      view s' = (view s)(BBLOCK b (sb s) := clear_bit (unat b mod BPB) (view s (BBLOCK b (sb s))))"
proof -
  let ?B = "BBLOCK b (sb s)"
  obtain s0 where r0: "readsb 1 s = Inr (sb s, s0)" "log_room (Suc m) s0" "view s0 = view s" "tframe s s0"
    using readsb_ok [OF room ok] by blast
  note same = view_state [OF r0(3,4)]
  have sb0: "sb s0 = sb s" using tframe_isel [OF r0(4)] by blast
  then have s0: "s0\<lparr>sb := sb s\<rparr> = s0" by (cases s0) auto
  have "?B < disksize s0" "\<not> in_log s0 ?B" using map_okD [of s0 b] same ok b sb0 by simp_all
  then obtain k s1 s' where r: "bread 1 ?B s0 = Inr (k, s1)" "bdata (bufs s1 ! k) = view s0 ?B"
    "run (log_write k (bset k (clear_bit (unat b mod BPB)) s1)) (brelse k) = Inr s'" "log_room m s'"
    "view s' = (view s0)(?B := clear_bit (unat b mod BPB) (view s0 ?B))" "tframe s0 s'"
    using log_update [OF r0(2), of ?B "clear_bit (unat b mod BPB)"] by blast
  have "bfree 1 b s = Inr s'"
    unfolding bfree_def Let_def using b(2) by (simp add: r0(1,3) s0 r(1-3) blk_used_def used_bit_def)
  then show ?thesis using r(4,5) r0(3) tframe_trans [OF r0(4) r(6)] by simp
qed

lemma bfree_free:
  fixes s :: "'z ikern_scheme"
  assumes room: "log_room m s" and ok: "map_ok s" and b: "in_fs s b" "\<not> blk_used s b"
  shows "bfree 1 b s = Inl (Panic ''freeing free block'')"
proof -
  let ?B = "BBLOCK b (sb s)"
  obtain s0 where r0: "readsb 1 s = Inr (sb s, s0)" "log_room m s0" "view s0 = view s" "tframe s s0"
    using readsb_ok [OF room ok] by blast
  note same = view_state [OF r0(3,4)]
  have sb0: "sb s0 = sb s" using tframe_isel [OF r0(4)] by blast
  then have s0: "s0\<lparr>sb := sb s\<rparr> = s0" by (cases s0) auto
  have "?B < disksize s0" using map_okD [of s0 b] same ok b sb0 by simp
  then obtain k s1 where r: "bread 1 ?B s0 = Inr (k, s1)" "bdata (bufs s1 ! k) = view s0 ?B"
    using read_block_room [OF r0(2), of ?B] by blast
  show ?thesis unfolding bfree_def Let_def using b(2) by (simp add: r0(1,3) s0 r(1-2) blk_used_def used_bit_def)
qed

lemma balloc_spec_clear:
  assumes ok: "map_ok s" and sp: "balloc_spec m s c s'" and t: "tframe s' s''"
    and v: "view s'' = (view s')(BBLOCK c (sb s') := clear_bit (unat c mod BPB) (view s' (BBLOCK c (sb s'))))"
  shows "\<forall>b. b \<noteq> c \<longrightarrow> view s'' b = view s b" "\<not> blk_used s'' c" "in_fs s'' c" "map_ok s''"
proof -
  let ?B = "BBLOCK c (sb s)"
  have c: "in_fs s c" "\<not> blk_used s c" and tf: "tframe s s'"
    and v': "view s' = (view s)(?B := mark_bit (unat c mod BPB) (view s ?B), c := memset (view s c) 0 0 BSIZE)"
    using sp unfolding balloc_spec_def by blast+
  have ne: "?B \<noteq> c" using map_okD(3) [OF ok c(1)] c(2) by metis
  have sbs: "sb s' = sb s" "sb s'' = sb s" using tframe_isel(2) [OF tf] tframe_isel(2) [OF t] by simp_all
  have "view s'' ?B = view s ?B" using ne mark_clear [of "view s ?B"] c(2) by (simp add: v v' sbs blk_used_def)
  then show same: "\<forall>b. b \<noteq> c \<longrightarrow> view s'' b = view s b" by (auto simp: v v' sbs)
  have u: "blk_used s'' b = blk_used s b" if "in_fs s b" for b
    using same map_okD(3) [OF ok that] c(2) unfolding blk_used_def [of s''] sbs by (metis blk_used_def)
  then show "\<not> blk_used s'' c" using c by simp
  have fs: "in_fs s'' = in_fs s" by (simp add: in_fs_def [abs_def] sbs)
  then show "in_fs s'' c" using c(1) by simp
  have "blk_used s 1" using ok unfolding map_ok_def by blast
  then have "view s'' 1 = view s 1" using same c(2) by metis
  then show "map_ok s''" using map_okI [OF ok tframe_trans [OF tf t]] u by blast
qed

text \<open>C12. Inside a transaction with room for three blocks, and as long as some block is free, \<^verbatim>\<open>balloc\<close> returns the
  first free block: it is zeroed, marked in the free map, and no other block's mark or content changes. Freeing it with
  \<^verbatim>\<open>bfree\<close> brings back the content of every other block, the free map included, and freeing it again panics.\<close>

theorem balloc_bfree:
  fixes s :: "'z ikern_scheme"
  assumes "log_room (m + 3) s" "map_ok s" "in_fs s e" "\<not> blk_used s e"
  shows "\<exists>c s1 s2. balloc 1 s = Inr (c, s1) \<and> in_fs s c \<and> \<not> blk_used s c \<and> (\<forall>b < c. blk_used s b) \<and>
    map_ok s1 \<and> (\<forall>i < BSIZE. view s1 c i = 0) \<and> (\<forall>b. in_fs s b \<longrightarrow> blk_used s1 b = (b = c \<or> blk_used s b)) \<and>
    (\<forall>b. b \<noteq> c \<longrightarrow> b \<noteq> BBLOCK c (sb s) \<longrightarrow> view s1 b = view s b) \<and>
    bfree 1 c s1 = Inr s2 \<and> log_room m s2 \<and> map_ok s2 \<and> (\<forall>b. b \<noteq> c \<longrightarrow> view s2 b = view s b) \<and>
    bfree 1 c s2 = Inl (Panic ''freeing free block'')"
proof -
  have room: "log_room (Suc (Suc (Suc m))) s" using assms(1) by (simp add: eval_nat_numeral)
  obtain c s1 where r: "balloc 1 s = Inr (c, s1)" and sp: "balloc_spec (Suc m) s c s1"
    using balloc_from_ok [OF room assms(2), of 0 e] assms(3,4) by (auto simp: balloc_def)
  have c: "in_fs s c" "\<not> blk_used s c" "\<forall>b < c. blk_used s b" and room1: "log_room (Suc m) s1" and t: "tframe s s1"
    and v: "view s1 = (view s)(BBLOCK c (sb s) := mark_bit (unat c mod BPB) (view s (BBLOCK c (sb s))), c := memset (view s c) 0 0 BSIZE)"
    using sp unfolding balloc_spec_def by blast+
  note ok1 = balloc_spec_map_ok [OF assms(2) sp]
  have fs1: "in_fs s1 c" "blk_used s1 c" using c(1) balloc_spec_used [OF assms(2) sp c(1)] by (simp_all add: in_fs_def tframe_isel [OF t])
  obtain s2 where f: "bfree 1 c s1 = Inr s2" "log_room m s2" "tframe s1 s2"
    "view s2 = (view s1)(BBLOCK c (sb s1) := clear_bit (unat c mod BPB) (view s1 (BBLOCK c (sb s1))))"
    using bfree_ok [OF room1 ok1 fs1] by blast
  note fin = balloc_spec_clear [OF assms(2) sp f(3,4)]
  have again: "bfree 1 c s2 = Inl (Panic ''freeing free block'')" by (rule bfree_free [OF f(2) fin(4,3,2)])
  have zero: "\<forall>i < BSIZE. view s1 c i = 0" by (simp add: v memset_eq)
  have others: "\<forall>b. b \<noteq> c \<longrightarrow> b \<noteq> BBLOCK c (sb s) \<longrightarrow> view s1 b = view s b" by (simp add: v)
  have marks: "\<forall>b. in_fs s b \<longrightarrow> blk_used s1 b = (b = c \<or> blk_used s b)" using balloc_spec_used [OF assms(2) sp] by blast
  show ?thesis
    by (intro exI [of _ c] exI [of _ s1] exI [of _ s2] conjI r c ok1 zero marks others f(1,2) fin(1,4) again)
qed

text \<open>A file system of 200 blocks whose blocks from 64 on are free, and a file of 600 bytes in its blocks 50 and 51.\<close>

definition fsdisk :: "u32 \<Rightarrow> block" where
  "fsdisk b = (if b = 1 then pg_set_word (pg_set_word (pg_set_word (pg_set_word (pg_set_word (pg_set_word (pg_set_word (\<lambda>_. 0)
        0 200) 1 159) 2 8) 3 30) 4 2) 5 32) 6 40
     else if b = 40 then (\<lambda>i. if i < 8 then - 1 else 0) else (\<lambda>_. 9))"

definition fsworld :: ikern where
  "fsworld = lkern.extend ((lboot (fsdisk(2 := \<lambda>_. 0)))\<lparr>outstanding := 1\<rparr>)
     \<lparr>icache = [\<lparr>idev = 1, inum = 1, iref = 1, ibusy = True, ivalid = True, itype = 2, major = 0, minor = 0, nlink = 1,
          isize = 600, addrs = [50, 51] @ replicate 11 0\<rparr>], sb = \<lparr>sb_size = 200, nblocks = 159, ninodes = 8, nlog = 30, logstart = 2, inodestart = 32, bmapstart = 40\<rparr>\<rparr>"

lemma fsworld_sel [simp]:
  "memdisk fsworld = fsdisk(2 := \<lambda>_. 0)" "disksize fsworld = 1000" "bufs fsworld = replicate NBUF (lbuf 1)" "mru fsworld = [0..<NBUF]"
  "log_start fsworld = 2" "log_size fsworld = 30" "outstanding fsworld = 1" "log_dev fsworld = 1" "lh_n fsworld = 0"
  "lh_block fsworld = replicate LOGSIZE 0" "icache fsworld = [\<lparr>idev = 1, inum = 1, iref = 1, ibusy = True, ivalid = True, itype = 2, major = 0, minor = 0, nlink = 1,
     isize = 600, addrs = [50, 51] @ replicate 11 0\<rparr>]"
  "sb fsworld = \<lparr>sb_size = 200, nblocks = 159, ninodes = 8, nlog = 30, logstart = 2, inodestart = 32, bmapstart = 40\<rparr>"
  by (simp_all add: fsworld_def lkern.defs lboot_def bkern.defs mkern.defs)

lemma fsworld_room: "k < 30 \<Longrightarrow> log_room k fsworld"
proof -
  assume "k < 30"
  have "bcache_ok {} fsworld" "dirty_blocks fsworld = {}" by (auto simp: bcache_ok_def dirty_blocks_def lbuf_def)
  with \<open>k < 30\<close> show ?thesis by (simp add: log_room_def log_ok_def log_geom_def logged_def LOGSIZE_def NBUF_def pg_word_def load_le32_def)
qed

lemma fsworld_view [simp]: "view fsworld b = (fsdisk(2 := \<lambda>_. 0)) b"
proof -
  have "cached b fsworld = None" by (simp add: cached_def scan_None_iff holds_block_def lbuf_def)
  then show ?thesis by (simp add: view_def)
qed

lemma fsworld_block: "unat b < 200 \<Longrightarrow> BBLOCK b (sb fsworld) = 40"
proof -
  assume "unat b < 200"
  then have "unat (b div 4096) = 0" by (simp add: unat_div)
  then have "b div 4096 = 0" by (simp only: unat_eq_0)
  then show ?thesis by (simp add: BBLOCK_def)
qed

lemma fsworld_used: "unat b < 200 \<Longrightarrow> blk_used fsworld b \<longleftrightarrow> unat b < 64"
proof -
  assume u: "unat b < 200"
  have "view fsworld 40 (unat b div 8) = (if unat b < 64 then - 1 else 0)" by (auto simp: fsdisk_def)
  then show ?thesis using u unfolding blk_used_def fsworld_block [OF u] used_bit_def by (simp add: BPB_def)
qed

lemma fsworld_map: "map_ok fsworld"
proof -
  have f: "in_fs fsworld b \<longleftrightarrow> unat b < 200" for b by (simp add: in_fs_def)
  have sbs: "sb fsworld = decode_sb (view fsworld 1)" by (simp add: decode_sb_def fsdisk_def)
  have "1 < disksize fsworld" "\<not> in_log fsworld 1" "in_fs fsworld 1" "blk_used fsworld 1"
    by (simp_all add: f fsworld_used in_log_def)
  moreover have "\<forall>b. in_fs fsworld b \<longrightarrow> BBLOCK b (sb fsworld) < disksize fsworld \<and> \<not> in_log fsworld (BBLOCK b (sb fsworld)) \<and>
      BBLOCK b (sb fsworld) \<noteq> 1 \<and> blk_used fsworld (BBLOCK b (sb fsworld)) \<and> in_fs fsworld (BBLOCK b (sb fsworld)) \<and>
      (in_log fsworld b \<longrightarrow> blk_used fsworld b)" (is "\<forall>b. _ \<longrightarrow> ?P b")
  proof (intro allI impI)
    fix b
    assume "in_fs fsworld b"
    then have b: "unat b < 200" by (simp only: f)
    show "?P b" unfolding fsworld_block [OF b] f using b by (simp add: fsworld_used in_log_def)
  qed
  moreover have "unat (sb_size (sb fsworld)) \<le> unat (disksize fsworld)" by simp
  ultimately show ?thesis unfolding map_ok_def using sbs by (intro conjI)
qed

theorem balloc_bfree_witness:
  "\<exists>s1 s2. balloc 1 fsworld = Inr (64, s1) \<and> view s1 64 0 = 0 \<and> bfree 1 64 s1 = Inr s2 \<and>
     view s2 40 = view fsworld 40 \<and> bfree 1 64 s2 = Inl (Panic ''freeing free block'')"
proof -
  have r: "log_room (2 + 3) fsworld" using fsworld_room by simp
  have e: "in_fs fsworld 64" "\<not> blk_used fsworld 64" by (simp_all add: in_fs_def fsworld_used)
  obtain c s1 s2 where *: "balloc 1 fsworld = Inr (c, s1)" "in_fs fsworld c" "\<not> blk_used fsworld c" "\<forall>b < c. blk_used fsworld b"
    "\<forall>i < BSIZE. view s1 c i = 0" "bfree 1 c s1 = Inr s2" "\<forall>b. b \<noteq> c \<longrightarrow> view s2 b = view fsworld b"
    "bfree 1 c s2 = Inl (Panic ''freeing free block'')"
    using balloc_bfree [OF r fsworld_map e] by blast
  have "unat c < 200" using *(2) by (simp add: in_fs_def)
  then have "\<not> unat c < 64" using *(3) fsworld_used by blast
  moreover have "\<not> 64 < c" using *(4) e(2) by blast
  ultimately have "unat c = unat (64 :: u32)" by (simp add: word_less_nat_alt)
  then have "c = 64" by (rule unsigned_word_eqI)
  then show ?thesis using *(1,5-8) by (auto simp: BSIZE_def)
qed

end
