(* ===== verification/FileContent.thy ===== *)
theory FileContent
  imports FsProps
begin

text \<open>
  The content of a file as a function of the disk's blocks and the inode's addresses, and the correctness of
  \<^verbatim>\<open>bmap\<close>, \<^verbatim>\<open>readi\<close>, \<^verbatim>\<open>writei\<close> and \<^verbatim>\<open>iupdate\<close> with respect to it.
\<close>

section \<open>The blocks of a file\<close>

text \<open>
  \<open>own v ad j\<close> is the disk block of the file's \<open>j\<close>th block, 0 where there is none; the index \<^const>\<open>MAXFILE\<close>
  stands for the indirect block.
\<close>

definition own :: "(u32 \<Rightarrow> block) \<Rightarrow> u32 list \<Rightarrow> nat \<Rightarrow> u32" where
  "own v ad j =
     (if j < NDIRECT then ad ! j
      else if j < MAXFILE then (if ad ! NDIRECT = 0 then 0 else pg_word (v (ad ! NDIRECT)) (j - NDIRECT))
      else ad ! NDIRECT)"

definition content :: "(u32 \<Rightarrow> block) \<Rightarrow> u32 list \<Rightarrow> nat \<Rightarrow> u8" where
  "content v ad p = (let a = own v ad (p div BSIZE) in if a = 0 then 0 else v a (p mod BSIZE))"

definition own_inj :: "(u32 \<Rightarrow> block) \<Rightarrow> u32 list \<Rightarrow> bool" where
  "own_inj v ad \<longleftrightarrow> (\<forall>j \<le> MAXFILE. \<forall>k \<le> MAXFILE. own v ad j \<noteq> 0 \<longrightarrow> own v ad j = own v ad k \<longrightarrow> j = k)"

lemma own_last: "own v ad MAXFILE = ad ! NDIRECT"
  by (simp add: own_def MAXFILE_def)

text \<open>Blocks the file does not own do not matter.\<close>

lemma own_frame:
  assumes "ad ! NDIRECT \<noteq> b"
  shows "own (v(b := x)) ad = own v ad"
  using assms by (auto simp: own_def)

lemma content_frame:
  assumes "\<forall>j \<le> MAXFILE. own v ad j \<noteq> b" "p < MAXFILE * BSIZE"
  shows "content (v(b := x)) ad p = content v ad p"
proof -
  have i: "ad ! NDIRECT \<noteq> b" using assms(1) own_last [of v ad] by (metis order_refl)
  have "p div BSIZE \<le> MAXFILE" using assms(2) by (simp add: BSIZE_def MAXFILE_def NDIRECT_def NINDIRECT_def)
  then show ?thesis using assms(1) by (auto simp: content_def own_frame [OF i] Let_def)
qed

text \<open>Changing one of the file's data blocks.\<close>

lemma own_data:
  assumes "own_inj v ad" "j < MAXFILE" "own v ad j \<noteq> 0"
  shows "own (v(own v ad j := x)) ad = own v ad"
proof (rule own_frame)
  show "ad ! NDIRECT \<noteq> own v ad j" using assms own_last [of v ad] unfolding own_inj_def by (metis less_imp_le nat_neq_iff order_refl)
qed

lemma content_data:
  assumes inj: "own_inj v ad" and j: "j < MAXFILE" "own v ad j \<noteq> 0" and p: "p < MAXFILE * BSIZE"
  shows "content (v(own v ad j := x)) ad p = (if p div BSIZE = j then x (p mod BSIZE) else content v ad p)"
proof -
  have k: "p div BSIZE \<le> MAXFILE" using p by (simp add: BSIZE_def MAXFILE_def NDIRECT_def NINDIRECT_def)
  have "own v ad (p div BSIZE) = own v ad j \<longleftrightarrow> p div BSIZE = j"
    using inj j k unfolding own_inj_def by (metis less_imp_le)
  then show ?thesis using j(2) by (auto simp: content_def own_data [OF inj j] Let_def)
qed

text \<open>A new zeroed direct block in place of a hole.\<close>

lemma own_grow:
  assumes "length ad = NDIRECT + 1" "j < NDIRECT" "ad ! NDIRECT \<noteq> b" "ad ! NDIRECT \<noteq> c"
  shows "own (v(b := y, c := z)) (ad[j := c]) k = (if k = j then c else own v ad k)"
  using assms by (auto simp: own_def MAXFILE_def nth_list_update)

lemma content_grow:
  assumes len: "length ad = NDIRECT + 1" "j < NDIRECT" and b: "\<forall>k \<le> MAXFILE. own v ad k \<noteq> b" and c: "\<forall>k \<le> MAXFILE. own v ad k \<noteq> c"
    and hole: "own v ad j = 0" and z: "\<forall>i < BSIZE. z i = 0" and p: "p < MAXFILE * BSIZE"
  shows "content (v(b := y, c := z)) (ad[j := c]) p = content v ad p"
proof -
  have i: "ad ! NDIRECT \<noteq> b" "ad ! NDIRECT \<noteq> c" using b c own_last [of v ad] by (metis order_refl)+
  have "p div BSIZE \<le> MAXFILE" using p by (simp add: BSIZE_def MAXFILE_def NDIRECT_def NINDIRECT_def)
  moreover have "p mod BSIZE < BSIZE" by (simp add: BSIZE_def)
  ultimately show ?thesis using b c hole z by (auto simp: content_def own_grow [OF len i] Let_def)
qed

lemma own_inj_grow:
  assumes len: "length ad = NDIRECT + 1" "j < NDIRECT" and b: "\<forall>k \<le> MAXFILE. own v ad k \<noteq> b" and c: "\<forall>k \<le> MAXFILE. own v ad k \<noteq> c"
    and inj: "own_inj v ad"
  shows "own_inj (v(b := y, c := z)) (ad[j := c])"
proof -
  have i: "ad ! NDIRECT \<noteq> b" "ad ! NDIRECT \<noteq> c" using b c own_last [of v ad] by (metis order_refl)+
  show ?thesis using inj c unfolding own_inj_def own_grow [OF len i] by auto
qed

section \<open>A well-formed file\<close>

abbreviation ino_blk :: "'z ikern_scheme \<Rightarrow> nat \<Rightarrow> u32" where
  "ino_blk s i \<equiv> IBLOCK (inum (icache s ! i)) (sb s)"

abbreviation fown :: "'z ikern_scheme \<Rightarrow> nat \<Rightarrow> nat \<Rightarrow> u32" where
  "fown s i \<equiv> own (view s) (addrs (icache s ! i))"

abbreviation file_byte :: "'z ikern_scheme \<Rightarrow> nat \<Rightarrow> nat \<Rightarrow> u8" where
  "file_byte s i \<equiv> content (view s) (addrs (icache s ! i))"

text \<open>The blocks that hold no file data: boot block, superblock, log, free map, and the block of inode \<open>i\<close>.\<close>

definition meta_blk :: "'z ikern_scheme \<Rightarrow> nat \<Rightarrow> u32 \<Rightarrow> bool" where
  "meta_blk s i a \<longleftrightarrow> a = 0 \<or> a = 1 \<or> in_log s a \<or> a = ino_blk s i \<or> (\<exists>b. in_fs s b \<and> a = BBLOCK b (sb s))"

definition data_blk :: "'z ikern_scheme \<Rightarrow> nat \<Rightarrow> u32 \<Rightarrow> bool" where
  "data_blk s i a \<longleftrightarrow> in_fs s a \<and> blk_used s a \<and> \<not> meta_blk s i a"

definition ino_ok :: "'z ikern_scheme \<Rightarrow> nat \<Rightarrow> bool" where
  "ino_ok s i \<longleftrightarrow> i < length (icache s) \<and> idev (icache s ! i) = 1 \<and> length (addrs (icache s ! i)) = NDIRECT + 1 \<and>
     itype (icache s ! i) \<noteq> T_DEV"

definition file_ok :: "'z ikern_scheme \<Rightarrow> nat \<Rightarrow> bool" where
  "file_ok s i \<longleftrightarrow> map_ok s \<and> ino_ok s i \<and> in_fs s 0 \<and> blk_used s 0 \<and>
     in_fs s (ino_blk s i) \<and> blk_used s (ino_blk s i) \<and> \<not> in_log s (ino_blk s i) \<and> ino_blk s i \<noteq> 0 \<and> ino_blk s i \<noteq> 1 \<and>
     (\<forall>b. in_fs s b \<longrightarrow> ino_blk s i \<noteq> BBLOCK b (sb s) \<and> BBLOCK b (sb s) \<noteq> 0) \<and> own_inj (view s) (addrs (icache s ! i)) \<and>
     (\<forall>j \<le> MAXFILE. fown s i j \<noteq> 0 \<longrightarrow> data_blk s i (fown s i j))"

lemma file_okD:
  assumes "file_ok s i"
  shows "map_ok s" "i < length (icache s)" "idev (icache s ! i) = 1" "length (addrs (icache s ! i)) = NDIRECT + 1"
    "itype (icache s ! i) \<noteq> T_DEV" "own_inj (view s) (addrs (icache s ! i))" "\<not> in_log s (ino_blk s i)" "ino_blk s i < disksize s"
    "j \<le> MAXFILE \<Longrightarrow> fown s i j \<noteq> 0 \<Longrightarrow> data_blk s i (fown s i j)"
proof -
  have a: "map_ok s" "ino_ok s i" "own_inj (view s) (addrs (icache s ! i))" "in_fs s (ino_blk s i)" "\<not> in_log s (ino_blk s i)"
    "j \<le> MAXFILE \<Longrightarrow> fown s i j \<noteq> 0 \<Longrightarrow> data_blk s i (fown s i j)"
    using assms unfolding file_ok_def by blast+
  show "map_ok s" "i < length (icache s)" "idev (icache s ! i) = 1" "length (addrs (icache s ! i)) = NDIRECT + 1"
    "itype (icache s ! i) \<noteq> T_DEV" "own_inj (view s) (addrs (icache s ! i))" "\<not> in_log s (ino_blk s i)"
    "j \<le> MAXFILE \<Longrightarrow> fown s i j \<noteq> 0 \<Longrightarrow> data_blk s i (fown s i j)"
    using a unfolding ino_ok_def by blast+
  show "ino_blk s i < disksize s" using map_okD(6) [OF a(1,4)] .
qed

lemma data_blkD:
  assumes "data_blk s i a" "map_ok s"
  shows "a < disksize s" "\<not> in_log s a" "a \<noteq> 1" "a \<noteq> ino_blk s i" "in_fs s b \<Longrightarrow> BBLOCK b (sb s) \<noteq> a"
proof -
  have a: "in_fs s a" "\<not> meta_blk s i a" using assms(1) unfolding data_blk_def by blast+
  show "a < disksize s" using map_okD(6) [OF assms(2) a(1)] .
  show "\<not> in_log s a" "a \<noteq> 1" "a \<noteq> ino_blk s i" "in_fs s b \<Longrightarrow> BBLOCK b (sb s) \<noteq> a" using a(2) unfolding meta_blk_def by blast+
qed

text \<open>The file keeps its form when the marks of the free map, the superblock and its own block addresses stay.\<close>

lemma file_okI:
  assumes ok: "file_ok s i" and map: "map_ok s'" and t: "tframe s s'"
    and u: "\<And>b. in_fs s b \<Longrightarrow> blk_used s b \<Longrightarrow> blk_used s' b" and o: "fown s' i = fown s i"
  shows "file_ok s' i"
proof -
  have fs: "in_fs s' = in_fs s" by (simp add: in_fs_def [abs_def] tframe_isel [OF t])
  note fr = tframe_isel [OF t] fs tframe_log [OF t, THEN conjunct1]
  have m: "meta_blk s' i a \<longleftrightarrow> meta_blk s i a" for a unfolding meta_blk_def fr ..
  have d: "data_blk s' i a" if "data_blk s i a" for a using that u unfolding data_blk_def m fs by blast
  have inj: "own_inj (view s') (addrs (icache s ! i))"
    using file_okD(6) [OF ok] o unfolding own_inj_def fr(1) by simp
  have i: "ino_ok s' i" using ok unfolding file_ok_def ino_ok_def fr by blast
  have "in_fs s 0" "blk_used s 0" "in_fs s (ino_blk s i)" "blk_used s (ino_blk s i)" using ok unfolding file_ok_def by blast+
  then have z: "blk_used s' 0" "blk_used s' (ino_blk s i)" using u by blast+
  have dd: "\<forall>j \<le> MAXFILE. fown s' i j \<noteq> 0 \<longrightarrow> data_blk s' i (fown s' i j)" using ok d unfolding file_ok_def o by blast
  show ?thesis using ok map i z inj dd unfolding file_ok_def fr by (elim conjE) (intro conjI)
qed

lemma used_frame:
  assumes "tframe s s'" "\<And>b. in_fs s b \<Longrightarrow> BBLOCK b (sb s) \<noteq> a" "view s' = (view s)(a := x)" "in_fs s b"
  shows "blk_used s' b = blk_used s b"
  using assms by (simp add: blk_used_def tframe_isel)

text \<open>A change of a data block of the file, or of the block of its inode.\<close>

lemma file_ok_data:
  assumes ok: "file_ok s i" and t: "tframe s s'" and j: "j < MAXFILE" "fown s i j \<noteq> 0" and v: "view s' = (view s)(fown s i j := x)"
  shows "file_ok s' i" "fown s' i = fown s i"
    "\<forall>p < MAXFILE * BSIZE. file_byte s' i p = (if p div BSIZE = j then x (p mod BSIZE) else file_byte s i p)"
    "in_fs s b \<Longrightarrow> blk_used s' b = blk_used s b"
proof -
  note D = file_okD [OF ok]
  note d = data_blkD [OF D(9) [OF less_imp_le [OF j(1)] j(2)] D(1)]
  have u: "blk_used s' b = blk_used s b" if "in_fs s b" for b using used_frame [OF t d(5) v that] .
  then show "in_fs s b \<Longrightarrow> blk_used s' b = blk_used s b" .
  have m: "map_ok s'" using map_okI [OF D(1) t] u d(3) v by simp
  show o: "fown s' i = fown s i" unfolding v tframe_isel(1) [OF t] by (rule own_data [OF D(6) j])
  show "file_ok s' i" using file_okI [OF ok m t _ o] u by simp
  show "\<forall>p < MAXFILE * BSIZE. file_byte s' i p = (if p div BSIZE = j then x (p mod BSIZE) else file_byte s i p)"
    unfolding v tframe_isel(1) [OF t] using content_data [OF D(6) j] by blast
qed

lemma not_own_ino:
  assumes "file_ok s i"
  shows "\<forall>j \<le> MAXFILE. fown s i j \<noteq> ino_blk s i"
proof (intro allI impI)
  fix j
  assume j: "j \<le> MAXFILE"
  have "in_fs s 0" "blk_used s 0" using assms unfolding file_ok_def by blast+
  show "fown s i j \<noteq> ino_blk s i"
  proof (cases "fown s i j = 0")
    case False
    then show ?thesis using data_blkD(4) [OF file_okD(9) [OF assms j False] file_okD(1) [OF assms]] by blast
  qed (use assms in \<open>auto simp: file_ok_def\<close>)
qed

lemma not_own_map:
  assumes "file_ok s i" "in_fs s b"
  shows "\<forall>j \<le> MAXFILE. fown s i j \<noteq> BBLOCK b (sb s)"
proof (intro allI impI)
  fix j
  assume j: "j \<le> MAXFILE"
  show "fown s i j \<noteq> BBLOCK b (sb s)"
  proof (cases "fown s i j = 0")
    case False
    then show ?thesis using data_blkD(5) [OF file_okD(9) [OF assms(1) j False] file_okD(1) [OF assms(1)] assms(2)] by metis
  qed (use assms in \<open>auto simp: file_ok_def\<close>)
qed

lemma not_own_free:
  assumes "file_ok s i" "\<not> blk_used s c"
  shows "\<forall>j \<le> MAXFILE. fown s i j \<noteq> c" "c \<noteq> 0" "c \<noteq> 1" "c \<noteq> ino_blk s i"
proof -
  have u: "blk_used s 0" "blk_used s (ino_blk s i)" "blk_used s 1" using assms(1) unfolding file_ok_def map_ok_def by blast+
  show "c \<noteq> 0" "c \<noteq> 1" "c \<noteq> ino_blk s i" using u assms(2) by metis+
  have "fown s i j = 0 \<or> blk_used s (fown s i j)" if "j \<le> MAXFILE" for j
    using assms(1) that unfolding file_ok_def data_blk_def by blast
  then show "\<forall>j \<le> MAXFILE. fown s i j \<noteq> c" using u(1) assms(2) by metis
qed

lemma file_ok_ino:
  assumes ok: "file_ok s i" and t: "tframe s s'" and v: "view s' = (view s)(ino_blk s i := x)"
  shows "file_ok s' i" "fown s' i = fown s i" "\<forall>p < MAXFILE * BSIZE. file_byte s' i p = file_byte s i p"
    "in_fs s b \<Longrightarrow> blk_used s' b = blk_used s b"
proof -
  have n: "BBLOCK b (sb s) \<noteq> ino_blk s i" if "in_fs s b" for b using ok that unfolding file_ok_def by metis
  have u: "blk_used s' b = blk_used s b" if "in_fs s b" for b using used_frame [OF t n v that] .
  then show "in_fs s b \<Longrightarrow> blk_used s' b = blk_used s b" .
  have one: "ino_blk s i \<noteq> 1" using ok unfolding file_ok_def by blast
  have m: "map_ok s'" using map_okI [OF file_okD(1) [OF ok] t] u one v by simp
  note own = not_own_ino [OF ok]
  have "addrs (icache s ! i) ! NDIRECT \<noteq> ino_blk s i" using own own_last by (metis order_refl)
  then show o: "fown s' i = fown s i" unfolding v tframe_isel(1) [OF t] by (rule own_frame)
  show "file_ok s' i" using file_okI [OF ok m t _ o] u by simp
  show "\<forall>p < MAXFILE * BSIZE. file_byte s' i p = file_byte s i p"
    unfolding v tframe_isel(1) [OF t] using content_frame [OF own] by blast
qed

text \<open>Changes of the cached inode only.\<close>

lemma upd_inode_sel [simp]:
  "view (upd_inode i f s) = view s" "sb (upd_inode i f s) = sb s" "in_log (upd_inode i f s) = in_log s"
  "disksize (upd_inode i f s) = disksize s" "in_fs (upd_inode i f s) = in_fs s" "blk_used (upd_inode i f s) = blk_used s"
  "map_ok (upd_inode i f s) \<longleftrightarrow> map_ok s" "length (icache (upd_inode i f s)) = length (icache s)"
  "i < length (icache s) \<Longrightarrow> icache (upd_inode i f s) ! i = f (icache s ! i)"
  "j \<noteq> i \<Longrightarrow> icache (upd_inode i f s) ! j = icache s ! j"
proof -
  show v: "view (upd_inode i f s) = view s"
    by (rule ext) (simp add: view_def cached_def upd_inode_def split: option.split)
  show w: "sb (upd_inode i f s) = sb s" "in_log (upd_inode i f s) = in_log s" "disksize (upd_inode i f s) = disksize s"
    by (simp_all add: upd_inode_def in_log_def [abs_def])
  show x: "in_fs (upd_inode i f s) = in_fs s" "blk_used (upd_inode i f s) = blk_used s"
    by (simp_all add: in_fs_def [abs_def] blk_used_def [abs_def] v w)
  show "map_ok (upd_inode i f s) \<longleftrightarrow> map_ok s" unfolding map_ok_def v w x ..
qed (simp_all add: upd_inode_def)

lemma log_room_inode [simp]: "log_room m (upd_inode i f s) \<longleftrightarrow> log_room m s"
  by (simp add: log_room_def log_ok_def bcache_ok_def log_geom_def logged_def dirty_blocks_def in_log_def upd_inode_def)

lemma file_ok_size:
  assumes "i < length (icache s)"
  shows "file_ok (upd_inode i (\<lambda>ip. ip\<lparr>isize := n\<rparr>) s) i \<longleftrightarrow> file_ok s i"
proof -
  have d: "data_blk (upd_inode i (\<lambda>ip. ip\<lparr>isize := n\<rparr>) s) i = data_blk s i"
    using assms by (simp add: data_blk_def [abs_def] meta_blk_def [abs_def])
  show ?thesis unfolding file_ok_def ino_ok_def d using assms by simp
qed

text \<open>A new direct block.\<close>

lemma file_ok_grow:
  assumes ok: "file_ok s i" and sp: "balloc_spec m s c s1" and j: "j < NDIRECT" "fown s i j = 0"
    and s': "s' = upd_inode i (\<lambda>ip. ip\<lparr>addrs := (addrs ip)[j := c]\<rparr>) s1"
  shows "file_ok s' i" "fown s' i k = (if k = j then c else fown s i k)"
    "\<forall>p < MAXFILE * BSIZE. file_byte s' i p = file_byte s i p" "in_fs s b \<Longrightarrow> blk_used s' b \<longleftrightarrow> b = c \<or> blk_used s b"
proof -
  let ?ad = "addrs (icache s ! i)" and ?B = "BBLOCK c (sb s)"
  note D = file_okD [OF ok]
  have c: "in_fs s c" "\<not> blk_used s c" and t: "tframe s s1"
    and v: "view s1 = (view s)(?B := mark_bit (unat c mod BPB) (view s ?B), c := memset (view s c) 0 0 BSIZE)"
    using sp unfolding balloc_spec_def by blast+
  note own = not_own_map [OF ok c(1)] not_own_free(1) [OF ok c(2)]
  have ic: "icache s1 = icache s" using tframe_isel [OF t] by blast
  then have i1: "icache s' ! i = (icache s ! i)\<lparr>addrs := ?ad[j := c]\<rparr>" using D(2) unfolding s' by simp
  have vs: "view s' = view s1" unfolding s' by simp
  have sel: "sb s' = sb s" "in_log s' = in_log s" "in_fs s' = in_fs s" "length (icache s') = length (icache s)"
    using tframe_isel [OF t] tframe_log [OF t] unfolding s' by (simp_all add: in_fs_def [abs_def])
  have nd: "?ad ! NDIRECT \<noteq> ?B" "?ad ! NDIRECT \<noteq> c" using own own_last [of "view s" ?ad] by (metis order_refl)+
  have o: "fown s' i k = (if k = j then c else fown s i k)" for k
    using own_grow [OF D(4) j(1) nd] unfolding vs v i1 by simp
  then show "fown s' i k = (if k = j then c else fown s i k)" .
  have z: "\<forall>i < BSIZE. memset (view s c) 0 0 BSIZE i = 0" by (simp add: memset_eq)
  show "\<forall>p < MAXFILE * BSIZE. file_byte s' i p = file_byte s i p"
    using content_grow [OF D(4) j(1) own j(2) z] unfolding vs v i1 by simp
  have u: "blk_used s' b \<longleftrightarrow> b = c \<or> blk_used s b" if "in_fs s b" for b
    using balloc_spec_used [OF D(1) sp that] unfolding s' by simp
  then show "in_fs s b \<Longrightarrow> blk_used s' b \<longleftrightarrow> b = c \<or> blk_used s b" .
  have map': "map_ok s'" using balloc_spec_map_ok [OF D(1) sp] unfolding s' by simp
  have inj: "own_inj (view s') (addrs (icache s' ! i))"
    using own_inj_grow [OF D(4) j(1) own D(6)] unfolding vs v i1 by simp
  have ino: "ino_ok s' i" using D(2-5) unfolding ino_ok_def i1 sel by simp
  have meta: "meta_blk s' i a \<longleftrightarrow> meta_blk s i a" for a unfolding meta_blk_def sel i1 by simp
  have cd: "\<not> meta_blk s i c"
    using not_own_free(2-4) [OF ok c(2)] map_okD(4) [OF D(1) c(1)] map_okD(3) [OF D(1)] c(2) unfolding meta_blk_def by metis
  have dat: "\<forall>k \<le> MAXFILE. fown s' i k \<noteq> 0 \<longrightarrow> data_blk s' i (fown s' i k)"
    using D(9) u c(1) cd unfolding data_blk_def o meta sel by auto
  have "in_fs s 0" "blk_used s 0" "in_fs s (ino_blk s i)" "blk_used s (ino_blk s i)" using ok unfolding file_ok_def by blast+
  then have "blk_used s' 0" "blk_used s' (ino_blk s i)" using u by blast+
  moreover have "ino_blk s' i = ino_blk s i" unfolding i1 sel by simp
  ultimately show "file_ok s' i" using ok map' inj ino dat unfolding file_ok_def sel by (elim conjE) (intro conjI; simp)
qed

section \<open>Reading\<close>

lemma bmap_ok:
  fixes s :: "'z ikern_scheme"
  assumes ok: "file_ok s i" and room: "log_room m s" and j: "j < MAXFILE" "fown s i j \<noteq> 0"
  shows "\<exists>s'. bmap i j s = Inr (fown s i j, s') \<and> tframe s s' \<and> view s' = view s \<and> log_room m s'"
proof (cases "j < NDIRECT")
  case True
  then have "bmap i j s = Inr (fown s i j, s)" using j(2) by (simp add: bmap_def own_def Let_def)
  then show ?thesis using tframe_refl room by blast
next
  case False
  let ?a = "addrs (icache s ! i) ! NDIRECT"
  note D = file_okD [OF ok]
  have a: "?a \<noteq> 0" and o: "fown s i j = pg_word (view s ?a) (j - NDIRECT)" using False j by (auto simp: own_def split: if_splits)
  have ind: "j - NDIRECT < NINDIRECT" using False j(1) by (simp add: MAXFILE_def)
  have "data_blk s i ?a" using D(9) [of MAXFILE] a by (simp add: own_last)
  then have "?a < disksize s" using data_blkD(1) D(1) by blast
  then obtain k s1 s' where r: "bread 1 ?a s = Inr (k, s1)" "bdata (bufs s1 ! k) = view s ?a" "brelse k s1 = Inr s'"
    "log_room m s'" "view s' = view s" "tframe s s'" using read_block_room [OF room] by blast
  have "bmap i j s = Inr (fown s i j, s')"
    unfolding bmap_def Let_def using False ind a j(2) D(3) by (simp add: r(1-3) o)
  then show ?thesis using r(4-6) by blast
qed

lemma file_same:
  assumes "view s' = view s" "tframe s s'"
  shows "file_ok s' i = file_ok s i" "fown s' i = fown s i" "file_byte s' i = file_byte s i"
proof -
  note s = view_state [OF assms]
  note fr = tframe_isel [OF assms(2)] assms(1) s [THEN conjunct1] s [THEN conjunct2, THEN conjunct1] s [THEN conjunct2, THEN conjunct2]
    tframe_log [OF assms(2), THEN conjunct1]
  show "file_ok s' i = file_ok s i" unfolding file_ok_def ino_ok_def data_blk_def meta_blk_def fr ..
  show "fown s' i = fown s i" "file_byte s' i = file_byte s i" unfolding fr by (rule refl)+
qed

text \<open>One block of the loop and the rest.\<close>

lemma read_step:
  fixes off :: nat
  assumes "m = min rem (BSIZE - off mod BSIZE)" "0 < rem"
  shows "0 < m" "m \<le> rem" "off mod BSIZE + m \<le> BSIZE" "\<forall>j < m. (off + j) div BSIZE = off div BSIZE \<and> (off + j) mod BSIZE = off mod BSIZE + j"
proof -
  show "0 < m" "m \<le> rem" and le: "off mod BSIZE + m \<le> BSIZE" using assms by (auto simp: BSIZE_def)
  show "\<forall>j < m. (off + j) div BSIZE = off div BSIZE \<and> (off + j) mod BSIZE = off mod BSIZE + j"
  proof (intro allI impI)
    fix j
    assume "j < m"
    then have l: "off mod BSIZE + j < BSIZE" using le by simp
    have e: "off + j = (off mod BSIZE + j) + BSIZE * (off div BSIZE)" by simp
    have "(off + j) mod BSIZE = off mod BSIZE + j" unfolding e mod_mult_self2 by (rule mod_less [OF l])
    moreover have "(off + j) div BSIZE = off div BSIZE"
    proof -
      have "(off + j) div BSIZE = off div BSIZE + (off mod BSIZE + j) div BSIZE"
        by (subst e, rule div_mult_self2) (simp add: BSIZE_def)
      then show ?thesis using l by simp
    qed
    ultimately show "(off + j) div BSIZE = off div BSIZE \<and> (off + j) mod BSIZE = off mod BSIZE + j" by blast
  qed
qed

lemma readi_loop_ok:
  fixes s :: "'z ikern_scheme"
  assumes "file_ok s i" "log_room m s" "off + rem \<le> MAXFILE * BSIZE" "\<forall>p. off \<le> p \<and> p < off + rem \<longrightarrow> fown s i (p div BSIZE) \<noteq> 0"
  shows "\<exists>s'. readi_loop i rem off s = Inr (map (file_byte s i) [off..<off + rem], s') \<and> tframe s s' \<and> view s' = view s \<and> log_room m s'"
  using assms
proof (induction rem arbitrary: off s rule: less_induct)
  case (less rem)
  show ?case
  proof (cases "rem = 0")
    case True
    then show ?thesis using tframe_refl less.prems(2) by (subst readi_loop.simps) auto
  next
    case False
    define n where "n = min rem (BSIZE - off mod BSIZE)"
    define a where "a = fown s i (off div BSIZE)"
    note st = read_step [OF n_def] 
    have n: "0 < n" "n \<le> rem" "\<forall>j < n. (off + j) div BSIZE = off div BSIZE \<and> (off + j) mod BSIZE = off mod BSIZE + j"
      using st False by blast+
    have j: "off div BSIZE < MAXFILE" "a \<noteq> 0"
      using less.prems(3,4) False unfolding a_def by (auto simp: BSIZE_def less_mult_imp_div_less)
    note D = file_okD [OF less.prems(1)]
    obtain s1 where b: "bmap i (off div BSIZE) s = Inr (a, s1)" "tframe s s1" "view s1 = view s" "log_room m s1"
      using bmap_ok [OF less.prems(1,2) j(1)] j(2) unfolding a_def by blast
    note same1 = file_same [OF b(3,2)]
    have dev: "idev (icache s1 ! i) = 1" using D(3) tframe_isel [OF b(2)] by simp
    have "a < disksize s1" using D(9) [of "off div BSIZE"] j data_blkD(1) [OF _ D(1)] tframe_sel(1) [OF b(2)] unfolding a_def by simp
    then obtain k s2 s3 where r: "bread 1 a s1 = Inr (k, s2)" "bdata (bufs s2 ! k) = view s1 a" "brelse k s2 = Inr s3"
      "log_room m s3" "view s3 = view s1" "tframe s1 s3" using read_block_room [OF b(4)] by blast
    have v3: "view s3 = view s" and t3: "tframe s s3" using r(5,6) b(2,3) tframe_trans by auto
    note same3 = file_same [OF v3 t3]
    have "off + n + (rem - n) \<le> MAXFILE * BSIZE" "rem - n < rem" using less.prems(3) n by simp_all
    moreover have "\<forall>p. off + n \<le> p \<and> p < off + n + (rem - n) \<longrightarrow> fown s3 i (p div BSIZE) \<noteq> 0"
      using less.prems(4) n(2) unfolding same3 by simp
    ultimately obtain s' where h: "readi_loop i (rem - n) (off + n) s3 = Inr (map (file_byte s i) [off + n..<off + n + (rem - n)], s')"
      "tframe s3 s'" "view s' = view s3" "log_room m s'"
      using less.IH [of "rem - n" s3 "off + n"] less.prems(1) r(4) unfolding same3 by blast
    have xs: "map (\<lambda>j. view s a (off mod BSIZE + j)) [0..<n] = map (file_byte s i) [off..<off + n]"
      using n(3) j(2) by (auto simp: content_def a_def list_eq_iff_nth_eq Let_def)
    have "readi_loop i rem off s = Inr (map (file_byte s i) [off..<off + n] @ map (file_byte s i) [off + n..<off + n + (rem - n)], s')"
      by (subst readi_loop.simps) (simp add: False b(1) dev r(1-3) b(3) n_def [symmetric] h(1) xs Let_def)
    also have "map (file_byte s i) [off..<off + n] @ map (file_byte s i) [off + n..<off + n + (rem - n)] = map (file_byte s i) [off..<off + rem]"
      using n(2) upt_add_eq_append [of off "off + n" "rem - n"] by (simp flip: map_append)
    finally show ?thesis using h tframe_trans [OF t3 h(2)] v3 by simp
  qed
qed

section \<open>Writing\<close>

definition addrs_only :: "nat \<Rightarrow> 'z ikern_scheme \<Rightarrow> 'z ikern_scheme \<Rightarrow> bool" where
  "addrs_only i s s' \<longleftrightarrow> sb s' = sb s \<and> disksize s' = disksize s \<and> (\<exists>ad. icache s' = (icache s)[i := (icache s ! i)\<lparr>addrs := ad\<rparr>])"

lemma addrs_only_tframe: "tframe s s' \<Longrightarrow> addrs_only i s s'"
  unfolding addrs_only_def using tframe_isel [of s s'] tframe_sel(1) [of s s']
  by (auto intro: exI [of _ "addrs (icache s ! i)"])

lemma addrs_only_trans: "addrs_only i s s' \<Longrightarrow> addrs_only i s' s'' \<Longrightarrow> addrs_only i s s''"
proof -
  assume a: "addrs_only i s s'" "addrs_only i s' s''"
  then obtain ad ad' where "icache s' = (icache s)[i := (icache s ! i)\<lparr>addrs := ad\<rparr>]" "icache s'' = (icache s')[i := (icache s' ! i)\<lparr>addrs := ad'\<rparr>]"
    unfolding addrs_only_def by blast
  then have "icache s'' = (icache s)[i := (icache s ! i)\<lparr>addrs := ad'\<rparr>]"
    by (cases "i < length (icache s)") (simp_all add: list_update_beyond)
  then show ?thesis using a unfolding addrs_only_def by auto
qed

lemma addrs_only_sel:
  assumes "addrs_only i s s'"
  shows "isize (icache s' ! i) = isize (icache s ! i)" "inum (icache s' ! i) = inum (icache s ! i)" "length (icache s') = length (icache s)"
    "j \<noteq> i \<Longrightarrow> icache s' ! j = icache s ! j" "in_fs s' = in_fs s" "sb s' = sb s" "idev (icache s' ! i) = idev (icache s ! i)"
    "\<exists>ad. icache s' ! i = (icache s ! i)\<lparr>addrs := ad\<rparr>"
proof -
  obtain ad where e: "icache s' = (icache s)[i := (icache s ! i)\<lparr>addrs := ad\<rparr>]" and b: "sb s' = sb s"
    using assms unfolding addrs_only_def by blast
  show "in_fs s' = in_fs s" by (simp add: in_fs_def [abs_def] b)
  show "sb s' = sb s" by (fact b)
  show ex: "\<exists>ad. icache s' ! i = (icache s ! i)\<lparr>addrs := ad\<rparr>"
    by (cases "i < length (icache s)") (auto simp: e list_update_beyond intro: exI [of _ "addrs (icache s ! i)"])
  then show "isize (icache s' ! i) = isize (icache s ! i)" "inum (icache s' ! i) = inum (icache s ! i)"
    "idev (icache s' ! i) = idev (icache s ! i)" by auto
  show "length (icache s') = length (icache s)" "j \<noteq> i \<Longrightarrow> icache s' ! j = icache s ! j" by (simp_all add: e)
qed

text \<open>The number of free blocks, and of blocks that a range of bytes touches.\<close>

definition nfree :: "'z ikern_scheme \<Rightarrow> nat" where
  "nfree s = card {b. in_fs s b \<and> \<not> blk_used s b}"

lemma nfree_same:
  assumes "in_fs s' = in_fs s" "\<And>b. in_fs s b \<Longrightarrow> blk_used s' b = blk_used s b"
  shows "nfree s' = nfree s"
proof -
  have "{b. in_fs s' b \<and> \<not> blk_used s' b} = {b. in_fs s b \<and> \<not> blk_used s b}" using assms by auto
  then show ?thesis by (simp add: nfree_def)
qed

lemma nfree_grow:
  assumes "in_fs s' = in_fs s" "\<And>b. in_fs s b \<Longrightarrow> blk_used s' b \<longleftrightarrow> b = c \<or> blk_used s b"
  shows "nfree s \<le> Suc (nfree s')"
proof -
  have "{b. in_fs s b \<and> \<not> blk_used s b} \<subseteq> insert c {b. in_fs s' b \<and> \<not> blk_used s' b}" using assms by auto
  then have "nfree s \<le> card (insert c {b. in_fs s' b \<and> \<not> blk_used s' b})" unfolding nfree_def by (rule card_mono [rotated]) simp
  also have "\<dots> \<le> Suc (nfree s')" unfolding nfree_def by (simp add: card_insert_if)
  finally show ?thesis .
qed

definition spanned :: "nat \<Rightarrow> nat \<Rightarrow> nat" where
  "spanned off rem = (if rem = 0 then 0 else (off + rem - 1) div BSIZE - off div BSIZE + 1)"

lemma spanned_step:
  assumes m: "m = min rem (BSIZE - off mod BSIZE)" and r: "0 < rem"
  shows "spanned off rem = Suc (spanned (off + m) (rem - m))"
proof (cases "m = rem")
  case True
  then have "(off + (rem - 1)) div BSIZE = off div BSIZE" using read_step(4) [OF m r, rule_format, of "rem - 1"] r by linarith
  then show ?thesis using True r by (simp add: spanned_def)
next
  case False
  then have e: "m = BSIZE - off mod BSIZE" "m < rem" using m by auto
  have "off + m = BSIZE * (off div BSIZE) + BSIZE"
  proof -
    have "off mod BSIZE < BSIZE" by (simp add: BSIZE_def)
    then show ?thesis using e(1) mult_div_mod_eq [of BSIZE off] by linarith
  qed
  then have d: "(off + m) div BSIZE = Suc (off div BSIZE)" by (simp add: BSIZE_def)
  moreover have "(off + m) div BSIZE \<le> (off + rem - 1) div BSIZE" by (rule div_le_mono) (use e(2) in simp)
  moreover have "off + m + (rem - m) = off + rem" using e(2) by simp
  ultimately show ?thesis using e(2) r by (simp add: spanned_def)
qed

text \<open>\<^verbatim>\<open>bmap\<close> in \<^verbatim>\<open>writei\<close>: it finds the block or, among the direct ones, makes it.\<close>

lemma bmap_write_ok:
  fixes s :: "'z ikern_scheme"
  assumes ok: "file_ok s i" and room: "log_room (Suc (Suc m)) s" and j: "j < MAXFILE" "fown s i j \<noteq> 0 \<or> j < NDIRECT" and f: "0 < nfree s"
  shows "\<exists>a s'. bmap i j s = Inr (a, s') \<and> a \<noteq> 0 \<and> log_room m s' \<and> file_ok s' i \<and> fown s' i j = a \<and> addrs_only i s s' \<and>
    (\<forall>k. k \<noteq> j \<longrightarrow> fown s' i k = fown s i k) \<and> (\<forall>p < MAXFILE * BSIZE. file_byte s' i p = file_byte s i p) \<and> nfree s \<le> Suc (nfree s') \<and>
    (fown s i j \<noteq> 0 \<longrightarrow> a = fown s i j)"
proof (cases "fown s i j = 0")
  case False
  have r: "log_room m s" using room by (simp add: log_room_def)
  obtain s' where b: "bmap i j s = Inr (fown s i j, s')" "tframe s s'" "view s' = view s" "log_room m s'"
    using bmap_ok [OF ok r j(1) False] by blast
  note same = file_same [OF b(3,2)]
  have "nfree s' = nfree s" using view_state [OF b(3,2)] by (simp add: nfree_def)
  then show ?thesis using b(1,4) False same ok addrs_only_tframe [OF b(2)] by auto
next
  case True
  then have d: "j < NDIRECT" using j(2) by blast
  have "{b. in_fs s b \<and> \<not> blk_used s b} \<noteq> {}" using f unfolding nfree_def by (metis card.empty less_numeral_extra(3))
  then obtain e where e: "in_fs s e" "\<not> blk_used s e" by blast
  note D = file_okD [OF ok]
  obtain c s1 where r: "balloc 1 s = Inr (c, s1)" and sp: "balloc_spec m s c s1"
    using balloc_from_ok [OF room D(1), of 0 e] e by (auto simp: balloc_def)
  define s' where "s' = upd_inode i (\<lambda>ip. ip\<lparr>addrs := (addrs ip)[j := c]\<rparr>) s1"
  note g = file_ok_grow [OF ok sp d True s'_def]
  have c: "\<not> blk_used s c" "log_room m s1" "tframe s s1" using sp unfolding balloc_spec_def by blast+
  have "bmap i j s = Inr (c, s')" using d True D(3) by (simp add: bmap_def own_def Let_def r s'_def)
  moreover have "c \<noteq> 0" using not_own_free(2) [OF ok c(1)] .
  moreover have "log_room m s'" using c(2) by (simp add: s'_def)
  moreover have "addrs_only i s s'"
    using tframe_isel [OF c(3)] tframe_sel(1) [OF c(3)] unfolding addrs_only_def s'_def by (simp add: upd_inode_def) blast
  moreover from this have "nfree s \<le> Suc (nfree s')" using nfree_grow [OF addrs_only_sel(5) g(4)] by blast
  ultimately show ?thesis using g(1-3) True by auto
qed

text \<open>One block written: the block of the current offset gets the bytes, the rest stays.\<close>

lemma block_write_ok:
  fixes s :: "'z ikern_scheme" and off :: nat
  assumes ok: "file_ok s i" and room: "log_room (Suc m) s" and j: "off div BSIZE < MAXFILE" and a: "fown s i (off div BSIZE) = a" "a \<noteq> 0"
    and n: "n = min rem (BSIZE - off mod BSIZE)" "0 < rem"
  shows "\<exists>k s1 s2 s'. bread 1 a s = Inr (k, s1) \<and>
    log_write k (bset k (\<lambda>x j. if off mod BSIZE \<le> j \<and> j < off mod BSIZE + n then src (at + (j - off mod BSIZE)) else x j) s1) = Inr s2 \<and>
    brelse k s2 = Inr s' \<and> file_ok s' i \<and> log_room m s' \<and> addrs_only i s s' \<and> fown s' i = fown s i \<and> nfree s' = nfree s \<and>
    (\<forall>p < MAXFILE * BSIZE. file_byte s' i p = (if off \<le> p \<and> p < off + n then src (at + (p - off)) else file_byte s i p))"
proof -
  let ?f = "\<lambda>x j. if off mod BSIZE \<le> j \<and> j < off mod BSIZE + n then src (at + (j - off mod BSIZE)) else x j"
  note D = file_okD [OF ok]
  have dat: "data_blk s i a" using D(9) [OF less_imp_le [OF j]] a by simp
  obtain k s1 s' where r: "bread 1 a s = Inr (k, s1)" "run (log_write k (bset k ?f s1)) (brelse k) = Inr s'" "log_room m s'"
    "view s' = (view s)(a := ?f (view s a))" "tframe s s'"
    using log_update [OF room data_blkD(1,2) [OF dat D(1)], of ?f] by blast
  obtain s2 where w: "log_write k (bset k ?f s1) = Inr s2" "brelse k s2 = Inr s'" using r(2) by (cases "log_write k (bset k ?f s1)") auto
  have o: "fown s i (off div BSIZE) \<noteq> 0" "view s' = (view s)(fown s i (off div BSIZE) := ?f (view s a))" using a r(4) by simp_all
  note d = file_ok_data [OF ok r(5) j o]
  have "file_byte s' i p = (if off \<le> p \<and> p < off + n then src (at + (p - off)) else file_byte s i p)" if p: "p < MAXFILE * BSIZE" for p
  proof (cases "p div BSIZE = off div BSIZE")
    case True
    define q where "q = BSIZE * (off div BSIZE)"
    have e: "p = q + p mod BSIZE" "off = q + off mod BSIZE" using True unfolding q_def by (metis mult_div_mod_eq)+
    have pm: "off \<le> p \<and> p < off + n \<longleftrightarrow> off mod BSIZE \<le> p mod BSIZE \<and> p mod BSIZE < off mod BSIZE + n"
      by (subst (1 2) e(1), subst (1 2) e(2)) simp
    have pm': "p mod BSIZE - off mod BSIZE = p - off" using e by linarith
    have "file_byte s i p = view s a (p mod BSIZE)" using True a by (simp add: content_def Let_def)
    then show ?thesis using d(3) [rule_format, OF p] True by (simp add: pm pm')
  next
    case False
    have "\<not> (off \<le> p \<and> p < off + n)"
    proof
      assume "off \<le> p \<and> p < off + n"
      then have "p = off + (p - off)" "p - off < n" by auto
      then show False using read_step(4) [OF n] False by metis
    qed
    then show ?thesis using d(3) [rule_format, OF p] False by auto
  qed
  moreover have "nfree s' = nfree s" using nfree_same [OF _ d(4)] tframe_isel [OF r(5)] by (simp add: in_fs_def [abs_def])
  ultimately show ?thesis using r(1,3) w d(1,2) addrs_only_tframe [OF r(5)] by blast
qed

lemma writei_loop_ok:
  fixes s :: "'z ikern_scheme"
  assumes "file_ok s i" "log_room (m + 3 * spanned off rem) s" "off + rem \<le> MAXFILE * BSIZE" "spanned off rem \<le> nfree s"
    "\<forall>p. off \<le> p \<and> p < off + rem \<longrightarrow> fown s i (p div BSIZE) \<noteq> 0 \<or> p < NDIRECT * BSIZE"
  shows "\<exists>s'. writei_loop i src at rem off s = Inr s' \<and> file_ok s' i \<and> log_room m s' \<and> addrs_only i s s' \<and>
    (\<forall>p < MAXFILE * BSIZE. file_byte s' i p = (if off \<le> p \<and> p < off + rem then src (at + (p - off)) else file_byte s i p)) \<and>
    (\<forall>j. fown s i j \<noteq> 0 \<longrightarrow> fown s' i j = fown s i j) \<and> (\<forall>p. off \<le> p \<and> p < off + rem \<longrightarrow> fown s' i (p div BSIZE) \<noteq> 0)"
  using assms
proof (induction rem arbitrary: "at" off s rule: less_induct)
  case (less rem)
  show ?case
  proof (cases "rem = 0")
    case True
    then show ?thesis using less.prems(1,2) addrs_only_tframe [OF tframe_refl] by (subst writei_loop.simps) (auto simp: spanned_def)
  next
    case False
    then have pos: "0 < rem" by simp
    define n where "n = min rem (BSIZE - off mod BSIZE)"
    define j where "j = off div BSIZE"
    note st = read_step [OF n_def pos] and sp = spanned_step [OF n_def pos]
    define k where "k = m + 3 * spanned (off + n) (rem - n)"
    have room: "log_room (Suc (Suc (Suc k))) s" using less.prems(2) unfolding sp k_def by (simp add: eval_nat_numeral)
    have j: "j < MAXFILE" using less.prems(3) pos unfolding j_def by (auto simp: BSIZE_def less_mult_imp_div_less)
    have own: "fown s i j \<noteq> 0 \<or> j < NDIRECT"
      using less.prems(5) [rule_format, of off] pos unfolding j_def by (auto simp: BSIZE_def less_mult_imp_div_less)
    obtain a s1 where b: "bmap i j s = Inr (a, s1)" "a \<noteq> 0" "log_room (Suc k) s1" "file_ok s1 i" "fown s1 i j = a" "addrs_only i s s1"
      "\<forall>l. l \<noteq> j \<longrightarrow> fown s1 i l = fown s i l" "\<forall>p < MAXFILE * BSIZE. file_byte s1 i p = file_byte s i p" "nfree s \<le> Suc (nfree s1)"
      "fown s i j \<noteq> 0 \<longrightarrow> a = fown s i j"
      using bmap_write_ok [OF less.prems(1) room j own] less.prems(4) unfolding sp by auto
    obtain q s2 s3 s4 where w: "bread 1 a s1 = Inr (q, s2)"
      "log_write q (bset q (\<lambda>x j. if off mod BSIZE \<le> j \<and> j < off mod BSIZE + n then src (at + (j - off mod BSIZE)) else x j) s2) = Inr s3"
      "brelse q s3 = Inr s4" "file_ok s4 i" "log_room k s4" "addrs_only i s1 s4" "fown s4 i = fown s1 i" "nfree s4 = nfree s1"
      "\<forall>p < MAXFILE * BSIZE. file_byte s4 i p = (if off \<le> p \<and> p < off + n then src (at + (p - off)) else file_byte s1 i p)"
      using block_write_ok [OF b(4,3) _ _ b(2) n_def pos] j b(5) unfolding j_def by blast
    have dev: "idev (icache s1 ! i) = 1" using file_okD(3) [OF b(4)] .
    have keep: "fown s i l \<noteq> 0 \<longrightarrow> fown s4 i l = fown s i l" for l using b(5,7,10) w(7) by (cases "l = j") auto
    have IH: "rem - n < rem" "off + n + (rem - n) \<le> MAXFILE * BSIZE" "spanned (off + n) (rem - n) \<le> nfree s4"
      using st(1,2) less.prems(3,4) b(9) w(8) unfolding sp by simp_all
    have own4: "\<forall>p. off + n \<le> p \<and> p < off + n + (rem - n) \<longrightarrow> fown s4 i (p div BSIZE) \<noteq> 0 \<or> p < NDIRECT * BSIZE"
      using less.prems(5) keep st(2) by (metis add_leD1 le_add_diff_inverse ab_semigroup_add_class.add_ac(1))
    obtain s' where h: "writei_loop i src (at + n) (rem - n) (off + n) s4 = Inr s'" "file_ok s' i" "log_room m s'" "addrs_only i s4 s'"
      "\<forall>p < MAXFILE * BSIZE. file_byte s' i p = (if off + n \<le> p \<and> p < off + n + (rem - n) then src (at + n + (p - (off + n))) else file_byte s4 i p)"
      "\<forall>j. fown s4 i j \<noteq> 0 \<longrightarrow> fown s' i j = fown s4 i j" "\<forall>p. off + n \<le> p \<and> p < off + n + (rem - n) \<longrightarrow> fown s' i (p div BSIZE) \<noteq> 0"
      using less.IH [OF IH(1) w(4) _ IH(2,3) own4] w(5) unfolding k_def by blast
    have "writei_loop i src at rem off s = Inr s'"
      by (subst writei_loop.simps) (simp add: False b(1) [unfolded j_def] dev w(1,2,3) n_def [symmetric] h(1) Let_def)
    moreover have "addrs_only i s s'" using addrs_only_trans b(6) w(6) h(4) by blast
    moreover have "file_byte s' i p = (if off \<le> p \<and> p < off + rem then src (at + (p - off)) else file_byte s i p)" if p: "p < MAXFILE * BSIZE" for p
      using h(5) [rule_format, OF p] w(9) [rule_format, OF p] b(8) [rule_format, OF p] st(2) by (auto split: if_splits)
    moreover have "fown s i l \<noteq> 0 \<longrightarrow> fown s' i l = fown s i l" for l using keep [of l] h(6) by auto
    moreover have "fown s' i (p div BSIZE) \<noteq> 0" if p: "off \<le> p" "p < off + rem" for p
    proof (cases "p < off + n")
      case True
      then have "p div BSIZE = j" using st(4) [rule_format, of "p - off"] p(1) unfolding j_def by simp
      then show ?thesis using h(6) [rule_format, of j] w(7) b(2,5) by simp
    qed (use h(7) p st(2) in simp)
    ultimately show ?thesis using h(2,3) by blast
  qed
qed

section \<open>readi and writei\<close>

definition whole :: "'z ikern_scheme \<Rightarrow> nat \<Rightarrow> bool" where
  "whole s i \<longleftrightarrow> unat (isize (icache s ! i)) \<le> MAXFILE * BSIZE \<and> (\<forall>p < unat (isize (icache s ! i)). fown s i (p div BSIZE) \<noteq> 0)"

lemma iupdate_ok:
  fixes s :: "'z ikern_scheme"
  assumes ok: "file_ok s i" and room: "log_room (Suc m) s"
  shows "\<exists>s'. iupdate i s = Inr s' \<and> log_room m s' \<and> tframe s s' \<and>
    view s' = (view s)(ino_blk s i := put_dinode (disk_copy (icache s ! i)) (dinode_off (inum (icache s ! i))) (view s (ino_blk s i)))"
proof -
  note D = file_okD [OF ok]
  obtain k s1 s' where r: "bread 1 (ino_blk s i) s = Inr (k, s1)"
    "run (log_write k (bset k (put_dinode (disk_copy (icache s ! i)) (dinode_off (inum (icache s ! i)))) s1)) (brelse k) = Inr s'"
    "log_room m s'" "view s' = (view s)(ino_blk s i := put_dinode (disk_copy (icache s ! i)) (dinode_off (inum (icache s ! i))) (view s (ino_blk s i)))"
    "tframe s s'"
    using log_update [OF room D(8,7)] by blast
  have "iupdate i s = Inr s'" unfolding iupdate_def Let_def using D(3) by (simp add: r(1,2))
  then show ?thesis using r(3-5) by blast
qed

lemma sint_unat: "unat (n :: u32) < 2 ^ 31 \<Longrightarrow> sint n = int (unat n)"
proof -
  assume "unat n < 2 ^ 31"
  then have "int (unat n) < int (2 ^ 31)" by (simp only: of_nat_less_iff)
  then show ?thesis using sint_small [of "int (unat n)"] by simp
qed

lemma readi_ok:
  fixes s :: "'z ikern_scheme"
  assumes ok: "file_ok s i" and w: "whole s i" and room: "log_room m s" and off: "unat off + unat n \<le> unat (isize (icache s ! i))"
  shows "\<exists>s'. readi ds i off n s = Inr (int (unat n), map (file_byte s i) [unat off..<unat off + unat n], s') \<and>
    tframe s s' \<and> view s' = view s \<and> log_room m s'"
proof -
  let ?z = "isize (icache s ! i)"
  have sz: "unat ?z \<le> MAXFILE * BSIZE" "\<forall>p < unat ?z. fown s i (p div BSIZE) \<noteq> 0" using w unfolding whole_def by blast+
  have lt: "MAXFILE * BSIZE < 2 ^ 31" by (simp add: MAXFILE_def BSIZE_def NDIRECT_def NINDIRECT_def)
  have un: "unat (off + n) = unat off + unat n" using off sz(1) lt by (subst unat_add_lem [THEN iffD1]) simp_all
  have c: "\<not> off > ?z" "\<not> off + n < off" "\<not> off + n > ?z" using off un by (simp_all add: word_less_nat_alt)
  have b: "unat off + unat n \<le> MAXFILE * BSIZE" using off sz(1) by linarith
  have o: "\<forall>p. unat off \<le> p \<and> p < unat off + unat n \<longrightarrow> fown s i (p div BSIZE) \<noteq> 0" using sz(2) off by auto
  obtain s' where r: "readi_loop i (unat n) (unat off) s = Inr (map (file_byte s i) [unat off..<unat off + unat n], s')"
    "tframe s s'" "view s' = view s" "log_room m s'" using readi_loop_ok [OF ok room b o] by blast
  have sn: "sint n = int (unat n)" using sint_unat b lt by auto
  have "readi ds i off n s = Inr (int (unat n), map (file_byte s i) [unat off..<unat off + unat n], s')"
    unfolding readi_def Let_def using c file_okD(5) [OF ok] by (simp add: r(1) sn)
  then show ?thesis using r(2-4) by blast
qed

text \<open>The conditions for a write: the file ends at or after \<open>off\<close>, the range fits, its blocks exist or are direct.\<close>

definition writable :: "'z ikern_scheme \<Rightarrow> nat \<Rightarrow> u32 \<Rightarrow> u32 \<Rightarrow> bool" where
  "writable s i off n \<longleftrightarrow> file_ok s i \<and> whole s i \<and> off \<le> isize (icache s ! i) \<and> unat off + unat n \<le> MAXFILE * BSIZE \<and>
     spanned (unat off) (unat n) \<le> nfree s \<and>
     (\<forall>p. unat off \<le> p \<and> p < unat off + unat n \<longrightarrow> fown s i (p div BSIZE) \<noteq> 0 \<or> p < NDIRECT * BSIZE)"

lemma writei_ok:
  fixes s :: "'z ikern_scheme"
  assumes w: "writable s i off n" and room: "log_room (Suc m + 3 * spanned (unat off) (unat n)) s"
  shows "\<exists>s'. writei ds i src off n s = Inr (int (unat n), s') \<and> file_ok s' i \<and> whole s' i \<and> log_room m s' \<and>
    isize (icache s' ! i) = max (isize (icache s ! i)) (off + n) \<and> (\<forall>j. j \<noteq> i \<longrightarrow> icache s' ! j = icache s ! j) \<and>
    (\<forall>p < MAXFILE * BSIZE. file_byte s' i p = (if unat off \<le> p \<and> p < unat off + unat n then src (p - unat off) else file_byte s i p))"
proof -
  let ?z = "isize (icache s ! i)"
  have ok: "file_ok s i" and wh: "whole s i" and off: "off \<le> ?z" and fit: "unat off + unat n \<le> MAXFILE * BSIZE"
    and fr: "spanned (unat off) (unat n) \<le> nfree s"
    and own: "\<forall>p. unat off \<le> p \<and> p < unat off + unat n \<longrightarrow> fown s i (p div BSIZE) \<noteq> 0 \<or> p < NDIRECT * BSIZE"
    using w unfolding writable_def by blast+
  have lt: "MAXFILE * BSIZE < 2 ^ 31" by (simp add: MAXFILE_def BSIZE_def NDIRECT_def NINDIRECT_def)
  have un: "unat (off + n) = unat off + unat n" using fit lt by (subst unat_add_lem [THEN iffD1]) simp_all
  have sn: "sint n = int (unat n)" using sint_unat fit lt by auto
  obtain s1 where l: "writei_loop i src 0 (unat n) (unat off) s = Inr s1" "file_ok s1 i" "log_room (Suc m) s1" "addrs_only i s s1"
    "\<forall>p < MAXFILE * BSIZE. file_byte s1 i p = (if unat off \<le> p \<and> p < unat off + unat n then src (0 + (p - unat off)) else file_byte s i p)"
    "\<forall>j. fown s i j \<noteq> 0 \<longrightarrow> fown s1 i j = fown s i j" "\<forall>p. unat off \<le> p \<and> p < unat off + unat n \<longrightarrow> fown s1 i (p div BSIZE) \<noteq> 0"
    using writei_loop_ok [OF ok room fit fr own, of src 0] by blast
  have z1: "isize (icache s1 ! i) = ?z" using addrs_only_sel(1) [OF l(4)] .
  have len: "i < length (icache s1)" using file_okD(2) [OF l(2)] .
  have sz: "unat ?z \<le> MAXFILE * BSIZE" "\<forall>p < unat ?z. fown s i (p div BSIZE) \<noteq> 0" using wh unfolding whole_def by blast+
  have w1: "\<forall>p < unat ?z. fown s1 i (p div BSIZE) \<noteq> 0" using sz(2) l(6) by metis
  have go: "writei ds i src off n s = (if n > 0 \<and> off + n > ?z
      then run (iupdate i (upd_inode i (\<lambda>ip. ip\<lparr>isize := off + n\<rparr>) s1)) (\<lambda>s. Inr (int (unat n), s)) else Inr (int (unat n), s1))"
    unfolding writei_def Let_def using off fit file_okD(5) [OF ok]
    by (simp add: l(1) sn z1 un word_less_nat_alt word_le_nat_alt unat_eq_0)
  have oth: "\<forall>j. j \<noteq> i \<longrightarrow> icache s1 ! j = icache s ! j" using addrs_only_sel(4) [OF l(4)] by blast
  have r1: "log_room m s1" using l(3) by (simp add: log_room_def)
  show ?thesis
  proof (cases "n > 0 \<and> off + n > ?z")
    case False
    have "max ?z (off + n) = ?z"
    proof (cases "n > 0")
      case True
      then show ?thesis using False by (simp add: max_def)
    next
      case False
      then have "n = 0" by (simp add: word_gt_0)
      then show ?thesis using off by (simp add: max_def)
    qed
    then show ?thesis using False go l(2,5) r1 oth z1 sz(1) w1 by (auto simp: whole_def)
  next
    case True
    define s2 where "s2 = upd_inode i (\<lambda>ip. ip\<lparr>isize := off + n\<rparr>) s1"
    have ok2: "file_ok s2 i" "log_room (Suc m) s2" using l(2,3) file_ok_size [OF len] unfolding s2_def by simp_all
    have i2: "icache s2 ! i = (icache s1 ! i)\<lparr>isize := off + n\<rparr>" "view s2 = view s1" using len unfolding s2_def by simp_all
    have oth2: "\<forall>j. j \<noteq> i \<longrightarrow> icache s2 ! j = icache s ! j" using oth unfolding s2_def by simp
    obtain s' where u: "iupdate i s2 = Inr s'" "log_room m s'" "tframe s2 s'"
      "view s' = (view s2)(ino_blk s2 i := put_dinode (disk_copy (icache s2 ! i)) (dinode_off (inum (icache s2 ! i))) (view s2 (ino_blk s2 i)))"
      using iupdate_ok [OF ok2] by blast
    note f = file_ok_ino [OF ok2(1) u(3,4)]
    have ic: "icache s' = icache s2" using tframe_isel [OF u(3)] by blast
    have own': "fown s' i = fown s1 i" using f(2) unfolding i2 ic by simp
    have "whole s' i"
    proof -
      have "fown s1 i (p div BSIZE) \<noteq> 0" if "p < unat off + unat n" for p
        using w1 l(7) that off by (cases "p < unat off") (simp_all add: word_le_nat_alt)
      then show ?thesis using fit unfolding whole_def own' unfolding ic i2 by (simp add: un)
    qed
    moreover have "\<forall>p < MAXFILE * BSIZE. file_byte s' i p = (if unat off \<le> p \<and> p < unat off + unat n then src (p - unat off) else file_byte s i p)"
      using f(3) l(5) unfolding i2 by simp
    moreover have "isize (icache s' ! i) = max ?z (off + n)" using True unfolding ic i2 by (simp add: max_absorb2)
    moreover have "writei ds i src off n s = Inr (int (unat n), s')" using go True u(1) unfolding s2_def by simp
    moreover have "\<forall>j. j \<noteq> i \<longrightarrow> icache s' ! j = icache s ! j" using oth2 unfolding ic .
    ultimately show ?thesis using u(2) f(1) by blast
  qed
qed


text \<open>The example file: bytes 500 to 1099 are written, which makes its third block.\<close>

lemma fsworld_own: "j \<le> MAXFILE \<Longrightarrow> fown fsworld 0 j = (if j = 0 then 50 else if j = 1 then 51 else 0)"
  by (auto simp: own_def NDIRECT_def MAXFILE_def NINDIRECT_def nth_Cons' nth_append)

lemma fsworld_file: "file_ok fsworld 0"
proof -
  have f: "in_fs fsworld b \<longleftrightarrow> unat b < 200" for b by (simp add: in_fs_def)
  have I: "ino_blk fsworld 0 = 32" by (simp add: IBLOCK_def)
  have B: "BBLOCK b (sb fsworld) = 40" if "in_fs fsworld b" for b using fsworld_block that f by blast
  have inj: "own_inj (view fsworld) (addrs (icache fsworld ! 0))"
    unfolding own_inj_def by (auto simp: fsworld_own simp del: fsworld_sel fsworld_view)
  have d: "data_blk fsworld 0 50" "data_blk fsworld 0 51"
    unfolding data_blk_def meta_blk_def I using B by (auto simp: f fsworld_used in_log_def)
  have dat: "\<forall>j \<le> MAXFILE. fown fsworld 0 j \<noteq> 0 \<longrightarrow> data_blk fsworld 0 (fown fsworld 0 j)"
    using d fsworld_own by (auto split: if_splits simp del: fsworld_sel fsworld_view)
  have ino: "ino_ok fsworld 0" by (simp add: ino_ok_def NDIRECT_def T_DEV_def)
  show ?thesis unfolding file_ok_def I
    by (intro conjI fsworld_map ino inj dat) (use B in \<open>auto simp: f fsworld_used in_log_def\<close>)
qed

lemma fsworld_writable: "writable fsworld 0 500 600" "spanned (unat (500 :: u32)) (unat (600 :: u32)) = 3"
proof -
  show sp: "spanned (unat (500 :: u32)) (unat (600 :: u32)) = 3" by (simp add: spanned_def BSIZE_def)
  have "{64, 65, 66} \<subseteq> {b. in_fs fsworld b \<and> \<not> blk_used fsworld b}" by (auto simp: in_fs_def fsworld_used)
  then have "card {64, 65, 66 :: u32} \<le> nfree fsworld" unfolding nfree_def by (rule card_mono [rotated]) simp
  then have n: "3 \<le> nfree fsworld" by simp
  have w: "whole fsworld 0"
  proof -
    have "fown fsworld 0 (p div BSIZE) \<noteq> 0" if "p < 600" for p
    proof -
      have "p div BSIZE \<le> 1" using that by (simp add: BSIZE_def)
      then show ?thesis using fsworld_own [of "p div BSIZE"] by (auto simp: MAXFILE_def NDIRECT_def)
    qed
    then show ?thesis by (simp add: whole_def MAXFILE_def NDIRECT_def BSIZE_def NINDIRECT_def)
  qed
  show "writable fsworld 0 500 600"
    unfolding writable_def sp using fsworld_file w n by (simp add: MAXFILE_def NDIRECT_def BSIZE_def NINDIRECT_def)
qed


end
