(* ===== verification/Dinode.thy ===== *)
theory Dinode
  imports FileContent
begin

text \<open>
  The disk inode: \<^verbatim>\<open>iupdate\<close> stores the fields that \<^verbatim>\<open>ilock\<close> loads, and leaves the other inodes of the
  block alone.
\<close>

section \<open>Fields of a block\<close>

lemma load32_store32: "load_le32 (store_le32 b a w) a = w"
  unfolding load_le32_def store_le32_def using byte_parts [of w] by simp

lemma load32_other:
  assumes "c + 4 \<le> a \<or> a + 4 \<le> c"
  shows "load_le32 (store_le32 b a w) c = load_le32 b c"
  using assms by (auto simp: load_le32_def store_le32_def)

lemma load16_store16: "load_le16 (store_le16 b a w) a = w"
  by (rule bit_word_eqI) (auto simp: load_le16_def store_le16_def bit_simps)

lemma load16_other:
  assumes "c + 2 \<le> a \<or> a + 2 \<le> c"
  shows "load_le16 (store_le16 b a w) c = load_le16 b c"
  using assms by (auto simp: load_le16_def store_le16_def)

lemma load16_store32:
  assumes "c + 2 \<le> a \<or> a + 4 \<le> c"
  shows "load_le16 (store_le32 b a w) c = load_le16 b c"
  using assms by (auto simp: load_le16_def store_le32_def)

lemma load32_store16:
  assumes "c + 4 \<le> a \<or> a + 2 \<le> c"
  shows "load_le32 (store_le16 b a w) c = load_le32 b c"
  using assms by (auto simp: load_le32_def store_le16_def)

lemmas field_simps16 = load32_store32 load32_other load16_store16 load16_other load16_store32 load32_store16

text \<open>The array of block addresses.\<close>

definition put_addrs :: "nat \<Rightarrow> nat \<Rightarrow> u32 list \<Rightarrow> block \<Rightarrow> block" where
  "put_addrs n a xs b = fold (\<lambda>i b. store_le32 b (a + 4 * i) (xs ! i)) [0..<n] b"

lemma put_addrs_other:
  "c + 2 \<le> a \<or> a + 4 * n \<le> c \<Longrightarrow> load_le16 (put_addrs n a xs b) c = load_le16 b c"
  "c + 4 \<le> a \<or> a + 4 * n \<le> c \<Longrightarrow> load_le32 (put_addrs n a xs b) c = load_le32 b c"
  by (induction n) (auto simp: put_addrs_def field_simps16)

lemma put_addrs_load: "i < n \<Longrightarrow> load_le32 (put_addrs n a xs b) (a + 4 * i) = xs ! i"
proof (induction n)
  case (Suc n)
  show ?case
  proof (cases "i = n")
    case False
    then have "i < n" using Suc.prems by simp
    then show ?thesis using Suc.IH by (simp add: put_addrs_def load32_other)
  qed (simp add: put_addrs_def load32_store32)
qed simp

lemma put_dinode_eq:
  "put_dinode d a b = put_addrs (NDIRECT + 1) (a + 12) (di_addrs d) (store_le32 (store_le16 (store_le16 (store_le16 (store_le16 b a (di_type d))
     (a + 2) (di_major d)) (a + 4) (di_minor d)) (a + 6) (di_nlink d)) (a + 8) (di_size d))"
  by (simp add: put_dinode_def put_addrs_def Let_def)

lemma get_put_dinode:
  assumes "length (di_addrs d) = NDIRECT + 1"
  shows "get_dinode (put_dinode d a b) a = d"
proof -
  have "map (\<lambda>i. load_le32 (put_dinode d a b) (a + 12 + 4 * i)) [0..<NDIRECT + 1] = di_addrs d"
    by (rule nth_equalityI) (use assms in \<open>auto simp: put_dinode_eq put_addrs_load simp del: upt_Suc\<close>)
  moreover have "load_le16 (put_dinode d a b) a = di_type d" "load_le16 (put_dinode d a b) (a + 2) = di_major d"
    "load_le16 (put_dinode d a b) (a + 4) = di_minor d" "load_le16 (put_dinode d a b) (a + 6) = di_nlink d"
    "load_le32 (put_dinode d a b) (a + 8) = di_size d"
    by (simp_all add: put_dinode_eq put_addrs_other field_simps16)
  ultimately show ?thesis unfolding get_dinode_def by simp
qed

lemma get_put_other:
  assumes "c + 64 \<le> a \<or> a + 64 \<le> c"
  shows "get_dinode (put_dinode d a b) c = get_dinode b c"
proof -
  have f: "load_le16 (put_dinode d a b) (c + k) = load_le16 b (c + k)" if "k \<le> 6" for k
    using assms that by (auto simp: put_dinode_eq put_addrs_other field_simps16 NDIRECT_def)
  have g: "load_le32 (put_dinode d a b) (c + k) = load_le32 b (c + k)" if "k \<le> 60" for k
    using assms that by (auto simp: put_dinode_eq put_addrs_other field_simps16 NDIRECT_def)
  have "load_le32 (put_dinode d a b) (c + 12 + 4 * i) = load_le32 b (c + 12 + 4 * i)" if "i < NDIRECT + 1" for i
    using g [of "12 + 4 * i"] that by (simp add: NDIRECT_def add.assoc)
  then show ?thesis using f [of 0] f [of 2] f [of 4] f [of 6] g [of 8] by (simp add: get_dinode_def)
qed

section \<open>iupdate and ilock\<close>

lemma brelse_inode: "brelse k s = Inr s' \<Longrightarrow> brelse k (upd_inode i f s) = Inr (upd_inode i f s')"
  by (cases s) (auto simp: brelse_def upd_inode_def upd_buf_def wakeup_def wakeup1_def split: if_splits)

lemma ilock_loads:
  fixes s :: "'z ikern_scheme"
  assumes room: "log_room m s" and i: "i < length (icache s)" and x: "x = icache s ! i" "\<not> ibusy x" "\<not> ivalid x" "1 \<le> iref x" "idev x = 1"
    and blk: "IBLOCK (inum x) (sb s) < disksize s" and d: "d = get_dinode (view s (IBLOCK (inum x) (sb s))) (dinode_off (inum x))" "di_type d \<noteq> 0"
  shows "\<exists>s'. ilock i s = Inr s' \<and> view s' = view s \<and> icache s' ! i = x\<lparr>ibusy := True, ivalid := True, itype := di_type d, major := di_major d,
    minor := di_minor d, nlink := di_nlink d, isize := di_size d, addrs := di_addrs d\<rparr>"
proof -
  define s0 where "s0 = upd_inode i (\<lambda>ip. ip\<lparr>ibusy := True\<rparr>) s"
  have s0: "log_room m s0" "view s0 = view s" "disksize s0 = disksize s" "sb s0 = sb s" "length (icache s0) = length (icache s)"
    "icache s0 ! i = x\<lparr>ibusy := True\<rparr>"
    using room i x(1) unfolding s0_def by simp_all
  obtain k s1 s2 where r: "bread 1 (IBLOCK (inum x) (sb s)) s0 = Inr (k, s1)" "bdata (bufs s1 ! k) = view s (IBLOCK (inum x) (sb s))" "tframe s0 s1"
    "brelse k s1 = Inr s2" "view s2 = view s" "tframe s0 s2"
    using read_block_room [OF s0(1), of "IBLOCK (inum x) (sb s)"] blk s0(2,3) by auto
  have ic: "icache s1 = icache s0" "icache s2 = icache s0" "sb s1 = sb s" using tframe_isel [OF r(3)] tframe_isel [OF r(6)] s0(4) by simp_all
  define f :: "inode \<Rightarrow> inode" where "f = (\<lambda>ip. ip\<lparr>itype := di_type d, major := di_major d, minor := di_minor d, nlink := di_nlink d, isize := di_size d,
    addrs := di_addrs d\<rparr>)"
  define s' where "s' = upd_inode i (\<lambda>ip. ip\<lparr>ivalid := True\<rparr>) (upd_inode i f s2)"
  have len: "i < length (icache s2)" using i s0(5) ic(2) by simp
  have i': "icache s' ! i = (f (x\<lparr>ibusy := True\<rparr>))\<lparr>ivalid := True\<rparr>" using len s0(6) ic(2) unfolding s'_def by simp
  have "ilock i s = Inr s'"
    unfolding ilock_def Let_def x(1) [symmetric] using x(2-5) d(2) i' s0(4,6)
    by (simp add: s0_def [symmetric] r(1,2) d(1) [symmetric] f_def [symmetric] brelse_inode [OF r(4)] s'_def [symmetric]) (simp add: f_def)
  moreover have "view s' = view s" using r(5) unfolding s'_def by simp
  ultimately show ?thesis using i' by (auto simp: f_def)
qed

text \<open>C39. What \<^verbatim>\<open>iupdate\<close> writes, \<^verbatim>\<open>ilock\<close> reads back: after an update, an inode-cache slot that
  holds the same inode with no valid content is filled by \<^verbatim>\<open>ilock\<close> with the type, device numbers, link count, size and
  block addresses of the updated inode; and every other disk inode of the same block is as before.\<close>

theorem iupdate_ilock:
  fixes s :: "'z ikern_scheme"
  assumes ok: "file_ok s i" and room: "log_room (Suc m) s" and ty: "itype (icache s ! i) \<noteq> 0"
    and x: "inum x = inum (icache s ! i)" "idev x = 1" "\<not> ibusy x" "\<not> ivalid x" "1 \<le> iref x"
  shows "\<exists>s' s''. iupdate i s = Inr s' \<and> ilock i (upd_inode i (\<lambda>_. x) s') = Inr s'' \<and> view s'' = view s' \<and>
    disk_copy (icache s'' ! i) = disk_copy (icache s ! i) \<and> ibusy (icache s'' ! i) \<and> ivalid (icache s'' ! i) \<and>
    (\<forall>n. IBLOCK n (sb s) = ino_blk s i \<longrightarrow> n \<noteq> inum (icache s ! i) \<longrightarrow>
       get_dinode (view s' (IBLOCK n (sb s))) (dinode_off n) = get_dinode (view s (IBLOCK n (sb s))) (dinode_off n)) \<and>
    (\<forall>b. b \<noteq> ino_blk s i \<longrightarrow> view s' b = view s b)"
proof -
  let ?n = "inum (icache s ! i)" and ?d = "disk_copy (icache s ! i)"
  note D = file_okD [OF ok]
  obtain s' where u: "iupdate i s = Inr s'" "log_room m s'" "tframe s s'" "view s' = (view s)(ino_blk s i := put_dinode ?d (dinode_off ?n) (view s (ino_blk s i)))"
    using iupdate_ok [OF ok room] by blast
  define s1 where "s1 = upd_inode i (\<lambda>_. x) s'"
  have ic: "icache s' = icache s" "sb s' = sb s" "disksize s' = disksize s" using tframe_isel [OF u(3)] tframe_sel(1) [OF u(3)] by simp_all
  have s1: "log_room m s1" "i < length (icache s1)" "icache s1 ! i = x" "sb s1 = sb s" "disksize s1 = disksize s" "view s1 = view s'"
    using u(2) ic D(2) unfolding s1_def by simp_all
  have "get_dinode (view s1 (IBLOCK (inum x) (sb s1))) (dinode_off (inum x)) = ?d"
    unfolding s1(4,6) u(4) x(1) using D(4) by (simp add: get_put_dinode disk_copy_def)
  then obtain s'' where l: "ilock i s1 = Inr s''" "view s'' = view s1" "icache s'' ! i = x\<lparr>ibusy := True, ivalid := True, itype := di_type ?d,
      major := di_major ?d, minor := di_minor ?d, nlink := di_nlink ?d, isize := di_size ?d, addrs := di_addrs ?d\<rparr>"
    using ilock_loads [OF s1(1,2) s1(3) [symmetric] x(3-5,2), of ?d] D(8) ty unfolding s1(4,5) x(1) by (auto simp: disk_copy_def)
  have "get_dinode (view s' (IBLOCK n (sb s))) (dinode_off n) = get_dinode (view s (IBLOCK n (sb s))) (dinode_off n)"
    if n: "IBLOCK n (sb s) = ino_blk s i" "n \<noteq> ?n" for n
  proof -
    have "n div 8 = ?n div 8" using n(1) by (simp add: IBLOCK_def)
    then have "unat (n div 8) = unat (?n div 8)" by simp
    then have "unat n div 8 = unat ?n div 8" by (simp add: unat_div)
    moreover have "unat n \<noteq> unat ?n" using n(2) unsigned_word_eqI by blast
    ultimately have "unat n mod 8 \<noteq> unat ?n mod 8" by (metis div_mult_mod_eq)
    then have "dinode_off n + 64 \<le> dinode_off ?n \<or> dinode_off ?n + 64 \<le> dinode_off n" by (auto simp: dinode_off_def IPB_def)
    then show ?thesis unfolding u(4) n(1) by (simp add: get_put_other)
  qed
  moreover have "disk_copy (icache s'' ! i) = ?d" "ibusy (icache s'' ! i)" "ivalid (icache s'' ! i)" unfolding l(3) by (simp_all add: disk_copy_def)
  moreover have "\<forall>b. b \<noteq> ino_blk s i \<longrightarrow> view s' b = view s b" unfolding u(4) by simp
  ultimately show ?thesis using u(1) l(1,2) unfolding s1_def s1(6) by auto
qed

theorem iupdate_ilock_witness:
  "\<exists>s' s''. iupdate 0 fsworld = Inr s' \<and>
     ilock 0 (upd_inode 0 (\<lambda>_. (icache fsworld ! 0)\<lparr>ibusy := False, ivalid := False, isize := 0, addrs := replicate 13 9\<rparr>) s') = Inr s'' \<and>
     isize (icache s'' ! 0) = 600 \<and> addrs (icache s'' ! 0) = [50, 51] @ replicate 11 0"
proof -
  let ?x = "(icache fsworld ! 0)\<lparr>ibusy := False, ivalid := False, isize := 0, addrs := replicate 13 9\<rparr>"
  have "log_room (Suc 0) fsworld" using fsworld_room [of 1] by simp
  then obtain s' s'' where *: "iupdate 0 fsworld = Inr s'" "ilock 0 (upd_inode 0 (\<lambda>_. ?x) s') = Inr s''"
    "disk_copy (icache s'' ! 0) = disk_copy (icache fsworld ! 0)"
    using iupdate_ilock [OF fsworld_file, of 0 ?x] by auto
  have "isize (icache s'' ! 0) = 600" "addrs (icache s'' ! 0) = [50, 51] @ replicate 11 0" using *(3) by (simp_all add: disk_copy_def)
  then show ?thesis using *(1,2) by blast
qed

end
