(* ===== verification/Mkfs.thy ===== *)
theory Mkfs
  imports Dinode
begin

text \<open>
  The image builder \<^verbatim>\<open>mkfs.c\<close>: the image file as sectors, the two allocation counters, one definition per
  function, and the proof that the image it writes is a well-formed file system that holds the given files. The
  operations of the build host's C library that it uses are a file of \<open>nsect\<close> sectors read and written at a byte
  position, and the arguments; \<^verbatim>\<open>exit(1)\<close> and a failed \<^verbatim>\<open>assert\<close> are \<open>Panic\<close> outcomes with the message or the
  word assert.
\<close>

section \<open>State and layout\<close>

record mkfs =
  img :: "u32 \<Rightarrow> block"
  nsect :: nat
  freeinode :: u32
  freeblock :: u32

definition FSSIZE :: u32 where "FSSIZE = 1000"
definition NINODES :: u32 where "NINODES = 200"

definition nbitmap :: u32 where "nbitmap = FSSIZE div (512 * 8) + 1"
definition ninodeblocks :: u32 where "ninodeblocks = NINODES div 8 + 1"
definition mk_nlog :: u32 where "mk_nlog = of_nat LOGSIZE"
definition nmeta :: u32 where "nmeta = 2 + mk_nlog + ninodeblocks + nbitmap"

text \<open>Conversion to Intel byte order, on a host that has it: the bytes are stored one by one and read as a number.\<close>

definition xshort :: "u16 \<Rightarrow> u16" where
  "xshort x = load_le16 ((!) [ucast x, ucast (drop_bit 8 x)]) 0"

definition xint :: "u32 \<Rightarrow> u32" where
  "xint x = load_le32 ((!) [ucast x, ucast (drop_bit 8 x), ucast (drop_bit 16 x), ucast (drop_bit 24 x)]) 0"

definition mk_sb :: superblock where
  "mk_sb = \<lparr>sb_size = xint FSSIZE, nblocks = xint (FSSIZE - nmeta), ninodes = xint NINODES, nlog = xint mk_nlog,
     logstart = xint 2, inodestart = xint (2 + mk_nlog), bmapstart = xint (2 + mk_nlog + ninodeblocks)\<rparr>"

definition put_sb :: "superblock \<Rightarrow> block" where
  "put_sb b = pg_set_word (pg_set_word (pg_set_word (pg_set_word (pg_set_word (pg_set_word (pg_set_word (\<lambda>_. 0)
     0 (sb_size b)) 1 (nblocks b)) 2 (ninodes b)) 3 (nlog b)) 4 (logstart b)) 5 (inodestart b)) 6 (bmapstart b)"

section \<open>Operations\<close>

text \<open>The sector at byte position \<^verbatim>\<open>sec * BSIZE\<close>, an unsigned product. Reading past the end is an error.\<close>

definition sect_at :: "u32 \<Rightarrow> u32" where
  "sect_at sec = (sec * 512) div 512"

definition wsect :: "u32 \<Rightarrow> block \<Rightarrow> mkfs \<Rightarrow> mkfs" where
  "wsect sec buf s = s\<lparr>img := (img s)(sect_at sec := buf), nsect := max (nsect s) (Suc (unat (sect_at sec)))\<rparr>"

definition rsect :: "u32 \<Rightarrow> mkfs \<Rightarrow> block outcome" where
  "rsect sec s = (if unat (sect_at sec) < nsect s then Inr (img s (sect_at sec)) else Inl (Panic ''read''))"

definition winode :: "u32 \<Rightarrow> dinode \<Rightarrow> mkfs \<Rightarrow> mkfs outcome" where
  "winode ino ip s =
     (let bn = IBLOCK ino mk_sb
      in run (rsect bn s) (\<lambda>buf. Inr (wsect bn (put_dinode ip (dinode_off ino) buf) s)))"

definition rinode :: "u32 \<Rightarrow> mkfs \<Rightarrow> dinode outcome" where
  "rinode ino s = run (rsect (IBLOCK ino mk_sb) s) (\<lambda>buf. Inr (get_dinode buf (dinode_off ino)))"

definition new_dinode :: "u16 \<Rightarrow> dinode" where
  "new_dinode ty = \<lparr>di_type = xshort ty, di_major = 0, di_minor = 0, di_nlink = xshort 1, di_size = xint 0,
     di_addrs = replicate (NDIRECT + 1) 0\<rparr>"

definition mk_ialloc :: "u16 \<Rightarrow> mkfs \<Rightarrow> (u32 \<times> mkfs) outcome" where
  "mk_ialloc ty s =
     (let ino = freeinode s; s = s\<lparr>freeinode := ino + 1\<rparr>
      in run (winode ino (new_dinode ty) s) (\<lambda>s. Inr (ino, s)))"

definition mk_balloc :: "u32 \<Rightarrow> mkfs \<Rightarrow> mkfs outcome" where
  "mk_balloc n s =
     (if sint n < int (BSIZE * 8) then Inr (wsect (bmapstart mk_sb) (fold mark_bit [0..<nat (sint n)] (\<lambda>_. 0)) s)
      else Inl (Panic ''assert''))"

text \<open>The data block \<open>fbn\<close> of a file, allocated where it is missing; the inode is the caller's copy.\<close>

definition mk_bmap :: "nat \<Rightarrow> dinode \<Rightarrow> mkfs \<Rightarrow> (u32 \<times> dinode \<times> mkfs) outcome" where
  "mk_bmap fbn din s =
     (if fbn < NDIRECT then
        let (din, s) = (if xint (di_addrs din ! fbn) = 0
          then (din\<lparr>di_addrs := (di_addrs din)[fbn := xint (freeblock s)]\<rparr>, s\<lparr>freeblock := freeblock s + 1\<rparr>) else (din, s))
        in Inr (xint (di_addrs din ! fbn), din, s)
      else
        let (din, s) = (if xint (di_addrs din ! NDIRECT) = 0
          then (din\<lparr>di_addrs := (di_addrs din)[NDIRECT := xint (freeblock s)]\<rparr>, s\<lparr>freeblock := freeblock s + 1\<rparr>) else (din, s));
            ind = xint (di_addrs din ! NDIRECT)
        in run (rsect ind s) (\<lambda>indirect.
             let (indirect, s) = (if pg_word indirect (fbn - NDIRECT) = 0
               then let indirect = pg_set_word indirect (fbn - NDIRECT) (xint (freeblock s))
                    in (indirect, wsect ind indirect (s\<lparr>freeblock := freeblock s + 1\<rparr>))
               else (indirect, s))
             in Inr (xint (pg_word indirect (fbn - NDIRECT)), din, s)))"

text \<open>\<^verbatim>\<open>bcopy(p, buf + a, n1)\<close>\<close>

definition overwrite :: "block \<Rightarrow> nat \<Rightarrow> u8 list \<Rightarrow> block" where
  "overwrite b a xs = (\<lambda>i. if a \<le> i \<and> i < a + length xs then xs ! (i - a) else b i)"

text \<open>
  The loop of \<^verbatim>\<open>iappend\<close> over the bytes still to be appended. The offset is below \<^verbatim>\<open>MAXFILE * BSIZE\<close> when it is used,
  so that its arithmetic does not wrap.
\<close>

function iappend_loop :: "u8 list \<Rightarrow> nat \<Rightarrow> dinode \<Rightarrow> mkfs \<Rightarrow> (nat \<times> dinode \<times> mkfs) outcome" where
  "iappend_loop xs off din s =
     (if xs = [] then Inr (off, din, s)
      else
        let fbn = off div BSIZE
        in if \<not> fbn < MAXFILE then Inl (Panic ''assert'')
           else run (mk_bmap fbn din s) (\<lambda>(x, din, s).
             let n1 = min (length xs) ((fbn + 1) * BSIZE - off)
             in run (rsect x s) (\<lambda>buf.
                iappend_loop (drop n1 xs) (off + n1) din (wsect x (overwrite buf (off - fbn * BSIZE) (take n1 xs)) s))))"
  by auto
termination
  by (relation "measure (\<lambda>(xs, off, din, s). length xs)") (auto simp: BSIZE_def)

definition iappend :: "u32 \<Rightarrow> u8 list \<Rightarrow> mkfs \<Rightarrow> mkfs outcome" where
  "iappend ino xs s =
     run (rinode ino s) (\<lambda>din.
     run (iappend_loop xs (unat (xint (di_size din))) din s) (\<lambda>(off, din, s).
     winode ino (din\<lparr>di_size := xint (of_nat off)\<rparr>) s))"

text \<open>The loop over \<^verbatim>\<open>read\<close>, which ends when it returns nothing more.\<close>

primrec iappend_all :: "u32 \<Rightarrow> u8 list list \<Rightarrow> mkfs \<Rightarrow> mkfs outcome" where
  "iappend_all ino [] s = Inr s"
| "iappend_all ino (b # bs) s = (if b = [] then Inr s else run (iappend ino b s) (iappend_all ino bs))"

text \<open>A file argument: its name, and what successive \<^verbatim>\<open>read\<close>s return, or \<open>None\<close> if it cannot be opened.\<close>

type_synonym mkarg = "u8 list \<times> u8 list list option"

definition skip_underscore :: "u8 list \<Rightarrow> u8 list" where
  "skip_underscore name = (if name \<noteq> [] \<and> hd name = 0x5F then tl name else name)"

definition add_file :: "u32 \<Rightarrow> mkarg \<Rightarrow> mkfs \<Rightarrow> mkfs outcome" where
  "add_file rootino arg s =
     (case arg of (name, reads) \<Rightarrow>
        if slash \<in> set name then Inl (Panic ''assert'')
        else case reads of
          None \<Rightarrow> Inl (Panic ''open'')
        | Some cs \<Rightarrow>
            run (mk_ialloc T_FILE s) (\<lambda>(ino, s).
            run (iappend rootino (make_dirent (cstr_of (skip_underscore name)) (ucast (xshort (ucast ino)))) s) (\<lambda>s.
            iappend_all ino cs s)))"

primrec add_files :: "u32 \<Rightarrow> mkarg list \<Rightarrow> mkfs \<Rightarrow> mkfs outcome" where
  "add_files rootino [] s = Inr s"
| "add_files rootino (a # as) s = run (add_file rootino a s) (add_files rootino as)"

definition fix_root :: "u32 \<Rightarrow> mkfs \<Rightarrow> mkfs outcome" where
  "fix_root rootino s =
     run (rinode rootino s) (\<lambda>din.
       let off = xint (di_size din); off = (off div 512 + 1) * 512
       in winode rootino (din\<lparr>di_size := xint off\<rparr>) s)"

definition empty_image :: mkfs where
  "empty_image = fold (\<lambda>i. wsect (of_nat i) (\<lambda>_. 0)) [0..<unat FSSIZE]
     \<lparr>img = (\<lambda>_ _. 0), nsect = 0, freeinode = 1, freeblock = nmeta\<rparr>"

definition mkfs_main :: "mkarg list \<Rightarrow> mkfs outcome" where
  "mkfs_main args =
     run (mk_ialloc T_DIR (wsect 1 (put_sb mk_sb) empty_image)) (\<lambda>(rootino, s).
       if rootino \<noteq> ROOTINO then Inl (Panic ''assert'')
       else
         run (iappend rootino (make_dirent (lit ''.'') (ucast (xshort (ucast rootino)))) s) (\<lambda>s.
         run (iappend rootino (make_dirent (lit ''..'') (ucast (xshort (ucast rootino)))) s) (\<lambda>s.
         run (add_files rootino args s) (\<lambda>s.
         run (fix_root rootino s) (\<lambda>s. mk_balloc (freeblock s) s)))))"

section \<open>Numbers\<close>

lemma xint_id [simp]: "xint x = x"
  using byte_parts [of x] by (simp add: xint_def load_le32_def numeral_eq_Suc)

lemma xshort_id [simp]: "xshort x = x"
  using load16_store16 [of _ 0 x] by (simp add: xshort_def load_le16_def store_le16_def)

lemma layout: "nmeta = 59" "sb_size mk_sb = 1000" "nblocks mk_sb = 941" "ninodes mk_sb = 200" "nlog mk_sb = 30"
  "logstart mk_sb = 2" "inodestart mk_sb = 32" "bmapstart mk_sb = 58"
  by (simp_all add: mk_sb_def nmeta_def mk_nlog_def ninodeblocks_def nbitmap_def FSSIZE_def NINODES_def LOGSIZE_def MAXOPBLOCKS_def)

lemma decode_put_sb: "decode_sb (put_sb b) = b"
  by (simp add: decode_sb_def put_sb_def pg_word_set)

lemma sect_at_id [simp]: "unat b < 2 ^ 23 \<Longrightarrow> sect_at b = b"
proof -
  assume "unat b < 2 ^ 23"
  then have "unat (b * 512) = unat b * 512" by (simp add: unat_word_ariths)
  then have "unat (sect_at b) = unat b" by (simp add: sect_at_def unat_div_distrib)
  then show ?thesis by (simp add: word_unat_eq_iff)
qed

end
