(* ===== verification/MkfsProps.thy ===== *)
theory MkfsProps
  imports Mkfs
begin

text \<open>
  What \<^verbatim>\<open>mkfs\<close> writes: files laid out over blocks of the image, the inode table, and the free map, up to the
  whole image.
\<close>

section \<open>A file in the image\<close>

lemma file_consts: "MAXFILE = 140" "NDIRECT = 12" "BSIZE = 512" "NINDIRECT = 128"
  by (simp_all add: MAXFILE_def NDIRECT_def BSIZE_def NINDIRECT_def)

definition byte_at :: "u8 list \<Rightarrow> nat \<Rightarrow> u8" where
  "byte_at cs p = (if p < length cs then cs ! p else 0)"

text \<open>
  \<open>stored v ad cs m\<close>: the block addresses \<open>ad\<close> hold the bytes \<open>cs\<close> followed by zeros, in the first \<open>m\<close> data blocks,
  none of which is used twice.
\<close>

definition stored :: "(u32 \<Rightarrow> block) \<Rightarrow> u32 list \<Rightarrow> u8 list \<Rightarrow> nat \<Rightarrow> bool" where
  "stored v ad cs m \<longleftrightarrow> length ad = NDIRECT + 1 \<and> m \<le> MAXFILE \<and> length cs \<le> m * BSIZE \<and> own_inj v ad \<and>
     (\<forall>j < MAXFILE. own v ad j \<noteq> 0 \<longleftrightarrow> j < m) \<and> (ad ! NDIRECT \<noteq> 0 \<longleftrightarrow> NDIRECT < m) \<and>
     (\<forall>p < MAXFILE * BSIZE. content v ad p = byte_at cs p)"

definition owned :: "(u32 \<Rightarrow> block) \<Rightarrow> u32 list \<Rightarrow> u32 set" where
  "owned v ad = {b. b \<noteq> 0 \<and> (\<exists>j \<le> MAXFILE. own v ad j = b)}"

lemma ownedI: "j \<le> MAXFILE \<Longrightarrow> own v ad j \<noteq> 0 \<Longrightarrow> own v ad j \<in> owned v ad"
  unfolding owned_def by blast

lemma stored_cong:
  assumes "\<And>b. b \<in> owned v ad \<Longrightarrow> v' b = v b"
  shows "stored v' ad cs m = stored v ad cs m" "owned v' ad = owned v ad"
proof -
  have "ad ! NDIRECT \<noteq> 0 \<Longrightarrow> ad ! NDIRECT \<in> owned v ad"
    unfolding owned_def using own_last [of v ad] by blast
  then have o: "own v' ad j = own v ad j" for j using assms by (auto simp: own_def)
  then show "owned v' ad = owned v ad" by (simp add: owned_def)
  have "content v' ad p = content v ad p" if "p < MAXFILE * BSIZE" for p
  proof -
    have "p div BSIZE \<le> MAXFILE" using that by (simp add: file_consts)
    then have "own v ad (p div BSIZE) \<noteq> 0 \<Longrightarrow> v' (own v ad (p div BSIZE)) = v (own v ad (p div BSIZE))"
      by (intro assms ownedI)
    then show ?thesis by (simp add: content_def o Let_def)
  qed
  then show "stored v' ad cs m = stored v ad cs m" by (auto simp: stored_def own_inj_def o)
qed

text \<open>One more zeroed block \<open>x\<close>, and with the first block past the direct ones the indirect block \<open>y\<close>.\<close>

lemma stored_extend:
  assumes st: "stored v ad cs m" and m: "m < MAXFILE" and len: "length ad' = NDIRECT + 1"
    and own: "\<And>j. j \<le> MAXFILE \<Longrightarrow>
      own v' ad' j = (if j = m then x else if j = MAXFILE \<and> m = NDIRECT then y else own v ad j)"
    and x: "x \<noteq> 0" "x \<notin> owned v ad" and y: "y \<noteq> 0" "y \<notin> owned v ad" "y \<noteq> x"
    and data: "\<And>j. j < m \<Longrightarrow> v' (own v ad j) = v (own v ad j)" and zero: "v' x = (\<lambda>_. 0)"
  shows "stored v' ad' cs (Suc m)"
    "owned v' ad' \<subseteq> owned v ad \<union> {x} \<union> (if m = NDIRECT then {y} else {})"
proof -
  have nz: "own v ad j \<noteq> 0 \<longleftrightarrow> j < m" if "j < MAXFILE" for j using st that by (simp add: stored_def)
  have ind: "own v ad MAXFILE \<noteq> 0 \<longleftrightarrow> NDIRECT < m" using st own_last [of v ad] by (simp add: stored_def)
  have inj: "own_inj v ad" using st by (simp add: stored_def)
  have ox: "own v ad j \<noteq> x" "own v ad j \<noteq> y" if "j \<le> MAXFILE" for j
    using that x y unfolding owned_def by blast+
  have "own_inj v' ad'"
    unfolding own_inj_def
  proof (intro allI impI)
    fix j k assume jk: "j \<le> MAXFILE" "k \<le> MAXFILE" "own v' ad' j \<noteq> 0" "own v' ad' j = own v' ad' k"
    have "own v ad j \<noteq> 0 \<Longrightarrow> own v ad j = own v ad k \<Longrightarrow> j = k" using inj jk(1,2) unfolding own_inj_def by blast
    then show "j = k"
      using jk(3,4) ox [OF jk(1)] ox [OF jk(2)] y(3) m unfolding own [OF jk(1)] own [OF jk(2)]
      by (auto split: if_splits)
  qed
  moreover have "own v' ad' j \<noteq> 0 \<longleftrightarrow> j < Suc m" if "j < MAXFILE" for j
    using that nz [OF that] x(1) own [of j] by auto
  moreover have "ad' ! NDIRECT \<noteq> 0 \<longleftrightarrow> NDIRECT < Suc m"
    using own [of MAXFILE] ind y(1) m own_last [of v' ad'] by auto
  moreover have "content v' ad' p = byte_at cs p" if p: "p < MAXFILE * BSIZE" for p
  proof -
    let ?j = "p div BSIZE"
    have j: "?j < MAXFILE" using p by (simp add: file_consts)
    have c: "content v ad p = byte_at cs p" using st p by (simp add: stored_def)
    consider "?j = m" | "?j < m" | "m < ?j" by linarith
    then show ?thesis
    proof cases
      case 1
      then have "own v ad ?j = 0" using nz [OF j] by simp
      then have "byte_at cs p = 0" using c by (simp add: content_def)
      with 1 own [of ?j] j zero show ?thesis by (simp add: content_def)
    next
      case 2
      then have "own v' ad' ?j = own v ad ?j" using own [of ?j] j by simp
      then have "content v' ad' p = content v ad p" using data [OF 2] by (simp add: content_def Let_def)
      with c show ?thesis by simp
    next
      case 3
      then have "own v' ad' ?j = 0" "own v ad ?j = 0" using own [of ?j] j nz [OF j] by simp_all
      then have "content v' ad' p = content v ad p" by (simp add: content_def)
      with c show ?thesis by simp
    qed
  qed
  moreover have "length cs \<le> Suc m * BSIZE" using st by (simp add: stored_def)
  ultimately show "stored v' ad' cs (Suc m)" using len m by (simp add: stored_def)
  show "owned v' ad' \<subseteq> owned v ad \<union> {x} \<union> (if m = NDIRECT then {y} else {})"
    using own unfolding owned_def by (auto split: if_splits)
qed

text \<open>Writing at the end, inside the last block.\<close>

lemma stored_write:
  assumes st: "stored v ad cs m" and j: "length cs div BSIZE < m" and fits: "length cs mod BSIZE + length ys \<le> BSIZE"
  defines "x \<equiv> own v ad (length cs div BSIZE)"
  shows "stored (v(x := overwrite (v x) (length cs mod BSIZE) ys)) ad (cs @ ys) m"
    "owned (v(x := overwrite (v x) (length cs mod BSIZE) ys)) ad = owned v ad" "x \<in> owned v ad"
proof -
  let ?j = "length cs div BSIZE" and ?v = "v(x := overwrite (v x) (length cs mod BSIZE) ys)"
  have inj: "own_inj v ad" and m: "m \<le> MAXFILE" using st by (simp_all add: stored_def)
  have jm: "?j < MAXFILE" using j m by simp
  have nz: "own v ad ?j \<noteq> 0" using st j jm by (simp add: stored_def)
  then show "x \<in> owned v ad" using jm unfolding x_def by (intro ownedI) simp_all
  have o: "own ?v ad = own v ad" unfolding x_def by (rule own_data [OF inj jm nz])
  then show "owned ?v ad = owned v ad" by (simp add: owned_def)
  have "content ?v ad p = byte_at (cs @ ys) p" if p: "p < MAXFILE * BSIZE" for p
  proof (cases "p div BSIZE = ?j")
    case True
    have c: "content v ad p = byte_at cs p" using st p by (simp add: stored_def)
    have vx: "v x (p mod BSIZE) = byte_at cs p" using c nz True by (simp add: content_def x_def)
    have eq: "p = BSIZE * ?j + p mod BSIZE" "length cs = BSIZE * ?j + length cs mod BSIZE"
      using True mult_div_mod_eq [of BSIZE p] mult_div_mod_eq [of BSIZE "length cs"] by simp_all
    have "content ?v ad p = overwrite (v x) (length cs mod BSIZE) ys (p mod BSIZE)"
      using True content_data [OF inj jm nz p] unfolding x_def by simp
    also have "\<dots> = byte_at (cs @ ys) p"
    proof (cases "p < length cs")
      case True
      then have "p mod BSIZE < length cs mod BSIZE" using eq by linarith
      with True vx show ?thesis by (simp add: overwrite_def byte_at_def nth_append)
    next
      case False
      then have ge: "length cs mod BSIZE \<le> p mod BSIZE" using eq by linarith
      have "p - length cs = p mod BSIZE - length cs mod BSIZE" using eq ge by linarith
      with False ge vx show ?thesis by (auto simp: overwrite_def byte_at_def nth_append)
    qed
    finally show ?thesis .
  next
    case False
    have "content ?v ad p = content v ad p" using False content_data [OF inj jm nz p] unfolding x_def by simp
    also have "\<dots> = byte_at cs p" using st p by (simp add: stored_def)
    also have "\<dots> = byte_at (cs @ ys) p"
    proof -
      have "p < length cs \<or> length cs + length ys \<le> p"
      proof (rule ccontr)
        assume "\<not> ?thesis"
        then have "length cs \<le> p" "p < length cs + length ys" by simp_all
        moreover have "BSIZE * ?j + length cs mod BSIZE = length cs" by simp
        moreover have "BSIZE * Suc ?j = BSIZE * ?j + BSIZE" by simp
        ultimately have "BSIZE * ?j \<le> p" "p < BSIZE * Suc ?j" using fits by linarith+
        then have "p div BSIZE = ?j" by (simp add: div_nat_eqI file_consts)
        with False show False by simp
      qed
      then show ?thesis by (auto simp: byte_at_def nth_append)
    qed
    finally show ?thesis .
  qed
  moreover have "length (cs @ ys) \<le> m * BSIZE"
  proof -
    have "Suc ?j * BSIZE \<le> m * BSIZE" using j by (intro mult_le_mono1) simp
    moreover have "BSIZE * ?j + length cs mod BSIZE = length cs" by simp
    moreover have "Suc ?j * BSIZE = BSIZE * ?j + BSIZE" by simp
    ultimately have "length cs + length ys \<le> m * BSIZE" using fits by linarith
    then show ?thesis by simp
  qed
  ultimately show "stored ?v ad (cs @ ys) m" using st by (simp add: stored_def own_inj_def o)
qed

section \<open>Allocating blocks\<close>

text \<open>The blocks a file of \<open>m\<close> data blocks takes.\<close>

definition fblocks :: "nat \<Rightarrow> nat" where
  "fblocks m = m + (if NDIRECT < m then 1 else 0)"

text \<open>Nothing is written yet from \<^verbatim>\<open>freeblock\<close> on, and the file \<open>ad\<close> lies below it.\<close>

definition clean :: "u32 list \<Rightarrow> mkfs \<Rightarrow> bool" where
  "clean ad s \<longleftrightarrow> nsect s = 1000 \<and> 0 < freeblock s \<and> unat (freeblock s) \<le> 1000 \<and> (\<forall>b \<in> owned (img s) ad. b < freeblock s) \<and>
     (\<forall>b. freeblock s \<le> b \<longrightarrow> img s b = (\<lambda>_. 0))"

text \<open>From \<open>s\<close> to \<open>s'\<close> only blocks of the file and new ones are written.\<close>

definition extends :: "u32 list \<Rightarrow> mkfs \<Rightarrow> u32 list \<Rightarrow> mkfs \<Rightarrow> bool" where
  "extends ad s ad' s' \<longleftrightarrow> freeinode s' = freeinode s \<and> freeblock s \<le> freeblock s' \<and>
     (\<forall>b \<in> owned (img s') ad'. b \<in> owned (img s) ad \<or> freeblock s \<le> b) \<and>
     (\<forall>b. b < freeblock s \<longrightarrow> b \<notin> owned (img s) ad \<longrightarrow> img s' b = img s b)"

lemma extends_refl [simp]: "extends ad s ad s"
  by (simp add: extends_def)

lemma extends_trans: "extends ad s ad1 s1 \<Longrightarrow> extends ad1 s1 ad2 s2 \<Longrightarrow> extends ad s ad2 s2"
proof -
  assume e: "extends ad s ad1 s1" "extends ad1 s1 ad2 s2"
  have fb: "freeblock s \<le> freeblock s1" "freeblock s1 \<le> freeblock s2" using e by (simp_all add: extends_def)
  have new: "b \<in> owned (img s) ad" if "b \<in> owned (img s1) ad1" "b < freeblock s" for b
    using e(1) that by (auto simp: extends_def)
  have "b \<in> owned (img s) ad \<or> freeblock s \<le> b" if "b \<in> owned (img s2) ad2" for b
    using e that fb(1) new [of b] unfolding extends_def by (meson le_less_linear order_trans)
  moreover have "img s2 b = img s b" if b: "b < freeblock s" "b \<notin> owned (img s) ad" for b
  proof -
    have "img s1 b = img s b" using e(1) b by (simp add: extends_def)
    moreover have "b < freeblock s1" "b \<notin> owned (img s1) ad1" using b fb(1) new by auto
    ultimately show ?thesis using e(2) by (simp add: extends_def)
  qed
  moreover have "freeblock s \<le> freeblock s2" using fb by (rule order_trans)
  ultimately show ?thesis using e by (simp add: extends_def)
qed

lemma rsect_ok: "nsect s = 1000 \<Longrightarrow> unat b < 1000 \<Longrightarrow> rsect b s = Inr (img s b)"
  by (simp add: rsect_def)

lemma wsect_ok: "nsect s = 1000 \<Longrightarrow> unat b < 1000 \<Longrightarrow> wsect b x s = s\<lparr>img := (img s)(b := x)\<rparr>"
  by (simp add: wsect_def max_def)

lemma next_block:
  fixes b :: u32
  assumes "unat b < 1000"
  shows "unat (b + 1) = unat b + 1" "b < b + 1" "c < b + 1 \<longleftrightarrow> c \<le> b" "b + 1 \<le> c \<longleftrightarrow> b < c"
proof -
  show u: "unat (b + 1) = unat b + 1" using assms by (simp add: unat_word_ariths)
  show "b < b + 1" "c < b + 1 \<longleftrightarrow> c \<le> b" "b + 1 \<le> c \<longleftrightarrow> b < c"
    by (auto simp: word_less_nat_alt word_le_nat_alt u)
qed

text \<open>The two ways a block is added: a direct one, or one in the indirect block.\<close>

lemma add_direct:
  assumes st: "stored (img s) ad cs m" and cl: "clean ad s" and m: "m < NDIRECT" and room: "unat (freeblock s) < 1000"
  defines "ad' \<equiv> ad[m := freeblock s]" and "s' \<equiv> s\<lparr>freeblock := freeblock s + 1\<rparr>"
  shows "stored (img s') ad' cs (Suc m)" "clean ad' s'" "extends ad s ad' s'"
proof -
  let ?x = "freeblock s"
  have len: "length ad = NDIRECT + 1" using st by (simp add: stored_def)
  have x: "?x \<noteq> 0" "?x \<notin> owned (img s) ad" "img s ?x = (\<lambda>_. 0)" using cl by (auto simp: clean_def)
  have y: "?x + 1 \<noteq> 0" "?x + 1 \<notin> owned (img s) ad" "?x + 1 \<noteq> ?x"
    using cl next_block [OF room] unfolding clean_def by fastforce+
  have own: "own (img s') ad' j = (if j = m then ?x else if j = MAXFILE \<and> m = NDIRECT then ?x + 1 else own (img s) ad j)"
    if "j \<le> MAXFILE" for j
    using m len that by (auto simp: own_def ad'_def s'_def MAXFILE_def)
  have mx: "m < MAXFILE" using m by (simp add: MAXFILE_def)
  have len': "length ad' = NDIRECT + 1" using len by (simp add: ad'_def)
  have im: "img s' = img s" by (simp add: s'_def)
  have "img s' ?x = (\<lambda>_. 0)" using x(3) im by simp
  note e = stored_extend [OF st mx len' own x(1,2) y _ this]
  show "stored (img s') ad' cs (Suc m)" by (rule e(1)) (simp_all add: im)
  have o: "owned (img s') ad' \<subseteq> owned (img s) ad \<union> {?x} \<union> (if m = NDIRECT then {?x + 1} else {})"
    by (rule e(2)) (simp_all add: im)
  have fb: "freeblock s' = ?x + 1" by (simp add: s'_def)
  have "b < freeblock s'" if "b \<in> owned (img s') ad'" for b
  proof -
    have "b \<in> owned (img s) ad \<or> b = ?x" using that o m by auto
    then show ?thesis using cl unfolding fb next_block(3) [OF room] by (auto simp: clean_def)
  qed
  moreover have "img s' b = (\<lambda>_. 0)" if "freeblock s' \<le> b" for b
    using that cl unfolding fb next_block(4) [OF room] im by (simp add: clean_def)
  moreover have "nsect s' = 1000" "0 < freeblock s'" "unat (freeblock s') \<le> 1000"
    using cl next_block(1,2) [OF room] room unfolding fb clean_def by (auto simp: s'_def)
  ultimately show "clean ad' s'" by (simp add: clean_def)
  show "extends ad s ad' s'"
    using o m next_block(2) [OF room] unfolding extends_def fb im by (auto simp: s'_def)
qed

lemma add_indirect_first:
  assumes st: "stored (img s) ad cs NDIRECT" and cl: "clean ad s" and room: "unat (freeblock s) + 1 < 1000"
  defines "y \<equiv> freeblock s" and "ad' \<equiv> ad[NDIRECT := freeblock s]"
    and "s' \<equiv> s\<lparr>img := (img s)(freeblock s := pg_set_word (\<lambda>_. 0) 0 (freeblock s + 1)), freeblock := freeblock s + 1 + 1\<rparr>"
  shows "stored (img s') ad' cs (Suc NDIRECT)" "clean ad' s'" "extends ad s ad' s'"
proof -
  let ?x = "freeblock s + 1"
  have r1: "unat y < 1000" "unat ?x < 1000" using room next_block(1) [of y] by (auto simp: y_def)
  note n1 = next_block [OF r1(1)] and n2 = next_block [OF r1(2)]
  have len: "length ad = NDIRECT + 1" and zero: "ad ! NDIRECT = 0" using st by (simp_all add: stored_def)
  have below: "b < y" if "b \<in> owned (img s) ad" for b using cl that by (simp add: clean_def y_def)
  have yx: "y < ?x" using n1(2) by (simp add: y_def)
  have y: "y \<noteq> 0" "y \<notin> owned (img s) ad" "y \<noteq> ?x" using cl below yx by (auto simp: clean_def y_def)
  have x: "?x \<noteq> 0" "?x \<notin> owned (img s) ad" using below yx by fastforce+
  have own: "own (img s') ad' j = (if j = NDIRECT then ?x else if j = MAXFILE \<and> NDIRECT = NDIRECT then y else own (img s) ad j)"
    if "j \<le> MAXFILE" for j
  proof -
    consider "j < NDIRECT" | "j = NDIRECT" | "NDIRECT < j" "j < MAXFILE" | "j = MAXFILE" using \<open>j \<le> MAXFILE\<close> by linarith
    then show ?thesis
    proof cases
      case 1
      then show ?thesis using len by (simp add: own_def ad'_def MAXFILE_def)
    next
      case 2
      then show ?thesis using len y(1) by (simp add: own_def ad'_def s'_def MAXFILE_def NINDIRECT_def y_def)
    next
      case 3
      then have "pg_word (pg_set_word (\<lambda>_. 0) 0 ?x) (j - NDIRECT) = 0" by (simp add: pg_word_set pg_word_zero_fun)
      with 3 show ?thesis using len y(1) zero by (simp add: own_def ad'_def s'_def y_def)
    next
      case 4
      then show ?thesis using len by (simp add: own_def ad'_def MAXFILE_def NINDIRECT_def y_def)
    qed
  qed
  have mx: "NDIRECT < MAXFILE" by (simp add: MAXFILE_def NINDIRECT_def)
  have len': "length ad' = NDIRECT + 1" using len by (simp add: ad'_def)
  have zx: "img s' ?x = (\<lambda>_. 0)" using cl yx by (auto simp: s'_def clean_def y_def)
  have data: "img s' (own (img s) ad j) = img s (own (img s) ad j)" if "j < NDIRECT" for j
  proof -
    have "own (img s) ad j \<in> owned (img s) ad" using that st mx by (intro ownedI) (auto simp: stored_def)
    then show ?thesis using y(2) by (auto simp: s'_def y_def)
  qed
  note e = stored_extend [OF st mx len' own x y data zx]
  show "stored (img s') ad' cs (Suc NDIRECT)" by (rule e(1))
  have o: "b \<in> owned (img s) ad \<or> b = y \<or> b = ?x" if "b \<in> owned (img s') ad'" for b
    using e(2) that by auto
  have fb: "freeblock s' = ?x + 1" by (simp add: s'_def)
  have "b < freeblock s'" if "b \<in> owned (img s') ad'" for b
    using o [OF that] below [of b] yx unfolding fb n2(3) by auto
  moreover have "img s' b = (\<lambda>_. 0)" if "freeblock s' \<le> b" for b
  proof -
    have "?x < b" using that unfolding fb n2(4) .
    then have "y < b" using yx by (rule less_trans [rotated])
    then show ?thesis using cl by (auto simp: s'_def clean_def y_def)
  qed
  moreover have "nsect s' = 1000" "0 < freeblock s'" "unat (freeblock s') \<le> 1000"
    using cl n2(1,2) r1(2) x(1) unfolding fb clean_def by (auto simp: s'_def word_neq_0_conv intro: less_trans)
  ultimately show "clean ad' s'" by (simp add: clean_def)
  have "y \<le> freeblock s'" using yx n2(2) unfolding fb by simp
  moreover have "img s' b = img s b" if "b < y" for b using that by (auto simp: s'_def y_def)
  moreover have "b \<in> owned (img s) ad \<or> y \<le> b" if "b \<in> owned (img s') ad'" for b
    using o [OF that] yx by (auto simp: y_def)
  moreover have "freeinode s' = freeinode s" by (simp add: s'_def)
  ultimately show "extends ad s ad' s'" by (simp add: extends_def y_def)
qed

lemma add_indirect_next:
  assumes st: "stored (img s) ad cs m" and cl: "clean ad s" and m: "NDIRECT < m" "m < MAXFILE" and room: "unat (freeblock s) < 1000"
  defines "y \<equiv> ad ! NDIRECT"
  defines "s' \<equiv> s\<lparr>img := (img s)(y := pg_set_word (img s y) (m - NDIRECT) (freeblock s)), freeblock := freeblock s + 1\<rparr>"
  shows "stored (img s') ad cs (Suc m)" "clean ad s'" "extends ad s ad s'" "y \<in> owned (img s) ad"
proof -
  let ?x = "freeblock s"
  note n = next_block [OF room]
  have y0: "y \<noteq> 0" using st m by (simp add: stored_def y_def)
  then show yo: "y \<in> owned (img s) ad" using ownedI [of MAXFILE "img s" ad] by (simp add: own_last y_def)
  have below: "b < ?x" if "b \<in> owned (img s) ad" for b using cl that by (simp add: clean_def)
  have x: "?x \<noteq> 0" "?x \<notin> owned (img s) ad" using cl below by (auto simp: clean_def)
  have z: "?x + 1 \<noteq> 0" "?x + 1 \<notin> owned (img s) ad" "?x + 1 \<noteq> ?x"
    using below n(2) by fastforce+
  have own: "own (img s') ad j = (if j = m then ?x else if j = MAXFILE \<and> m = NDIRECT then ?x + 1 else own (img s) ad j)"
    if "j \<le> MAXFILE" for j
  proof -
    consider "j < NDIRECT" | "NDIRECT \<le> j" "j < MAXFILE" | "j = MAXFILE" using \<open>j \<le> MAXFILE\<close> by linarith
    then show ?thesis
    proof cases
      case 1
      then show ?thesis using m by (simp add: own_def)
    next
      case 2
      then have "m - NDIRECT = j - NDIRECT \<longleftrightarrow> j = m" using m by auto
      with 2 show ?thesis using m y0 by (auto simp: own_def s'_def pg_word_set y_def)
    next
      case 3
      then show ?thesis using m by (simp add: own_last)
    qed
  qed
  have len: "length ad = NDIRECT + 1" using st by (simp add: stored_def)
  have zx: "img s' ?x = (\<lambda>_. 0)" using cl below [OF yo] by (auto simp: s'_def clean_def)
  have data: "img s' (own (img s) ad j) = img s (own (img s) ad j)" if "j < m" for j
  proof -
    have j: "own (img s) ad j \<noteq> 0" "j < MAXFILE" using that st m by (auto simp: stored_def)
    have "own (img s) ad j \<noteq> own (img s) ad MAXFILE"
      using st j unfolding stored_def own_inj_def by (metis less_imp_le less_irrefl order_refl)
    then show ?thesis by (simp add: s'_def own_last y_def)
  qed
  note e = stored_extend [OF st m(2) len own x z data zx]
  show "stored (img s') ad cs (Suc m)" by (rule e(1))
  have o: "b \<in> owned (img s) ad \<or> b = ?x" if "b \<in> owned (img s') ad" for b using e(2) that m by auto
  have fb: "freeblock s' = ?x + 1" by (simp add: s'_def)
  have "b < freeblock s'" if "b \<in> owned (img s') ad" for b
    using o [OF that] below [of b] unfolding fb n(3) by auto
  moreover have "img s' b = (\<lambda>_. 0)" if "freeblock s' \<le> b" for b
  proof -
    have "?x < b" using that unfolding fb n(4) .
    then have "?x \<le> b" "y \<noteq> b" using below [OF yo] by auto
    then show ?thesis using cl by (auto simp: s'_def clean_def)
  qed
  moreover have "nsect s' = 1000" "0 < freeblock s'" "unat (freeblock s') \<le> 1000"
    using cl n(1,2) room unfolding fb clean_def by (auto simp: s'_def intro: less_trans)
  ultimately show "clean ad s'" by (simp add: clean_def)
  have "img s' b = img s b" if "b \<notin> owned (img s) ad" for b using that yo by (auto simp: s'_def)
  moreover have "b \<in> owned (img s) ad \<or> ?x \<le> b" if "b \<in> owned (img s') ad" for b
    using o [OF that] by auto
  moreover have "freeinode s' = freeinode s" by (simp add: s'_def)
  ultimately show "extends ad s ad s'" using n(2) by (simp add: extends_def fb)
qed

lemma clean_below: "clean ad s \<Longrightarrow> b \<in> owned (img s) ad \<Longrightarrow> unat b < 1000 \<and> nsect s = 1000"
  by (auto simp: clean_def word_less_nat_alt)

lemma indirect_owned: "stored (img s) ad cs m \<Longrightarrow> NDIRECT < m \<Longrightarrow> ad ! NDIRECT \<noteq> 0 \<and> ad ! NDIRECT \<in> owned (img s) ad"
  using ownedI [of MAXFILE "img s" ad] by (auto simp: own_last stored_def)

lemma mk_bmap_old:
  assumes st: "stored (img s) ad cs m" and cl: "clean ad s" and din: "di_addrs din = ad" and fbn: "fbn < m"
  shows "mk_bmap fbn din s = Inr (own (img s) ad fbn, din, s)"
proof -
  have m: "m \<le> MAXFILE" using st by (simp add: stored_def)
  have nz: "own (img s) ad fbn \<noteq> 0" using st fbn m by (simp add: stored_def)
  show ?thesis
  proof (cases "fbn < NDIRECT")
    case True
    then show ?thesis using nz din by (simp add: mk_bmap_def own_def)
  next
    case False
    then have nd: "NDIRECT < m" using fbn by simp
    note i = indirect_owned [OF st nd]
    then have "rsect (ad ! NDIRECT) s = Inr (img s (ad ! NDIRECT))" using clean_below [OF cl] rsect_ok by blast
    with False i nz din m fbn show ?thesis by (simp add: mk_bmap_def own_def run_def)
  qed
qed

lemma mk_bmap_new:
  assumes st: "stored (img s) ad cs m" and cl: "clean ad s" and din: "di_addrs din = ad" and m: "m < MAXFILE"
    and room: "unat (freeblock s) + (fblocks (Suc m) - fblocks m) \<le> 1000"
  obtains ad' s' where "mk_bmap m din s = Inr (own (img s') ad' m, din\<lparr>di_addrs := ad'\<rparr>, s')"
    "stored (img s') ad' cs (Suc m)" "clean ad' s'" "extends ad s ad' s'"
    "unat (freeblock s') = unat (freeblock s) + (fblocks (Suc m) - fblocks m)"
proof -
  have z: "own (img s) ad m = 0" and len: "length ad = NDIRECT + 1" using st m less_irrefl [of m] unfolding stored_def by blast+
  have ns: "nsect s = 1000" and fz: "img s (freeblock s) = (\<lambda>_. 0)" and f0: "freeblock s \<noteq> 0"
    using cl by (auto simp: clean_def)
  consider "m < NDIRECT" | "m = NDIRECT" | "NDIRECT < m" by linarith
  then show ?thesis
  proof cases
    case 1
    then have r: "unat (freeblock s) < 1000" using room by (simp add: fblocks_def)
    note a = add_direct [OF st cl 1 r] and n = next_block [OF r]
    have "mk_bmap m din s = Inr (freeblock s, din\<lparr>di_addrs := ad[m := freeblock s]\<rparr>, s\<lparr>freeblock := freeblock s + 1\<rparr>)"
      using 1 z din len by (simp add: mk_bmap_def own_def)
    moreover have "own (img s) (ad[m := freeblock s]) m = freeblock s" using 1 len by (simp add: own_def)
    ultimately show ?thesis using a n(1) 1
      by (intro that [of "s\<lparr>freeblock := freeblock s + 1\<rparr>" "ad[m := freeblock s]"]) (simp_all add: fblocks_def)
  next
    case 2
    then have r: "unat (freeblock s) + 1 < 1000" using room by (simp add: fblocks_def)
    then have r0: "unat (freeblock s) < 1000" by simp
    note n = next_block [OF r0]
    have r1: "unat (freeblock s + 1) < 1000" using r n(1) by simp
    note n1 = next_block [OF r1]
    note a = add_indirect_first [OF st [unfolded 2] cl r]
    let ?ad = "ad[NDIRECT := freeblock s]" and ?b = "pg_set_word (\<lambda>_. 0) 0 (freeblock s + 1)"
    let ?s = "s\<lparr>img := (img s)(freeblock s := ?b), freeblock := freeblock s + 1 + 1\<rparr>"
    have zero: "ad ! NDIRECT = 0" using st 2 by (simp add: stored_def)
    have rs: "rsect (freeblock s) (s\<lparr>freeblock := freeblock s + 1\<rparr>) = Inr (\<lambda>_. 0)" using rsect_ok ns r0 fz by simp
    have ws: "wsect (freeblock s) ?b (s\<lparr>freeblock := freeblock s + 1 + 1\<rparr>) = ?s" using wsect_ok ns r0 by simp
    have "mk_bmap m din s = Inr (freeblock s + 1, din\<lparr>di_addrs := ?ad\<rparr>, ?s)"
      using 2 zero din len rs ws by (simp add: mk_bmap_def run_def pg_word_zero_fun Let_def add.assoc)
    moreover have "own (img ?s) ?ad m = freeblock s + 1" using 2 len f0 by (simp add: own_def MAXFILE_def NINDIRECT_def)
    ultimately show ?thesis using a n(1) n1(1) 2 by (intro that [of ?s ?ad]) (simp_all add: fblocks_def)
  next
    case 3
    then have r: "unat (freeblock s) < 1000" using room by (simp add: fblocks_def)
    note a = add_indirect_next [OF st cl 3 m r] and n = next_block [OF r]
    let ?y = "ad ! NDIRECT" and ?b = "pg_set_word (img s (ad ! NDIRECT)) (m - NDIRECT) (freeblock s)"
    let ?s = "s\<lparr>img := (img s)(?y := ?b), freeblock := freeblock s + 1\<rparr>"
    have y: "?y \<noteq> 0" using indirect_owned [OF st 3] by simp
    have yb: "unat ?y < 1000" using a(4) clean_below [OF cl] by blast
    have rs: "rsect ?y s = Inr (img s ?y)" using rsect_ok ns yb by simp
    have ws: "wsect ?y ?b (s\<lparr>freeblock := freeblock s + 1\<rparr>) = ?s" using wsect_ok ns yb by simp
    have w0: "pg_word (img s ?y) (m - NDIRECT) = 0" using z 3 m y by (simp add: own_def)
    have "mk_bmap m din s = Inr (freeblock s, din\<lparr>di_addrs := ad\<rparr>, ?s)"
      using 3 y din rs ws w0 by (simp add: mk_bmap_def run_def Let_def)
    moreover have "own (img ?s) ad m = freeblock s" using 3 m y by (simp add: own_def)
    ultimately show ?thesis using a n(1) 3 by (intro that [of ?s ad]) (simp_all add: fblocks_def)
  qed
qed

section \<open>Appending bytes\<close>

definition nblk :: "nat \<Rightarrow> nat" where
  "nblk n = (n + (BSIZE - 1)) div BSIZE"

lemma nblk_mono: "a \<le> b \<Longrightarrow> nblk a \<le> nblk b"
  by (simp add: nblk_def div_le_mono)

lemma nblk_le: "n \<le> m * BSIZE \<Longrightarrow> nblk n \<le> m"
  by (simp add: nblk_def file_consts)

lemma fblocks_mono: "a \<le> b \<Longrightarrow> fblocks a \<le> fblocks b"
  by (simp add: fblocks_def)

lemma nblk_eqI: "512 * m \<le> n + 511 \<Longrightarrow> n + 511 < 512 * Suc m \<Longrightarrow> nblk n = m"
  unfolding nblk_def file_consts by (rule div_nat_eqI) simp_all

lemma split512:
  fixes n :: nat
  obtains q r where "n = 512 * q + r" "r < 512" "n div BSIZE = q" "n mod BSIZE = r"
  by (rule that [of "n div 512" "n mod 512"]) (simp_all add: file_consts)

lemma nblk_cases: "nblk n = (if n mod BSIZE = 0 then n div BSIZE else Suc (n div BSIZE))"
  by (rule split512 [of n]) (auto intro!: nblk_eqI)

lemma nblk_fill: "0 < k \<Longrightarrow> k \<le> BSIZE - n mod BSIZE \<Longrightarrow> nblk (n + k) = Suc (n div BSIZE)"
proof (rule split512 [of n])
  fix q r
  assume k: "0 < k" "k \<le> BSIZE - n mod BSIZE" and n: "n = 512 * q + r" "r < 512" "n div BSIZE = q" "n mod BSIZE = r"
  have "k + r \<le> 512" using k n by (simp add: file_consts)
  then show ?thesis unfolding n(3) using k(1) n(1) by (intro nblk_eqI) simp_all
qed

lemma write_data:
  assumes st: "stored (img s) ad cs m" and cl: "clean ad s" and j: "length cs div BSIZE < m"
    and fits: "length cs mod BSIZE + length ys \<le> BSIZE"
  defines "x \<equiv> own (img s) ad (length cs div BSIZE)"
  defines "s' \<equiv> s\<lparr>img := (img s)(x := overwrite (img s x) (length cs mod BSIZE) ys)\<rparr>"
  shows "stored (img s') ad (cs @ ys) m" "clean ad s'" "extends ad s ad s'" "unat x < 1000 \<and> nsect s = 1000"
proof -
  note w = stored_write [OF st j fits]
  have xo: "x \<in> owned (img s) ad" using w(3) by (simp add: x_def)
  have ow: "owned (img s') ad = owned (img s) ad" using w(2) by (simp add: s'_def x_def)
  show "stored (img s') ad (cs @ ys) m" using w(1) by (simp add: s'_def x_def)
  show "unat x < 1000 \<and> nsect s = 1000" by (rule clean_below [OF cl xo])
  have "x < freeblock s" using cl xo by (simp add: clean_def)
  then have "img s' b = img s b" if "freeblock s \<le> b" for b using that by (auto simp: s'_def)
  then have "img s' b = (\<lambda>_. 0)" if "freeblock s \<le> b" for b using that cl by (simp add: clean_def)
  moreover have eq: "freeblock s' = freeblock s" "freeinode s' = freeinode s" "nsect s' = nsect s" by (simp_all add: s'_def)
  ultimately show "clean ad s'" using cl unfolding clean_def ow eq by blast
  have "img s' b = img s b" if "b \<notin> owned (img s) ad" for b using that xo by (auto simp: s'_def)
  then show "extends ad s ad s'" unfolding extends_def ow eq by simp
qed

lemma iappend_step:
  assumes st: "stored (img s) ad cs (nblk (length cs))" and cl: "clean ad s" and din: "di_addrs din = ad"
    and ys: "ys \<noteq> []" "length ys \<le> BSIZE - length cs mod BSIZE" and mx: "length cs + length ys \<le> MAXFILE * BSIZE"
    and room: "unat (freeblock s) + (fblocks (nblk (length cs + length ys)) - fblocks (nblk (length cs))) \<le> 1000"
  obtains x ad' s' where "mk_bmap (length cs div BSIZE) din s = Inr (x, din\<lparr>di_addrs := ad'\<rparr>, s')"
    "rsect x s' = Inr (img s' x)"
    "stored (img (wsect x (overwrite (img s' x) (length cs mod BSIZE) ys) s')) ad' (cs @ ys) (nblk (length cs + length ys))"
    "clean ad' (wsect x (overwrite (img s' x) (length cs mod BSIZE) ys) s')"
    "extends ad s ad' (wsect x (overwrite (img s' x) (length cs mod BSIZE) ys) s')"
    "unat (freeblock (wsect x (overwrite (img s' x) (length cs mod BSIZE) ys) s')) =
       unat (freeblock s) + (fblocks (nblk (length cs + length ys)) - fblocks (nblk (length cs)))"
proof -
  let ?j = "length cs div BSIZE"
  have k: "0 < length ys" using ys by simp
  note nb = nblk_fill [OF k ys(2)]
  have "length cs < MAXFILE * BSIZE" using mx k by linarith
  then have jm: "?j < MAXFILE" by (simp add: file_consts)
  have fits: "length cs mod BSIZE + length ys \<le> BSIZE" using ys(2) by (simp add: file_consts)
  obtain ad' s' where b: "mk_bmap ?j din s = Inr (own (img s') ad' ?j, din\<lparr>di_addrs := ad'\<rparr>, s')"
    "stored (img s') ad' cs (Suc ?j)" "clean ad' s'" "extends ad s ad' s'"
    "unat (freeblock s') = unat (freeblock s) + (fblocks (Suc ?j) - fblocks (nblk (length cs)))"
  proof (cases "length cs mod BSIZE = 0")
    case True
    then have n: "nblk (length cs) = ?j" by (simp add: nblk_cases)
    show ?thesis
      by (rule mk_bmap_new [OF st [unfolded n] cl din jm room [unfolded nb n]]) (rule that, simp_all add: n)
  next
    case False
    then have n: "nblk (length cs) = Suc ?j" by (simp add: nblk_cases)
    have "mk_bmap ?j din s = Inr (own (img s) ad ?j, din, s)" by (rule mk_bmap_old [OF st cl din]) (simp add: n)
    moreover have "din\<lparr>di_addrs := ad\<rparr> = din" using din by simp
    ultimately show ?thesis using that [of s ad] st cl unfolding n by simp
  qed
  note w = write_data [OF b(2,3) _ fits, simplified]
  have ws: "wsect (own (img s') ad' ?j) z s' = s'\<lparr>img := (img s')(own (img s') ad' ?j := z)\<rparr>" for z
    using wsect_ok w(4) by blast
  show ?thesis
    by (rule that [OF b(1), unfolded ws nb])
      (use w b(5) extends_trans [OF b(4) w(3)] rsect_ok in simp_all)
qed

lemma block_offsets:
  fixes n :: nat
  shows "(n div BSIZE + 1) * BSIZE - n = BSIZE - n mod BSIZE" "n - n div BSIZE * BSIZE = n mod BSIZE"
  by (rule split512 [of n], simp add: file_consts)+

declare iappend_loop.simps [simp del]

lemma iappend_loop_Nil: "iappend_loop [] off din s = Inr (off, din, s)"
  by (simp add: iappend_loop.simps)

lemma iappend_loop_next:
  assumes "xs \<noteq> []" "off div BSIZE < MAXFILE" "mk_bmap (off div BSIZE) din s = Inr (x, din', s')" "rsect x s' = Inr buf"
  shows "iappend_loop xs off din s =
    (let n1 = min (length xs) (BSIZE - off mod BSIZE)
     in iappend_loop (drop n1 xs) (off + n1) din' (wsect x (overwrite buf (off mod BSIZE) (take n1 xs)) s'))"
  using assms by (subst iappend_loop.simps) (simp add: run_def Let_def block_offsets [unfolded Suc_eq_plus1 [symmetric]]
    block_offsets(1) [unfolded add.commute [of _ 1] mult_Suc plus_1_eq_Suc])

lemma iappend_loop_ok:
  assumes "stored (img s) ad cs (nblk (length cs))" "clean ad s" "di_addrs din = ad" "length cs + length xs \<le> MAXFILE * BSIZE"
    "unat (freeblock s) + (fblocks (nblk (length cs + length xs)) - fblocks (nblk (length cs))) \<le> 1000"
  shows "\<exists>ad' s'. iappend_loop xs (length cs) din s = Inr (length cs + length xs, din\<lparr>di_addrs := ad'\<rparr>, s') \<and>
    stored (img s') ad' (cs @ xs) (nblk (length cs + length xs)) \<and> clean ad' s' \<and> extends ad s ad' s' \<and>
    unat (freeblock s') = unat (freeblock s) + (fblocks (nblk (length cs + length xs)) - fblocks (nblk (length cs)))"
  using assms
proof (induction "length xs" arbitrary: xs cs ad din s rule: less_induct)
  case less
  note st = less.prems(1) and cl = less.prems(2) and din = less.prems(3) and mx = less.prems(4) and room = less.prems(5)
  show ?case
  proof (cases "xs = []")
    case True
    have "din\<lparr>di_addrs := ad\<rparr> = din" using din by simp
    with True st cl show ?thesis by (intro exI [of _ ad] exI [of _ s]) (simp add: iappend_loop_Nil)
  next
    case False
    let ?n = "min (length xs) (BSIZE - length cs mod BSIZE)"
    let ?ys = "take ?n xs" and ?zs = "drop ?n xs"
    have mb: "length cs mod BSIZE < BSIZE" by (simp add: file_consts)
    then have n: "0 < ?n" "length ?ys = ?n" using False by simp_all
    have nn: "?n \<le> length xs" by simp
    have yl: "?ys \<noteq> []" "length ?ys \<le> BSIZE - length cs mod BSIZE" using False mb by simp_all
    have mono: "fblocks (nblk (length cs)) \<le> fblocks (nblk (length cs + length ?ys))"
      "fblocks (nblk (length cs + length ?ys)) \<le> fblocks (nblk (length cs + length xs))"
      by (intro fblocks_mono nblk_mono; simp)+
    have my: "length cs + length ?ys \<le> MAXFILE * BSIZE" using mx n(2) nn by linarith
    have ry: "unat (freeblock s) + (fblocks (nblk (length cs + length ?ys)) - fblocks (nblk (length cs))) \<le> 1000"
      using room mono by linarith
    obtain x ad1 s1 s2 where b: "mk_bmap (length cs div BSIZE) din s = Inr (x, din\<lparr>di_addrs := ad1\<rparr>, s1)"
      "rsect x s1 = Inr (img s1 x)" and s2: "s2 = wsect x (overwrite (img s1 x) (length cs mod BSIZE) ?ys) s1"
      and w: "stored (img s2) ad1 (cs @ ?ys) (nblk (length cs + length ?ys))" "clean ad1 s2" "extends ad s ad1 s2"
      "unat (freeblock s2) = unat (freeblock s) + (fblocks (nblk (length cs + length ?ys)) - fblocks (nblk (length cs)))"
      by (rule iappend_step [OF st cl din yl my ry]) blast
    have len: "length (cs @ ?ys) = length cs + length ?ys" "length (cs @ ?ys) + length ?zs = length cs + length xs"
      "length cs + ?n = length cs + length ?ys" using n(2) nn by simp_all
    have shorter: "length ?zs < length xs" using n(1) nn by simp
    obtain ad' s' where r: "iappend_loop ?zs (length cs + length ?ys) (din\<lparr>di_addrs := ad1\<rparr>) s2 =
        Inr (length cs + length xs, din\<lparr>di_addrs := ad1, di_addrs := ad'\<rparr>, s')"
      "stored (img s') ad' ((cs @ ?ys) @ ?zs) (nblk (length cs + length xs))" "clean ad' s'" "extends ad1 s2 ad' s'"
      "unat (freeblock s') = unat (freeblock s2) + (fblocks (nblk (length cs + length xs)) - fblocks (nblk (length cs + length ?ys)))"
    proof -
      have "unat (freeblock s2) + (fblocks (nblk (length (cs @ ?ys) + length ?zs)) - fblocks (nblk (length (cs @ ?ys)))) \<le> 1000"
        using room mono w(4) unfolding len(2) unfolding len(1) by linarith
      note h = less.hyps [OF shorter _ w(2) _ _ this, of "din\<lparr>di_addrs := ad1\<rparr>", unfolded len(2), unfolded len(1)]
      have "di_addrs (din\<lparr>di_addrs := ad1\<rparr>) = ad1" by simp
      from h [OF w(1) this mx] show ?thesis by (elim exE conjE) (rule that)
    qed
    have lim: "length cs div BSIZE < MAXFILE"
    proof -
      have "length cs < MAXFILE * BSIZE" using mx n(1) nn by linarith
      then show ?thesis by (simp add: file_consts)
    qed
    have "iappend_loop xs (length cs) din s = Inr (length cs + length xs, din\<lparr>di_addrs := ad'\<rparr>, s')"
      unfolding iappend_loop_next [OF False lim b] Let_def s2 [symmetric] len(3) using r(1) by simp
    moreover have "unat (freeblock s') = unat (freeblock s) + (fblocks (nblk (length cs + length xs)) - fblocks (nblk (length cs)))"
      using r(5) w(4) mono by linarith
    moreover have "extends ad s ad' s'" by (rule extends_trans [OF w(3) r(4)])
    ultimately show ?thesis using r(2,3) by (intro exI [of _ ad'] exI [of _ s']) simp
  qed
qed

section \<open>The inode table\<close>

definition dinode_at :: "(u32 \<Rightarrow> block) \<Rightarrow> nat \<Rightarrow> dinode" where
  "dinode_at v i = get_dinode (v (IBLOCK (of_nat i) mk_sb)) (dinode_off (of_nat i))"

definition inode_block :: "u32 \<Rightarrow> bool" where
  "inode_block b \<longleftrightarrow> 32 \<le> unat b \<and> unat b < 58"

lemma slot:
  assumes "i < 208"
  shows "unat (IBLOCK (of_nat i) mk_sb) = 32 + i div 8" "dinode_off (of_nat i) = 64 * (i mod 8)"
    "inode_block (IBLOCK (of_nat i) mk_sb)"
proof -
  have u: "unat (of_nat i :: u32) = i" using assms by (simp add: unsigned_of_nat take_bit_nat_eq_self)
  have "i div 8 < 26" using assms by (simp add: less_mult_imp_div_less)
  then show e: "unat (IBLOCK (of_nat i) mk_sb) = 32 + i div 8"
    by (simp add: IBLOCK_def layout unat_word_ariths u)
  show "dinode_off (of_nat i) = 64 * (i mod 8)" by (simp add: dinode_off_def IPB_def u)
  show "inode_block (IBLOCK (of_nat i) mk_sb)" using \<open>i div 8 < 26\<close> by (simp add: inode_block_def e)
qed

lemma rinode_ok: "nsect s = 1000 \<Longrightarrow> i < 208 \<Longrightarrow> rinode (of_nat i) s = Inr (dinode_at (img s) i)"
  using slot(1,3) [of i] rsect_ok [of s "IBLOCK (of_nat i) mk_sb"]
  by (simp add: rinode_def dinode_at_def inode_block_def run_def)

lemma winode_ok:
  assumes ns: "nsect s = 1000" and i: "i < 208" and len: "length (di_addrs d) = NDIRECT + 1"
  obtains v where "winode (of_nat i) d s = Inr (s\<lparr>img := v\<rparr>)" "dinode_at v i = d"
    "\<And>j. j < 208 \<Longrightarrow> j \<noteq> i \<Longrightarrow> dinode_at v j = dinode_at (img s) j" "\<And>b. \<not> inode_block b \<Longrightarrow> v b = img s b"
proof -
  let ?b = "IBLOCK (of_nat i) mk_sb" and ?a = "dinode_off (of_nat i)"
  let ?v = "(img s)(?b := put_dinode d ?a (img s ?b))"
  have b: "unat ?b < 1000" using slot(3) [OF i] by (simp add: inode_block_def)
  have "winode (of_nat i) d s = Inr (s\<lparr>img := ?v\<rparr>)"
    using rsect_ok [OF ns b] wsect_ok [OF ns b] by (simp add: winode_def run_def Let_def)
  moreover have "dinode_at ?v i = d" by (simp add: dinode_at_def get_put_dinode [OF len])
  moreover have "dinode_at ?v j = dinode_at (img s) j" if j: "j < 208" "j \<noteq> i" for j
  proof (cases "j div 8 = i div 8")
    case True
    then have "j mod 8 \<noteq> i mod 8" using j(2) by (metis div_mult_mod_eq)
    then have "dinode_off (of_nat j) + 64 \<le> ?a \<or> ?a + 64 \<le> dinode_off (of_nat j)"
      unfolding slot(2) [OF i] slot(2) [OF j(1)] by linarith
    moreover have "IBLOCK (of_nat j) mk_sb = ?b" using True slot(1) [OF i] slot(1) [OF j(1)] by (simp add: word_unat_eq_iff)
    ultimately show ?thesis by (simp add: dinode_at_def get_put_other)
  next
    case False
    then have "IBLOCK (of_nat j) mk_sb \<noteq> ?b" using slot(1) [OF i] slot(1) [OF j(1)] by auto
    then show ?thesis by (simp add: dinode_at_def)
  qed
  moreover have "?v b = img s b" if "\<not> inode_block b" for b using that slot(3) [OF i] by auto
  ultimately show ?thesis by (rule that)
qed

lemma dinode_at_cong: "(\<And>b. inode_block b \<Longrightarrow> v' b = v b) \<Longrightarrow> i < 208 \<Longrightarrow> dinode_at v' i = dinode_at v i"
  using slot(3) [of i] by (simp add: dinode_at_def)

section \<open>The image of a list of files\<close>

text \<open>A file of the image: its type, its bytes and the size its inode gives; inode \<open>i + 1\<close> is the file at place \<open>i\<close>.\<close>

type_synonym mfile = "u16 \<times> u8 list \<times> u32"

definition mfile_ok :: "(u32 \<Rightarrow> block) \<Rightarrow> u32 \<Rightarrow> mfile \<Rightarrow> dinode \<Rightarrow> bool" where
  "mfile_ok v fb f d \<longleftrightarrow> di_type d = fst f \<and> di_major d = 0 \<and> di_minor d = 0 \<and> di_nlink d = 1 \<and> di_size d = snd (snd f) \<and>
     length (fst (snd f)) \<le> MAXFILE * BSIZE \<and> stored v (di_addrs d) (fst (snd f)) (nblk (length (fst (snd f)))) \<and>
     (\<forall>b \<in> owned v (di_addrs d). nmeta \<le> b \<and> b < fb)"

definition file_blocks :: "mfile \<Rightarrow> nat" where
  "file_blocks f = fblocks (nblk (length (fst (snd f))))"

definition image_ok :: "block \<Rightarrow> mfile list \<Rightarrow> mkfs \<Rightarrow> bool" where
  "image_ok bm fs s \<longleftrightarrow> nsect s = 1000 \<and> length fs < 200 \<and> unat (freeinode s) = Suc (length fs) \<and>
     unat (freeblock s) = 59 + sum_list (map file_blocks fs) \<and> unat (freeblock s) \<le> 1000 \<and>
     img s 1 = put_sb mk_sb \<and> img s 58 = bm \<and>
     (\<forall>b. unat b = 0 \<or> 2 \<le> unat b \<and> unat b < 32 \<longrightarrow> img s b = (\<lambda>_. 0)) \<and>
     (\<forall>b. freeblock s \<le> b \<longrightarrow> img s b = (\<lambda>_. 0)) \<and>
     (\<forall>i < length fs. mfile_ok (img s) (freeblock s) (fs ! i) (dinode_at (img s) (Suc i))) \<and>
     (\<forall>i < length fs. \<forall>j < length fs. i \<noteq> j \<longrightarrow>
        owned (img s) (di_addrs (dinode_at (img s) (Suc i))) \<inter> owned (img s) (di_addrs (dinode_at (img s) (Suc j))) = {}) \<and>
     (\<forall>i < 208. i = 0 \<or> length fs < i \<longrightarrow> di_type (dinode_at (img s) i) = 0)"

lemma image_file: "image_ok bm fs s \<Longrightarrow> k < length fs \<Longrightarrow> mfile_ok (img s) (freeblock s) (fs ! k) (dinode_at (img s) (Suc k))"
  by (simp add: image_ok_def)

lemma image_clean:
  assumes "image_ok bm fs s" "k < length fs"
  shows "clean (di_addrs (dinode_at (img s) (Suc k))) s"
proof -
  have "0 < freeblock s" using assms(1) by (simp add: image_ok_def word_less_nat_alt)
  then show ?thesis using assms image_file [OF assms] by (simp add: clean_def image_ok_def mfile_ok_def)
qed

lemma meta_blocks:
  assumes "image_ok bm fs s"
  shows "unat b < 59 \<Longrightarrow> b < freeblock s" "k < length fs \<Longrightarrow> unat b < 59 \<Longrightarrow> b \<notin> owned (img s) (di_addrs (dinode_at (img s) (Suc k)))"
    "inode_block b \<Longrightarrow> b < nmeta" "freeblock s \<le> b \<Longrightarrow> \<not> inode_block b"
proof -
  have fb: "59 \<le> unat (freeblock s)" using assms by (simp add: image_ok_def)
  then show "unat b < 59 \<Longrightarrow> b < freeblock s" "inode_block b \<Longrightarrow> b < nmeta" "freeblock s \<le> b \<Longrightarrow> \<not> inode_block b"
    by (simp_all add: word_less_nat_alt word_le_nat_alt inode_block_def layout(1))
  show "b \<notin> owned (img s) (di_addrs (dinode_at (img s) (Suc k)))" if "k < length fs" "unat b < 59"
    using image_file [OF assms that(1)] that(2) by (auto simp: mfile_ok_def layout(1) word_le_nat_alt)
qed

text \<open>The file at place \<open>k\<close> is extended over its own and new blocks, and its inode is written back.\<close>

lemma set_file:
  fixes fs :: "mfile list" and k :: nat and s :: mkfs
  defines "ad \<equiv> di_addrs (dinode_at (img s) (Suc k))"
  assumes im: "image_ok bm fs s" and k: "k < length fs" and ex: "extends ad s ad' s1" and cl: "clean ad' s1"
    and st: "stored (img s1) ad' cs (nblk (length cs))" and mx: "length cs \<le> MAXFILE * BSIZE"
    and fb: "unat (freeblock s1) + file_blocks (fs ! k) = unat (freeblock s) + fblocks (nblk (length cs))"
    and v: "dinode_at v (Suc k) = (dinode_at (img s) (Suc k))\<lparr>di_addrs := ad', di_size := z\<rparr>"
      "\<And>j. j < 208 \<Longrightarrow> j \<noteq> Suc k \<Longrightarrow> dinode_at v j = dinode_at (img s1) j" "\<And>b. \<not> inode_block b \<Longrightarrow> v b = img s1 b"
  shows "image_ok bm (fs[k := (fst (fs ! k), cs, z)]) (s1\<lparr>img := v\<rparr>)"
proof -
  let ?f = "(fst (fs ! k), cs, z)" and ?ad = "\<lambda>j. di_addrs (dinode_at (img s) (Suc j))"
  have n: "length fs < 200" using im by (simp add: image_ok_def)
  have mono: "freeblock s \<le> freeblock s1" using ex by (simp add: extends_def)
  have meta: "img s1 b = img s b" if "unat b < 59" for b
    using ex that meta_blocks(1,2) [OF im] k unfolding extends_def ad_def by blast
  have din: "dinode_at v j = dinode_at (img s) j" if "j < 208" "j \<noteq> Suc k" for j
    using v(2) [OF that] dinode_at_cong [of "img s1" "img s" j] meta that(1) by (simp add: inode_block_def)
  have data: "v b = img s1 b" if "nmeta \<le> b" for b using that v(3) meta_blocks(3) [OF im, of b] by force
  have keep: "v b = img s b" if "b \<in> owned (img s) (?ad j)" "j < length fs" "j \<noteq> k" for b j
  proof -
    have b: "nmeta \<le> b" "b < freeblock s" using image_file [OF im that(2)] that(1) by (simp_all add: mfile_ok_def)
    have "b \<notin> owned (img s) ad" using im that k unfolding image_ok_def ad_def by blast
    then show ?thesis using ex b data [OF b(1)] by (simp add: extends_def)
  qed
  have new: "nmeta \<le> b \<and> b < freeblock s1 \<and> (b \<in> owned (img s) ad \<or> freeblock s \<le> b)" if "b \<in> owned (img s1) ad'" for b
  proof -
    have "b \<in> owned (img s) ad \<or> freeblock s \<le> b" using ex that by (simp add: extends_def)
    moreover have "b < freeblock s1" using cl that by (simp add: clean_def)
    moreover have "nmeta \<le> b" if "b \<in> owned (img s) ad" using image_file [OF im k] that by (simp add: mfile_ok_def ad_def)
    moreover have "nmeta \<le> freeblock s" using im by (simp add: image_ok_def layout(1) word_le_nat_alt)
    ultimately show ?thesis using order_trans by blast
  qed
  then have c1: "v b = img s1 b" if "b \<in> owned (img s1) ad'" for b using data that by blast
  note own1 = stored_cong [OF c1]
  have ownj: "stored v (?ad j) c m = stored (img s) (?ad j) c m \<and> owned v (?ad j) = owned (img s) (?ad j)"
    if "j < length fs" "j \<noteq> k" for j c m
    using stored_cong [of "img s" "?ad j" v] keep [OF _ that] by blast
  have "mfile_ok v (freeblock s1) ?f (dinode_at v (Suc k))"
    using image_file [OF im k] new own1 st mx unfolding v(1) by (simp add: mfile_ok_def)
  moreover have "mfile_ok v (freeblock s1) (fs ! j) (dinode_at v (Suc j))" if "j < length fs" "j \<noteq> k" for j
  proof -
    have "dinode_at v (Suc j) = dinode_at (img s) (Suc j)" using that n by (intro din) simp_all
    then show ?thesis using image_file [OF im that(1)] mono ownj [OF that] by (auto simp: mfile_ok_def)
  qed
  ultimately have files: "\<forall>j < length fs. mfile_ok v (freeblock s1) ((fs[k := ?f]) ! j) (dinode_at v (Suc j))"
    by (metis nth_list_update_eq nth_list_update_neq k)
  have own: "owned v (di_addrs (dinode_at v (Suc j))) = (if j = k then owned (img s1) ad' else owned (img s) (?ad j))"
    if "j < length fs" for j
  proof (cases "j = k")
    case True
    then show ?thesis using own1(2) by (simp add: v(1))
  next
    case False
    then have "dinode_at v (Suc j) = dinode_at (img s) (Suc j)" using that n by (intro din) simp_all
    with False ownj [OF that False] show ?thesis by simp
  qed
  have apart: "owned (img s1) ad' \<inter> owned (img s) (?ad j) = {}" if "j < length fs" "j \<noteq> k" for j
  proof -
    have "owned (img s) ad \<inter> owned (img s) (?ad j) = {}" using im k that unfolding image_ok_def ad_def by blast
    moreover have "b < freeblock s" if "b \<in> owned (img s) (?ad j)" for b
      using image_file [OF im \<open>j < length fs\<close>] that by (simp add: mfile_ok_def)
    ultimately show ?thesis using new by (meson disjoint_iff leD)
  qed
  have disj: "\<forall>i < length fs. \<forall>j < length fs. i \<noteq> j \<longrightarrow>
      owned v (di_addrs (dinode_at v (Suc i))) \<inter> owned v (di_addrs (dinode_at v (Suc j))) = {}"
  proof (intro allI impI)
    fix i j assume ij: "i < length fs" "j < length fs" "i \<noteq> j"
    have "i \<noteq> k \<Longrightarrow> j \<noteq> k \<Longrightarrow> owned (img s) (?ad i) \<inter> owned (img s) (?ad j) = {}"
      using im ij unfolding image_ok_def by blast
    then show "owned v (di_addrs (dinode_at v (Suc i))) \<inter> owned v (di_addrs (dinode_at v (Suc j))) = {}"
      using apart [OF ij(1)] apart [OF ij(2)] ij(3) unfolding own [OF ij(1)] own [OF ij(2)] by (auto simp: Int_commute)
  qed
  have total: "unat (freeblock s1) = 59 + sum_list (map file_blocks (fs[k := ?f]))"
  proof -
    have "sum_list (map file_blocks (fs[k := ?f])) = sum_list (map file_blocks fs) + file_blocks ?f - file_blocks (fs ! k)"
      using k by (simp add: map_update sum_list_update)
    moreover have "unat (freeblock s) = 59 + sum_list (map file_blocks fs)" using im by (simp add: image_ok_def)
    moreover have "file_blocks (fs ! k) \<le> sum_list (map file_blocks fs)" using k by (intro member_le_sum_list) simp_all
    ultimately show ?thesis using fb by (simp add: file_blocks_def)
  qed
  have fixed: "v b = img s b" if "unat b < 59" "\<not> inode_block b" for b using meta [OF that(1)] v(3) [OF that(2)] by simp
  have "v 1 = put_sb mk_sb" "v 58 = bm" "\<forall>b. unat b = 0 \<or> 2 \<le> unat b \<and> unat b < 32 \<longrightarrow> v b = (\<lambda>_. 0)"
    using im fixed by (auto simp: image_ok_def inode_block_def)
  moreover have "\<forall>b. freeblock s1 \<le> b \<longrightarrow> v b = (\<lambda>_. 0)"
    using cl v(3) meta_blocks(4) [OF im] mono unfolding clean_def by (metis order_trans)
  moreover have "\<forall>i < 208. i = 0 \<or> length fs < i \<longrightarrow> di_type (dinode_at v i) = 0"
  proof (intro allI impI)
    fix i :: nat assume i: "i < 208" "i = 0 \<or> length fs < i"
    then have "dinode_at v i = dinode_at (img s) i" using k by (intro din) auto
    then show "di_type (dinode_at v i) = 0" using im i unfolding image_ok_def by metis
  qed
  moreover have "nsect s1 = 1000" "unat (freeblock s1) \<le> 1000" using cl by (simp_all add: clean_def)
  moreover have "unat (freeinode s1) = Suc (length fs)" using ex im by (simp add: extends_def image_ok_def)
  ultimately show ?thesis using total files disj n by (simp add: image_ok_def)
qed

text \<open>A file with its bytes, when its size is their number.\<close>

abbreviation mfile :: "u16 \<Rightarrow> u8 list \<Rightarrow> mfile" where
  "mfile ty cs \<equiv> (ty, cs, of_nat (length cs))"

definition room :: "mfile list \<Rightarrow> bool" where
  "room fs \<longleftrightarrow> 59 + sum_list (map file_blocks fs) \<le> 1000 \<and> (\<forall>f \<in> set fs. length (fst (snd f)) \<le> MAXFILE * BSIZE)"

lemma iappend_image:
  assumes im: "image_ok bm fs s" and k: "k < length fs" "fs ! k = mfile ty cs" and rm: "room (fs[k := mfile ty (cs @ xs)])"
  shows "\<exists>s'. iappend (of_nat (Suc k)) xs s = Inr s' \<and> image_ok bm (fs[k := mfile ty (cs @ xs)]) s'"
proof -
  let ?d = "dinode_at (img s) (Suc k)" and ?f = "mfile ty (cs @ xs)"
  have f: "mfile_ok (img s) (freeblock s) (mfile ty cs) ?d" using image_file [OF im k(1)] k(2) by simp
  have st: "stored (img s) (di_addrs ?d) cs (nblk (length cs))" and z: "di_size ?d = of_nat (length cs)"
    and ml: "length cs \<le> MAXFILE * BSIZE" using f by (simp_all add: mfile_ok_def)
  have ns: "nsect s = 1000" and n: "length fs < 200" using im by (simp_all add: image_ok_def)
  have i: "Suc k < 208" using k n by simp
  have "?f \<in> set (fs[k := ?f])" by (rule set_update_memI [OF k(1)])
  then have "length (fst (snd ?f)) \<le> MAXFILE * BSIZE" using rm unfolding room_def by blast
  then have mx: "length cs + length xs \<le> MAXFILE * BSIZE" by simp
  have sum: "sum_list (map file_blocks (fs[k := ?f])) = sum_list (map file_blocks fs) + file_blocks ?f - file_blocks (fs ! k)"
    using k by (simp add: map_update sum_list_update)
  have fb: "unat (freeblock s) = 59 + sum_list (map file_blocks fs)" using im by (simp add: image_ok_def)
  have old: "file_blocks (fs ! k) = fblocks (nblk (length cs))" "file_blocks ?f = fblocks (nblk (length cs + length xs))"
    using k(2) by (simp_all add: file_blocks_def)
  have grow: "fblocks (nblk (length cs)) \<le> fblocks (nblk (length cs + length xs))" by (intro fblocks_mono nblk_mono) simp
  have "unat (freeblock s) + (fblocks (nblk (length cs + length xs)) - fblocks (nblk (length cs))) \<le> 1000"
    using rm fb sum old grow unfolding room_def by linarith
  from iappend_loop_ok [OF st image_clean [OF im k(1)] refl mx this] obtain ad' s1 where
    l: "iappend_loop xs (length cs) ?d s = Inr (length cs + length xs, ?d\<lparr>di_addrs := ad'\<rparr>, s1)"
    "stored (img s1) ad' (cs @ xs) (nblk (length (cs @ xs)))" "clean ad' s1" "extends (di_addrs ?d) s ad' s1"
    "unat (freeblock s1) = unat (freeblock s) + (fblocks (nblk (length cs + length xs)) - fblocks (nblk (length cs)))"
    unfolding length_append by blast
  have fb1: "unat (freeblock s1) + file_blocks (fs ! k) = unat (freeblock s) + fblocks (nblk (length (cs @ xs)))"
    using l(5) grow old(1) by simp
  let ?d' = "?d\<lparr>di_addrs := ad', di_size := of_nat (length (cs @ xs))\<rparr>"
  have len: "length (di_addrs ?d') = NDIRECT + 1" using l(2) by (simp add: stored_def)
  have ns1: "nsect s1 = 1000" using l(3) by (simp add: clean_def)
  obtain v where w: "winode (of_nat (Suc k)) ?d' s1 = Inr (s1\<lparr>img := v\<rparr>)" "dinode_at v (Suc k) = ?d'"
    "\<And>j. j < 208 \<Longrightarrow> j \<noteq> Suc k \<Longrightarrow> dinode_at v j = dinode_at (img s1) j" "\<And>b. \<not> inode_block b \<Longrightarrow> v b = img s1 b"
    by (rule winode_ok [OF ns1 i len]) blast
  have u: "unat (of_nat (length cs) :: u32) = length cs"
    using ml by (simp add: unsigned_of_nat file_consts take_bit_nat_eq_self)
  have "iappend (of_nat (Suc k)) xs s = Inr (s1\<lparr>img := v\<rparr>)"
    using rinode_ok [OF ns i] l(1) w(1) z u by (simp add: iappend_def run_def)
  moreover have "image_ok bm (fs[k := (fst (fs ! k), cs @ xs, of_nat (length (cs @ xs)))]) (s1\<lparr>img := v\<rparr>)"
    by (rule set_file [OF im k(1) l(4,3,2) _ fb1 w(2,3,4)]) (use mx in simp_all)
  ultimately show ?thesis using k(2) by simp
qed

lemma stored_empty: "stored v (replicate (NDIRECT + 1) 0) [] 0" "owned v (replicate (NDIRECT + 1) 0) = {}"
proof -
  have o: "own v (replicate (NDIRECT + 1) 0) j = 0" for j by (simp add: own_def file_consts)
  then show "owned v (replicate (NDIRECT + 1) 0) = {}" by (simp add: owned_def)
  have "(replicate (NDIRECT + 1) 0 :: u32 list) ! NDIRECT = 0" by (rule nth_replicate) simp
  then show "stored v (replicate (NDIRECT + 1) 0) [] 0"
    unfolding stored_def own_inj_def content_def o by (simp add: byte_at_def)
qed

lemma ialloc_image:
  assumes im: "image_ok bm fs s" and n: "length fs < 199"
  shows "\<exists>s'. mk_ialloc ty s = Inr (of_nat (Suc (length fs)), s') \<and> image_ok bm (fs @ [mfile ty []]) s'"
proof -
  let ?n = "length fs" and ?i = "freeinode s"
  have i: "?i = of_nat (Suc ?n)" "unat ?i = Suc ?n" using im word_unat_eq_iff [of ?i] n
    by (simp_all add: image_ok_def unsigned_of_nat take_bit_nat_eq_self del: of_nat_Suc)
  let ?s = "s\<lparr>freeinode := ?i + 1\<rparr>"
  have ns: "nsect ?s = 1000" using im by (simp add: image_ok_def)
  have sl: "Suc ?n < 208" using n by simp
  have len: "length (di_addrs (new_dinode ty)) = NDIRECT + 1" by (simp add: new_dinode_def)
  obtain v where w: "winode (of_nat (Suc ?n)) (new_dinode ty) ?s = Inr (?s\<lparr>img := v\<rparr>)" "dinode_at v (Suc ?n) = new_dinode ty"
    "\<And>j. j < 208 \<Longrightarrow> j \<noteq> Suc ?n \<Longrightarrow> dinode_at v j = dinode_at (img s) j" "\<And>b. \<not> inode_block b \<Longrightarrow> v b = img s b"
    by (rule winode_ok [OF ns sl len]) simp
  have old: "dinode_at v (Suc j) = dinode_at (img s) (Suc j)" if "j < ?n" for j using that n by (intro w(3)) simp_all
  have nt: "\<not> inode_block b" if "b \<in> owned (img s) (di_addrs (dinode_at (img s) (Suc j)))" "j < ?n" for b j
    using image_file [OF im that(2)] that(1) meta_blocks(3) [OF im, of b] by (auto simp: mfile_ok_def)
  have cong: "stored v (di_addrs (dinode_at v (Suc j))) c m = stored (img s) (di_addrs (dinode_at (img s) (Suc j))) c m \<and>
      owned v (di_addrs (dinode_at v (Suc j))) = owned (img s) (di_addrs (dinode_at (img s) (Suc j)))" if "j < ?n" for j c m
    unfolding old [OF that] using stored_cong [of "img s" _ v] w(4) nt [OF _ that] by blast
  have "mfile_ok v (freeblock s) (fs ! j) (dinode_at v (Suc j))" if "j < ?n" for j
    using image_file [OF im that] cong [OF that] by (simp add: mfile_ok_def old [OF that])
  moreover have new: "mfile_ok v (freeblock s) (mfile ty []) (new_dinode ty)" "owned v (di_addrs (new_dinode ty)) = {}"
    using stored_empty [of v] by (simp_all add: mfile_ok_def new_dinode_def nblk_def file_consts)
  ultimately have files: "mfile_ok v (freeblock s) ((fs @ [mfile ty []]) ! j) (dinode_at v (Suc j))" if "j < Suc ?n" for j
    using that w(2) by (cases "j = ?n") (simp_all add: nth_append)
  have disj: "owned v (di_addrs (dinode_at v (Suc i))) \<inter> owned v (di_addrs (dinode_at v (Suc j))) = {}"
    if "i < Suc ?n" "j < Suc ?n" "i \<noteq> j" for i j
  proof (cases "i = ?n \<or> j = ?n")
    case True
    then show ?thesis using new(2) w(2) by auto
  next
    case False
    then have ij: "i < ?n" "j < ?n" using that by simp_all
    then show ?thesis using im cong [OF ij(1)] cong [OF ij(2)] that(3) by (simp add: image_ok_def)
  qed
  have "di_type (dinode_at v i) = 0" if "i < 208" "i = 0 \<or> Suc ?n < i" for i
    using im that w(3) [of i] by (auto simp: image_ok_def)
  moreover have "\<forall>b. freeblock s \<le> b \<longrightarrow> v b = (\<lambda>_. 0)" using im w(4) meta_blocks(4) [OF im] by (simp add: image_ok_def)
  moreover have "v 1 = put_sb mk_sb" "v 58 = bm" "\<forall>b. unat b = 0 \<or> 2 \<le> unat b \<and> unat b < 32 \<longrightarrow> v b = (\<lambda>_. 0)"
    using im w(4) by (auto simp: image_ok_def inode_block_def)
  moreover have "unat (?i + 1) = Suc (Suc ?n)" using i(2) n by (simp add: unat_word_ariths)
  moreover have "file_blocks (mfile ty []) = 0" by (simp add: file_blocks_def fblocks_def nblk_def file_consts)
  ultimately have "image_ok bm (fs @ [mfile ty []]) (?s\<lparr>img := v\<rparr>)"
    using im n files disj by (simp add: image_ok_def)
  with w(1) i(1) show ?thesis by (simp add: mk_ialloc_def run_def)
qed

text \<open>Room for some files is room for fewer and shorter ones.\<close>

abbreviation shorter :: "mfile list \<Rightarrow> mfile list \<Rightarrow> bool" where
  "shorter \<equiv> list_all2 (\<lambda>f g. length (fst (snd f)) \<le> length (fst (snd g)))"

lemma room_shorter:
  assumes sh: "shorter fs gs" and rm: "room gs"
  shows "room fs"
proof -
  have "sum_list (map file_blocks fs) \<le> sum_list (map file_blocks gs)"
    using sh by (induction rule: list_all2_induct) (auto simp: file_blocks_def intro!: add_mono fblocks_mono nblk_mono)
  moreover have "(\<forall>g \<in> set gs. length (fst (snd g)) \<le> MAXFILE * BSIZE) \<longrightarrow> (\<forall>f \<in> set fs. length (fst (snd f)) \<le> MAXFILE * BSIZE)"
    using sh by (induction rule: list_all2_induct) auto
  moreover have "59 + sum_list (map file_blocks gs) \<le> 1000" "\<forall>g \<in> set gs. length (fst (snd g)) \<le> MAXFILE * BSIZE"
    using rm by (simp_all add: room_def)
  ultimately show ?thesis unfolding room_def by linarith
qed

lemma room_append: "room (fs @ gs) \<Longrightarrow> room fs"
  by (simp add: room_def)

lemma shorter_refl: "shorter fs fs"
  by (simp add: list_all2_refl)

text \<open>What a loop over \<^verbatim>\<open>read\<close> gets.\<close>

definition taken :: "u8 list list \<Rightarrow> u8 list" where
  "taken bs = concat (takeWhile (\<lambda>b. b \<noteq> []) bs)"

lemma taken_simps [simp]: "taken [] = []" "taken (b # bs) = (if b = [] then [] else b @ taken bs)"
  by (simp_all add: taken_def)

lemma iappend_all_image:
  assumes "image_ok bm fs s" "k < length fs" "fs ! k = mfile ty cs" "room (fs[k := mfile ty (cs @ taken bs)])"
  shows "\<exists>s'. iappend_all (of_nat (Suc k)) bs s = Inr s' \<and> image_ok bm (fs[k := mfile ty (cs @ taken bs)]) s'"
  using assms
proof (induction bs arbitrary: fs cs s)
  case Nil
  then have "fs[k := mfile ty cs] = fs" by (metis list_update_id)
  with Nil show ?case by simp
next
  case (Cons b bs)
  have same: "fs[k := mfile ty cs] = fs" using Cons.prems(3) by (metis list_update_id)
  show ?case
  proof (cases "b = []")
    case True
    then show ?thesis using same Cons.prems(1) by simp
  next
    case False
    let ?gs = "fs[k := mfile ty (cs @ b)]"
    have "shorter ?gs (fs[k := mfile ty (cs @ taken (b # bs))])"
      using Cons.prems(2) by (auto simp: list_all2_conv_all_nth nth_list_update)
    then have "room ?gs" using Cons.prems(4) by (rule room_shorter)
    from iappend_image [OF Cons.prems(1-3) this] obtain s1 where
      s1: "iappend (of_nat (Suc k)) b s = Inr s1" "image_ok bm ?gs s1" by blast
    have up: "?gs[k := x] = fs[k := x]" "?gs ! k = mfile ty (cs @ b)" for x using Cons.prems(2) by simp_all
    have "\<exists>s'. iappend_all (of_nat (Suc k)) bs s1 = Inr s' \<and> image_ok bm (?gs[k := mfile ty ((cs @ b) @ taken bs)]) s'"
      by (rule Cons.IH [OF s1(2)]) (use Cons.prems(2,4) up False in \<open>simp_all\<close>)
    then show ?thesis using s1(1) False by (simp add: run_def)
  qed
qed

section \<open>The program\<close>

text \<open>The directory entries for the arguments, the first of which gets inode \<open>n\<close>, and the file an argument becomes.\<close>

primrec entries :: "nat \<Rightarrow> mkarg list \<Rightarrow> u8 list" where
  "entries n [] = []"
| "entries n (a # as) = make_dirent (cstr_of (skip_underscore (fst a))) (of_nat n) @ entries (Suc n) as"

definition arg_file :: "mkarg \<Rightarrow> mfile" where
  "arg_file a = mfile T_FILE (taken (the (snd a)))"

definition arg_ok :: "mkarg \<Rightarrow> bool" where
  "arg_ok a \<longleftrightarrow> slash \<notin> set (fst a) \<and> snd a \<noteq> None"

lemma short_number: "n < 65536 \<Longrightarrow> ucast (xshort (ucast (of_nat n :: u32))) = (of_nat n :: u32)"
  by (simp add: word_unat_eq_iff unsigned_of_nat unsigned_ucast_eq take_bit_nat_eq_self)

lemma add_file_image:
  assumes im: "image_ok bm (mfile T_DIR dcs # fl) s" and n: "length fl < 198" and ok: "arg_ok a"
    and rm: "room (mfile T_DIR (dcs @ make_dirent (cstr_of (skip_underscore (fst a))) (of_nat (length fl + 2))) # fl @ [arg_file a])"
  shows "\<exists>s'. add_file 1 a s = Inr s' \<and>
    image_ok bm (mfile T_DIR (dcs @ make_dirent (cstr_of (skip_underscore (fst a))) (of_nat (length fl + 2))) # fl @ [arg_file a]) s'"
proof -
  obtain nm cs where a: "a = (nm, Some cs)" "slash \<notin> set nm" using ok by (cases a) (auto simp: arg_ok_def)
  let ?n = "length fl + 2"
  let ?e = "make_dirent (cstr_of (skip_underscore nm)) (of_nat ?n)"
  let ?d = "mfile T_DIR dcs" and ?d' = "mfile T_DIR (dcs @ ?e)"
  obtain s1 where s1: "mk_ialloc T_FILE s = Inr (of_nat ?n, s1)" "image_ok bm (?d # fl @ [mfile T_FILE []]) s1"
    using ialloc_image [OF im, of T_FILE] n by (auto simp del: of_nat_Suc of_nat_add)
  have rm': "room (?d' # fl @ [mfile T_FILE (taken cs)])" using rm a(1) by (simp add: arg_file_def)
  have r1: "room (?d' # fl @ [mfile T_FILE []])"
    by (rule room_shorter [OF _ rm']) (simp add: list_all2_appendI shorter_refl)
  have "\<exists>s'. iappend (of_nat (Suc 0)) ?e s1 = Inr s' \<and> image_ok bm ((?d # fl @ [mfile T_FILE []])[0 := ?d']) s'"
    by (rule iappend_image [OF s1(2)]) (use r1 in simp_all)
  then obtain s2 where s2: "iappend 1 ?e s1 = Inr s2" "image_ok bm (?d' # fl @ [mfile T_FILE []]) s2" by auto
  have up: "(?d' # fl @ [mfile T_FILE []])[Suc (length fl) := x] = ?d' # fl @ [x]" for x by (simp add: list_update_append)
  have "\<exists>s'. iappend_all (of_nat (Suc (Suc (length fl)))) cs s2 = Inr s' \<and>
      image_ok bm ((?d' # fl @ [mfile T_FILE []])[Suc (length fl) := mfile T_FILE ([] @ taken cs)]) s'"
    by (rule iappend_all_image [OF s2(2)]) (use rm' up in simp_all)
  then obtain s3 where s3: "iappend_all (of_nat ?n) cs s2 = Inr s3" "image_ok bm (?d' # fl @ [mfile T_FILE (taken cs)]) s3"
    unfolding up by (auto simp del: of_nat_Suc of_nat_add)
  have "ucast (xshort (ucast (of_nat ?n :: u32))) = (of_nat ?n :: u32)" by (rule short_number) (use n in simp)
  then have "add_file 1 a s = Inr s3" using a s1(1) s2(1) s3(1) by (simp add: add_file_def run_def del: of_nat_Suc of_nat_add xshort_id)
  then show ?thesis using s3(2) a(1) by (simp add: arg_file_def)
qed

lemma add_files_image:
  assumes "image_ok bm (mfile T_DIR dcs # fl) s" "length fl + length args \<le> 198" "list_all arg_ok args"
    "room (mfile T_DIR (dcs @ entries (length fl + 2) args) # fl @ map arg_file args)"
  shows "\<exists>s'. add_files 1 args s = Inr s' \<and> image_ok bm (mfile T_DIR (dcs @ entries (length fl + 2) args) # fl @ map arg_file args) s'"
  using assms
proof (induction args arbitrary: dcs fl s)
  case Nil
  then show ?case by simp
next
  case (Cons a as)
  let ?e = "make_dirent (cstr_of (skip_underscore (fst a))) (of_nat (length fl + 2))" and ?fl = "fl @ [arg_file a]"
  have eq: "dcs @ entries (length fl + 2) (a # as) = (dcs @ ?e) @ entries (length ?fl + 2) as"
    "fl @ map arg_file (a # as) = ?fl @ map arg_file as" by simp_all
  note rm = Cons.prems(4) [unfolded eq]
  have "room ((mfile T_DIR ((dcs @ ?e) @ entries (length ?fl + 2) as) # ?fl) @ map arg_file as)" using rm by simp
  then have "room (mfile T_DIR ((dcs @ ?e) @ entries (length ?fl + 2) as) # ?fl)" by (rule room_append)
  then have r1: "room (mfile T_DIR (dcs @ ?e) # ?fl)" by (rule room_shorter [rotated]) (simp add: shorter_refl)
  obtain s1 where s1: "add_file 1 a s = Inr s1" "image_ok bm (mfile T_DIR (dcs @ ?e) # ?fl) s1"
    using add_file_image [OF Cons.prems(1) _ _ r1] Cons.prems(2,3) by auto
  have "\<exists>s'. add_files 1 as s1 = Inr s' \<and>
      image_ok bm (mfile T_DIR ((dcs @ ?e) @ entries (length ?fl + 2) as) # ?fl @ map arg_file as) s'"
    by (rule Cons.IH [OF s1(2) _ _ rm]) (use Cons.prems(2,3) in simp_all)
  then show ?case unfolding eq using s1(1) by (simp add: run_def)
qed

definition root_size :: "u8 list \<Rightarrow> u32" where
  "root_size cs = of_nat ((length cs div BSIZE + 1) * BSIZE)"

lemma fix_root_image:
  assumes im: "image_ok bm (mfile T_DIR cs # fl) s"
  shows "\<exists>s'. fix_root 1 s = Inr s' \<and> image_ok bm ((T_DIR, cs, root_size cs) # fl) s'"
proof -
  let ?fs = "mfile T_DIR cs # fl" and ?d = "dinode_at (img s) (Suc 0)"
  have k: "0 < length ?fs" by simp
  have f: "mfile_ok (img s) (freeblock s) (mfile T_DIR cs) ?d" using image_file [OF im k] by simp
  have st: "stored (img s) (di_addrs ?d) cs (nblk (length cs))" and z: "di_size ?d = of_nat (length cs)"
    and ml: "length cs \<le> MAXFILE * BSIZE" using f by (simp_all add: mfile_ok_def)
  have ns: "nsect s = 1000" using im by (simp add: image_ok_def)
  have i: "Suc 0 < 208" by simp
  have len: "length (di_addrs (?d\<lparr>di_size := root_size cs\<rparr>)) = NDIRECT + 1" using st by (simp add: stored_def)
  obtain v where w: "winode (of_nat (Suc 0)) (?d\<lparr>di_size := root_size cs\<rparr>) s = Inr (s\<lparr>img := v\<rparr>)"
    "dinode_at v (Suc 0) = ?d\<lparr>di_size := root_size cs\<rparr>"
    "\<And>j. j < 208 \<Longrightarrow> j \<noteq> Suc 0 \<Longrightarrow> dinode_at v j = dinode_at (img s) j" "\<And>b. \<not> inode_block b \<Longrightarrow> v b = img s b"
    by (rule winode_ok [OF ns i len]) blast
  have "image_ok bm (?fs[0 := (fst (?fs ! 0), cs, root_size cs)]) (s\<lparr>img := v\<rparr>)"
    by (rule set_file [OF im k extends_refl image_clean [OF im k] st ml _ _ w(3,4)])
      (use w(2) in \<open>simp_all add: file_blocks_def\<close>)
  moreover have "(of_nat (length cs) :: u32) div 512 = of_nat (length cs div 512)"
    using ml by (simp add: word_unat_eq_iff unat_div_distrib unsigned_of_nat file_consts take_bit_nat_eq_self)
  then have "((of_nat (length cs) :: u32) div 512 + 1) * 512 = root_size cs"
    by (simp add: root_size_def file_consts)
  then have "fix_root 1 s = Inr (s\<lparr>img := v\<rparr>)"
    using rinode_ok [OF ns, of "Suc 0"] w(1) z by (simp add: fix_root_def run_def Let_def)
  ultimately show ?thesis by simp
qed

lemma balloc_image:
  assumes im: "image_ok bm fs s"
  obtains bm' s' where "mk_balloc (freeblock s) s = Inr s'" "image_ok bm' fs s'" "\<And>b. used_bit bm' b \<longleftrightarrow> b < unat (freeblock s')"
proof -
  let ?bm = "fold mark_bit [0..<unat (freeblock s)] (\<lambda>_. 0)"
  let ?v = "(img s)(58 := ?bm)"
  have used: "used_bit (fold mark_bit xs x) b \<longleftrightarrow> b \<in> set xs \<or> used_bit x b" for xs x b
    by (induction xs arbitrary: x) (auto simp: used_mark)
  have fb: "unat (freeblock s) \<le> 1000" "nsect s = 1000" using im by (simp_all add: image_ok_def)
  have si: "sint (freeblock s) = int (unat (freeblock s))" using fb(1) by (intro sint_unat) simp
  have "mk_balloc (freeblock s) s = Inr (s\<lparr>img := ?v\<rparr>)"
    unfolding mk_balloc_def si nat_int using fb by (simp add: wsect_ok layout file_consts del: of_nat_unat)
  moreover have "image_ok ?bm fs (s\<lparr>img := ?v\<rparr>)"
  proof -
    have d: "dinode_at ?v i = dinode_at (img s) i" if "i < 208" for i
      by (rule dinode_at_cong [OF _ that]) (auto simp: inode_block_def)
    have n: "length fs < 200" using im by (simp add: image_ok_def)
    have "b \<noteq> 58" if "b \<in> owned (img s) (di_addrs (dinode_at (img s) (Suc j)))" "j < length fs" for b j
      using image_file [OF im that(2)] that(1) by (auto simp: mfile_ok_def layout(1) word_le_nat_alt)
    then have cong: "stored ?v (di_addrs (dinode_at ?v (Suc j))) c m = stored (img s) (di_addrs (dinode_at (img s) (Suc j))) c m \<and>
        owned ?v (di_addrs (dinode_at ?v (Suc j))) = owned (img s) (di_addrs (dinode_at (img s) (Suc j)))" if "j < length fs" for j c m
      using stored_cong [of "img s" "di_addrs (dinode_at (img s) (Suc j))" ?v] that n d [of "Suc j"] by simp
    have "mfile_ok ?v (freeblock s) (fs ! j) (dinode_at ?v (Suc j))" if "j < length fs" for j
      using image_file [OF im that] cong [OF that] d [of "Suc j"] that n by (simp add: mfile_ok_def)
    moreover have "(58::u32) < freeblock s" by (rule meta_blocks(1) [OF im]) simp
    ultimately show ?thesis using im cong d by (auto simp: image_ok_def)
  qed
  moreover have "used_bit ?bm b \<longleftrightarrow> b < unat (freeblock (s\<lparr>img := ?v\<rparr>))" for b by (simp add: used) (simp add: used_bit_def)
  ultimately show ?thesis by (rule that)
qed

lemma start_image: "image_ok (\<lambda>_. 0) [] (wsect 1 (put_sb mk_sb) empty_image)"
proof -
  let ?s = "\<lparr>img = (\<lambda>_ _. 0), nsect = 0, freeinode = 1, freeblock = nmeta\<rparr>"
  have e: "fold (\<lambda>i. wsect (of_nat i) (\<lambda>_. 0)) [0..<n] ?s = ?s\<lparr>nsect := n\<rparr>" if "n \<le> 1000" for n
    using that
  proof (induction n)
    case (Suc n)
    then have u: "unat (of_nat n :: u32) = n" by (simp add: unsigned_of_nat take_bit_nat_eq_self)
    then have "sect_at (of_nat n) = of_nat n" using Suc.prems by simp
    then show ?case using Suc u by (simp add: wsect_def fun_upd_idem)
  qed simp
  have e1: "empty_image = ?s\<lparr>nsect := 1000\<rparr>" using e [of 1000] by (simp add: empty_image_def FSSIZE_def)
  have s: "wsect 1 (put_sb mk_sb) empty_image = empty_image\<lparr>img := (\<lambda>_ _. 0)(1 := put_sb mk_sb)\<rparr>"
    unfolding e1 by (subst wsect_ok) simp_all
  have "di_type (dinode_at ((\<lambda>_ _. 0)(1 := put_sb mk_sb)) i) = 0" if "i < 208" for i
  proof -
    have "dinode_at ((\<lambda>_ _. 0)(1 := put_sb mk_sb)) i = dinode_at (\<lambda>_ _. 0) i"
      by (rule dinode_at_cong [OF _ that]) (auto simp: inode_block_def)
    then show ?thesis by (simp add: dinode_at_def get_dinode_def load_le16_def)
  qed
  then show ?thesis unfolding s unfolding e1 by (auto simp: image_ok_def layout(1) word_le_nat_alt)
qed

definition dots :: "u8 list" where
  "dots = make_dirent (lit ''.'') 1 @ make_dirent (lit ''..'') 1"

definition root_bytes :: "mkarg list \<Rightarrow> u8 list" where
  "root_bytes args = dots @ entries 2 args"

definition image_files :: "mkarg list \<Rightarrow> mfile list" where
  "image_files args = (T_DIR, root_bytes args, root_size (root_bytes args)) # map arg_file args"

lemma length_make_dirent [simp]: "length (make_dirent nm n) = 16"
  by (simp add: make_dirent_def DIRSIZ_def)

lemma length_entries [simp]: "length (entries n args) = 16 * length args"
  by (induction args arbitrary: n) simp_all

text \<open>C5. \<^verbatim>\<open>mkfs\<close> on files that can be opened, whose names have no slash and that fit (at most 198 of them, none above
  \<^verbatim>\<open>MAXFILE\<close> blocks, the data and indirect blocks together with the directory's at most 941) succeeds, and its image
  is a well-formed file system: the superblock decodes to the layout; the boot, log and unallocated blocks are zero;
  inode \<open>i + 1\<close> has the type, link count and size of file \<open>i\<close>, and its direct and indirect addresses hold that file's
  bytes; no block belongs to two files, and none to a file and to the metadata; the other inodes are free; the bitmap
  marks exactly the blocks below the first unallocated one. File \<open>0\<close> is the root directory, with the entries of every
  file in order.\<close>

theorem mkfs_builds_image:
  assumes "length args \<le> 198" "list_all arg_ok args" "room (image_files args)"
  shows "\<exists>s bm. mkfs_main args = Inr s \<and> image_ok bm (image_files args) s \<and>
    decode_sb (img s 1) = \<lparr>sb_size = 1000, nblocks = 941, ninodes = 200, nlog = 30, logstart = 2, inodestart = 32, bmapstart = 58\<rparr> \<and>
    (\<forall>b < BSIZE * 8. used_bit bm b \<longleftrightarrow> b < unat (freeblock s))"
proof -
  let ?d1 = "make_dirent (lit ''.'') 1" and ?d2 = "make_dirent (lit ''..'') 1"
  have rm: "room (mfile T_DIR (dots @ entries (length ([] :: mfile list) + 2) args) # [] @ map arg_file args)"
    using assms(3) by (simp add: image_files_def root_bytes_def room_def file_blocks_def numeral_2_eq_2)
  then have "room ([mfile T_DIR (dots @ entries (length ([] :: mfile list) + 2) args)] @ map arg_file args)" by simp
  then have "room [mfile T_DIR (dots @ entries (length ([] :: mfile list) + 2) args)]" by (rule room_append)
  then have r: "room [mfile T_DIR (?d1 @ ?d2)]" "room [mfile T_DIR ?d1]"
    by (rule room_shorter [rotated]; simp add: dots_def)+
  obtain s1 where s1: "mk_ialloc T_DIR (wsect 1 (put_sb mk_sb) empty_image) = Inr (1, s1)" "image_ok (\<lambda>_. 0) [mfile T_DIR []] s1"
    using ialloc_image [OF start_image, of T_DIR] by auto
  obtain s2 where s2: "iappend 1 ?d1 s1 = Inr s2" "image_ok (\<lambda>_. 0) [mfile T_DIR ?d1] s2"
    using iappend_image [OF s1(2), of 0 T_DIR "[]" ?d1] r(2) by auto
  obtain s3 where s3: "iappend 1 ?d2 s2 = Inr s3" "image_ok (\<lambda>_. 0) [mfile T_DIR dots] s3"
    using iappend_image [OF s2(2), of 0 T_DIR ?d1 ?d2] r(1) by (auto simp: dots_def)
  obtain s4 where s4: "add_files 1 args s3 = Inr s4" "image_ok (\<lambda>_. 0) (mfile T_DIR (root_bytes args) # map arg_file args) s4"
    using add_files_image [OF s3(2) _ assms(2) rm] assms(1) by (auto simp: root_bytes_def numeral_2_eq_2)
  obtain s5 where s5: "fix_root 1 s4 = Inr s5" "image_ok (\<lambda>_. 0) (image_files args) s5"
    using fix_root_image [OF s4(2)] by (auto simp: image_files_def)
  obtain bm s6 where s6: "mk_balloc (freeblock s5) s5 = Inr s6" "image_ok bm (image_files args) s6"
    "\<And>b. used_bit bm b \<longleftrightarrow> b < unat (freeblock s6)"
    by (rule balloc_image [OF s5(2)]) blast
  have "img s6 1 = put_sb mk_sb" using s6(2) by (simp add: image_ok_def)
  then have sb: "decode_sb (img s6 1) = mk_sb" by (simp add: decode_put_sb)
  have "mkfs_main args = Inr s6"
    using s1(1) s2(1) s3(1) s4(1) s5(1) s6(1) by (simp add: mkfs_main_def run_def ROOTINO_def)
  then show ?thesis using s6(2,3) sb layout by (intro exI [of _ s6] exI [of _ bm]) simp
qed

theorem mkfs_builds_image_witness:
  "list_all arg_ok [([0x5F, 0x61], Some [[1, 2], [3]]), ([0x62], Some [])] \<and>
   room (image_files [([0x5F, 0x61], Some [[1, 2], [3]]), ([0x62], Some [])]) \<and>
   (\<exists>s bm. mkfs_main [([0x5F, 0x61], Some [[1, 2], [3]]), ([0x62], Some [])] = Inr s \<and>
      image_ok bm (image_files [([0x5F, 0x61], Some [[1, 2], [3]]), ([0x62], Some [])]) s \<and> sb_size (decode_sb (img s 1)) = 1000)"
proof -
  let ?args = "[([0x5F, 0x61], Some [[1, 2], [3]]), ([0x62], Some [])] :: mkarg list"
  have a: "list_all arg_ok ?args" by (simp add: arg_ok_def slash_def)
  have r: "room (image_files ?args)"
    by (simp add: room_def image_files_def root_bytes_def dots_def arg_file_def file_blocks_def fblocks_def nblk_def file_consts)
  have "\<exists>s bm. mkfs_main ?args = Inr s \<and> image_ok bm (image_files ?args) s \<and> sb_size (decode_sb (img s 1)) = 1000"
    using mkfs_builds_image [OF _ a r] by auto
  with a r show ?thesis by blast
qed

end
