(* ===== verification/Printf.thy ===== *)
theory Printf
  imports CString
begin

text \<open>
  Formatted output: \<^verbatim>\<open>printint\<close> and \<^verbatim>\<open>cprintf\<close> of the kernel (\<^verbatim>\<open>console.c\<close>) and \<^verbatim>\<open>printint\<close> and \<^verbatim>\<open>printf\<close> of the
  user library (\<^verbatim>\<open>printf.c\<close>), as the list of bytes they print. The arguments behind the format are words and
  pointers to strings; a format that takes an argument that is not there, or a string where a word was
  passed, has no result.
\<close>

section \<open>Definitions\<close>

text \<open>The digits in the order in which the loop stores them, for a base of at least 2.\<close>

function digits_from :: "nat \<Rightarrow> nat \<Rightarrow> nat list" where
  "digits_from base x = (if base < 2 \<or> x div base = 0 then [x mod base] else x mod base # digits_from base (x div base))"
  by auto
termination
proof (relation "measure snd", goal_cases)
  case (2 base x)
  then have "0 < x" by (cases "x = 0") auto
  with 2 show ?case by simp
qed simp

declare digits_from.simps [simp del]

definition lower_digit :: "nat \<Rightarrow> u8" where
  "lower_digit d = of_nat (if d < 10 then 0x30 + d else 0x61 + (d - 10))"

definition upper_digit :: "nat \<Rightarrow> u8" where
  "upper_digit d = of_nat (if d < 10 then 0x30 + d else 0x41 + (d - 10))"

text \<open>The array \<^verbatim>\<open>buf\<close> of \<^verbatim>\<open>printint\<close> as it has been filled in, and what is printed from its end.\<close>

definition printint_buf :: "(nat \<Rightarrow> u8) \<Rightarrow> u32 \<Rightarrow> nat \<Rightarrow> bool \<Rightarrow> u8 list" where
  "printint_buf dig xx base sign =
     (let neg = (sign \<and> sint xx < 0); x = (if neg then - xx else xx); buf = map dig (digits_from base (unat x))
      in if neg then buf @ [0x2D] else buf)"

definition printint :: "u32 \<Rightarrow> nat \<Rightarrow> bool \<Rightarrow> u8 list" where
  "printint xx base sign = rev (printint_buf lower_digit xx base sign)"

definition user_printint :: "u32 \<Rightarrow> nat \<Rightarrow> bool \<Rightarrow> u8 list" where
  "user_printint xx base sign = rev (printint_buf upper_digit xx base sign)"

datatype carg = Word u32 | Text "u8 list"

definition prefix_out :: "u8 list \<Rightarrow> u8 list option \<Rightarrow> u8 list option" where
  "prefix_out xs r = map_option ((@) xs) r"

definition null_text :: "u8 list" where
  "null_text = map of_char ''(null)''"

fun cprintf :: "u8 list \<Rightarrow> carg list \<Rightarrow> u8 list option" where
  "cprintf [] args = Some []"
| "cprintf (c # fmt) args =
     (if c \<noteq> 0x25 then prefix_out [c] (cprintf fmt args)
      else case fmt of
        [] \<Rightarrow> Some []
      | c # fmt \<Rightarrow>
          if c = of_char CHR ''d'' then
            (case args of Word w # args \<Rightarrow> prefix_out (printint w 10 True) (cprintf fmt args) | _ \<Rightarrow> None)
          else if c = of_char CHR ''x'' \<or> c = of_char CHR ''p'' then
            (case args of Word w # args \<Rightarrow> prefix_out (printint w 16 False) (cprintf fmt args) | _ \<Rightarrow> None)
          else if c = of_char CHR ''s'' then
            (case args of
               Text xs # args \<Rightarrow> prefix_out xs (cprintf fmt args)
             | Word w # args \<Rightarrow> if w = 0 then prefix_out null_text (cprintf fmt args) else None
             | [] \<Rightarrow> None)
          else if c = 0x25 then prefix_out [0x25] (cprintf fmt args)
          else prefix_out [0x25, c] (cprintf fmt args))"

text \<open>\<^verbatim>\<open>printf\<close>; \<open>st\<close> is whether the previous character was a \<^verbatim>\<open>%\<close> (\<^verbatim>\<open>state\<close>).\<close>

fun printf_from :: "bool \<Rightarrow> u8 list \<Rightarrow> carg list \<Rightarrow> u8 list option" where
  "printf_from st [] args = Some []"
| "printf_from st (c # fmt) args =
     (if \<not> st then if c = 0x25 then printf_from True fmt args else prefix_out [c] (printf_from False fmt args)
      else if c = of_char CHR ''d'' then
        (case args of Word w # args \<Rightarrow> prefix_out (user_printint w 10 True) (printf_from False fmt args) | _ \<Rightarrow> None)
      else if c = of_char CHR ''x'' \<or> c = of_char CHR ''p'' then
        (case args of Word w # args \<Rightarrow> prefix_out (user_printint w 16 False) (printf_from False fmt args) | _ \<Rightarrow> None)
      else if c = of_char CHR ''s'' then
        (case args of
           Text xs # args \<Rightarrow> prefix_out xs (printf_from False fmt args)
         | Word w # args \<Rightarrow> if w = 0 then prefix_out null_text (printf_from False fmt args) else None
         | [] \<Rightarrow> None)
      else if c = of_char CHR ''c'' then
        (case args of Word w # args \<Rightarrow> prefix_out [ucast w] (printf_from False fmt args) | _ \<Rightarrow> None)
      else if c = 0x25 then prefix_out [0x25] (printf_from False fmt args)
      else prefix_out [0x25, c] (printf_from False fmt args))"

definition printf :: "u8 list \<Rightarrow> carg list \<Rightarrow> u8 list option" where
  "printf fmt args = printf_from False fmt args"

section \<open>What is printed\<close>

lemma digits_from_value: "2 \<le> b \<Longrightarrow> foldr (\<lambda>d v. d + b * v) (digits_from b x) 0 = x"
proof (induction b x rule: digits_from.induct)
  case (1 b x)
  show ?case
  proof (cases "x div b = 0")
    case True
    then show ?thesis using 1(2) by (simp add: digits_from.simps [of b x] div_eq_0_iff)
  next
    case False
    then show ?thesis using 1 by (simp add: digits_from.simps [of b x])
  qed
qed

lemma digits_from_less: "2 \<le> b \<Longrightarrow> d \<in> set (digits_from b x) \<Longrightarrow> d < b"
proof (induction b x rule: digits_from.induct)
  case (1 b x)
  then show ?case by (cases "x div b = 0") (auto simp: digits_from.simps [of b x])
qed

lemma digits_from_length: "2 \<le> b \<Longrightarrow> x < b ^ Suc k \<Longrightarrow> length (digits_from b x) \<le> Suc k"
proof (induction k arbitrary: x)
  case 0
  then have "x div b = 0" by (simp add: div_eq_0_iff)
  then show ?case by (simp add: digits_from.simps [of b x])
next
  case (Suc k)
  have "x div b < b ^ Suc k" using Suc.prems by (simp add: less_mult_imp_div_less mult.commute)
  then have "length (digits_from b (x div b)) \<le> Suc k" using Suc.IH Suc.prems(1) by simp
  then show ?case by (simp add: digits_from.simps [of b x])
qed

text \<open>C36. \<^verbatim>\<open>printint\<close> never writes beyond its buffer of 16 bytes, in the kernel and in the user library, for the
  bases they use.\<close>

theorem printint_fits:
  assumes "base = 10 \<or> base = 16"
  shows "length (printint xx base sign) \<le> 16 \<and> length (user_printint xx base sign) \<le> 16"
proof -
  have "unat x < base ^ Suc 9" for x :: u32
    using unsigned_less [of x, where ?'a = nat] assms by auto
  then have "length (digits_from base (unat x)) \<le> Suc 9" for x :: u32
    using digits_from_length [of base "unat x" 9] assms by auto
  then have l: "length (digits_from base (unat x)) \<le> 15" for x :: u32
    by (rule order_trans) simp
  have "length (printint_buf dig xx base sign) \<le> 16" for dig
    using l [of xx] l [of "- xx"] by (simp add: printint_buf_def Let_def)
  then show ?thesis by (simp add: printint_def user_printint_def)
qed

theorem printint_fits_witness:
  "length (printint 0xFFFFFFFF 10 True) \<le> 16 \<and> length (user_printint 0xFFFFFFFF 10 True) \<le> 16"
  by (rule printint_fits) simp

lemma atoi_from_digits:
  assumes "\<forall>c \<in> set xs. is_digit c"
  shows "i \<le> length xs \<Longrightarrow> atoi_from (cstr_of xs) i n = Some (fold (\<lambda>c n. n * 10 + ucast c - 48) (drop i xs) n)"
proof (induction "length xs - i" arbitrary: i n)
  case 0
  then show ?case by (simp add: atoi_from.simps [of _ i] cstr_of_def is_digit_def)
next
  case (Suc k)
  then have i: "i < length xs" by simp
  then have "drop i xs = xs ! i # drop (Suc i) xs" by (simp add: Cons_nth_drop_Suc)
  then show ?case using Suc.hyps(1) [of "Suc i"] Suc.hyps(2) i assms by (simp add: atoi_from.simps [of _ i] cstr_of_def)
qed

lemma upper_digit_decimal:
  assumes "d < 10"
  shows "is_digit (upper_digit d)" "n * 10 + ucast (upper_digit d) - 48 = n * 10 + (of_nat d :: u32)"
proof -
  have "d \<in> {0, 1, 2, 3, 4, 5, 6, 7, 8, 9}" using assms by auto
  then show "is_digit (upper_digit d)" "n * 10 + ucast (upper_digit d) - 48 = n * 10 + (of_nat d :: u32)"
    by (auto simp: upper_digit_def is_digit_def)
qed


end
