(* ===== verification/Ring.thy ===== *)
theory Ring
  imports CString
begin

text \<open>
  Rings with 32-bit counters that are allowed to wrap around, as pipes and the console input use them. The
  locale \<open>ring_buffer\<close> is the interface of such a ring, with the list of elements it holds as its
  abstraction; the lemmas on \<open>ring_content\<close> discharge its laws for an array whose size is a power of two.
\<close>

section \<open>Rings\<close>

locale ring_buffer =
  fixes put :: "'a \<Rightarrow> 's \<Rightarrow> 's" and get :: "'s \<Rightarrow> 'a \<times> 's"
    and isfull :: "'s \<Rightarrow> bool" and isempty :: "'s \<Rightarrow> bool"
    and content :: "'s \<Rightarrow> 'a list" and inv :: "'s \<Rightarrow> bool" and cap :: nat
  assumes full_iff: "inv s \<Longrightarrow> isfull s \<longleftrightarrow> length (content s) = cap"
    and empty_iff: "inv s \<Longrightarrow> isempty s \<longleftrightarrow> content s = []"
    and cap_bound: "inv s \<Longrightarrow> length (content s) \<le> cap"
    and inv_put: "inv s \<Longrightarrow> \<not> isfull s \<Longrightarrow> inv (put x s)"
    and content_put: "inv s \<Longrightarrow> \<not> isfull s \<Longrightarrow> content (put x s) = content s @ [x]"
    and inv_get: "inv s \<Longrightarrow> \<not> isempty s \<Longrightarrow> inv (snd (get s))"
    and content_get: "inv s \<Longrightarrow> \<not> isempty s \<Longrightarrow> content s = fst (get s) # content (snd (get s))"

text \<open>Putting while there is room, and taking while there is something.\<close>

primrec put_list :: "('a \<Rightarrow> 's \<Rightarrow> 's) \<Rightarrow> ('s \<Rightarrow> bool) \<Rightarrow> 'a list \<Rightarrow> 's \<Rightarrow> 'a list \<times> 's" where
  "put_list put isfull [] s = ([], s)"
| "put_list put isfull (x # xs) s = (if isfull s then (x # xs, s) else put_list put isfull xs (put x s))"

primrec get_list :: "('s \<Rightarrow> 'a \<times> 's) \<Rightarrow> ('s \<Rightarrow> bool) \<Rightarrow> nat \<Rightarrow> 's \<Rightarrow> 'a list \<times> 's" where
  "get_list get isempty 0 s = ([], s)"
| "get_list get isempty (Suc n) s =
     (if isempty s then ([], s)
      else let (x, s) = get s; (xs, s) = get_list get isempty n s in (x # xs, s))"

context ring_buffer
begin

lemma put_list_spec:
  assumes "inv s"
  shows "inv (snd (put_list put isfull xs s)) \<and>
    content (snd (put_list put isfull xs s)) = content s @ take (cap - length (content s)) xs \<and>
    fst (put_list put isfull xs s) = drop (cap - length (content s)) xs"
  using assms
proof (induction xs arbitrary: s)
  case (Cons x xs)
  show ?case
  proof (cases "isfull s")
    case True
    with Cons.prems show ?thesis by (simp add: full_iff)
  next
    case False
    then have "length (content s) \<noteq> cap" "length (content s) \<le> cap"
      using Cons.prems by (simp_all add: full_iff cap_bound)
    then have "cap - length (content s) = Suc (cap - Suc (length (content s)))" by simp
    with False Cons show ?thesis by (simp add: inv_put content_put)
  qed
qed simp

lemma get_list_spec:
  assumes "inv s"
  shows "inv (snd (get_list get isempty n s)) \<and> content (snd (get_list get isempty n s)) = drop n (content s) \<and>
    fst (get_list get isempty n s) = take n (content s)"
  using assms
proof (induction n arbitrary: s)
  case (Suc n)
  show ?case
  proof (cases "isempty s")
    case True
    with Suc.prems show ?thesis by (simp add: empty_iff)
  next
    case False
    obtain x t where g: "get s = (x, t)" by fastforce
    have "inv t" "content s = x # content t"
      using inv_get [OF Suc.prems False] content_get [OF Suc.prems False] g by simp_all
    with Suc.IH [of t] False g show ?thesis by (simp add: split_beta)
  qed
qed simp

end

section \<open>Arrays indexed by counters\<close>

definition ring_content :: "nat \<Rightarrow> 'a list \<Rightarrow> u32 \<Rightarrow> u32 \<Rightarrow> 'a list" where
  "ring_content n xs r w = map (\<lambda>k. xs ! ((unat r + k) mod n)) [0..<unat (w - r)]"

lemma ring_content_length [simp]: "length (ring_content n xs r w) = unat (w - r)"
  by (simp add: ring_content_def)

lemma ring_content_Nil [simp]: "ring_content n xs r w = [] \<longleftrightarrow> w = r"
proof -
  have "w = r \<longleftrightarrow> unat (w - r) = 0" by (simp add: unat_eq_0)
  then show ?thesis by (metis length_0_conv ring_content_length)
qed

lemma ring_put_count:
  fixes r w :: u32
  assumes "unat (w - r) < 2 ^ m" "m < 32"
  shows "unat (w + 1 - r) = Suc (unat (w - r))"
proof -
  have "(2 :: nat) ^ m \<le> 2 ^ 31" using assms(2) by (intro power_increasing) auto
  then show ?thesis unfolding word_diff_Suc_left using assms(1) by (intro unat_add_1_small [where n = "2 ^ m"]) simp_all
qed

lemma ring_content_put:
  assumes "length xs = 2 ^ m" "unat (w - r) < 2 ^ m" "m < 32"
  shows "ring_content (2 ^ m) (xs[unat w mod 2 ^ m := c]) r (w + 1) = ring_content (2 ^ m) xs r w @ [c]"
proof -
  let ?n = "unat (w - r)"
  have ne: "(unat r + ?n) mod 2 ^ m \<noteq> (unat r + k) mod 2 ^ m" if "k < ?n" for k
  proof
    assume "(unat r + ?n) mod 2 ^ m = (unat r + k) mod 2 ^ m"
    then have "2 ^ m dvd ?n - k" using that mod_eq_dvd_iff_nat [of "unat r + k" "unat r + ?n" "2 ^ m"] by simp
    with that assms(2) show False by (auto dest: dvd_imp_le)
  qed
  have w: "unat w mod 2 ^ m = (unat r + ?n) mod 2 ^ m"
  proof -
    have "unat (r + (w - r)) mod 2 ^ m = (unat r + unat (w - r)) mod 2 ^ m" by (rule unat_mod_pow2_add) (use assms(3) in simp)
    then show ?thesis by simp
  qed
  have "map (\<lambda>k. xs[(unat r + ?n) mod 2 ^ m := c] ! ((unat r + k) mod 2 ^ m)) [0..<?n] =
    map (\<lambda>k. xs ! ((unat r + k) mod 2 ^ m)) [0..<?n]"
    using ne by (intro map_cong refl nth_list_update_neq) simp
  then show ?thesis
    unfolding ring_content_def w ring_put_count [OF assms(2,3)] using assms(1) by simp
qed

lemma ring_get_count:
  fixes r w :: u32
  assumes "w \<noteq> r"
  shows "unat (w - r) = Suc (unat (w - (r + 1)))"
proof -
  have ne: "w - r \<noteq> 0" using assms by simp
  show ?thesis unfolding word_diff_Suc_right unat_sub_1 [OF ne] using ne by (simp add: unat_gt_0)
qed

lemma ring_content_get:
  assumes "w \<noteq> r" "m < 32"
  shows "ring_content (2 ^ m) xs r w = xs ! (unat r mod 2 ^ m) # ring_content (2 ^ m) xs (r + 1) w"
proof -
  have i: "(unat (r + 1) + k) mod 2 ^ m = (unat r + Suc k) mod 2 ^ m" for k
  proof -
    have "unat (r + 1) mod 2 ^ m = (unat r + unat (1 :: u32)) mod 2 ^ m" by (rule unat_mod_pow2_add) (use assms(2) in simp)
    then have "unat (r + 1) mod 2 ^ m = Suc (unat r) mod 2 ^ m" by simp
    then show ?thesis by (metis add_Suc_right add_Suc mod_add_left_eq)
  qed
  show ?thesis
    unfolding ring_content_def ring_get_count [OF assms(1)] upt_conv_Cons [OF zero_less_Suc] map_Suc_upt [symmetric]
    by (simp add: i)
qed

lemma ring_content_update_other:
  assumes "unat (w - r) \<le> unat (e - r)" "unat (e - r) < 2 ^ m" "m < 32"
  shows "ring_content (2 ^ m) (xs[unat e mod 2 ^ m := c]) r w = ring_content (2 ^ m) xs r w"
proof -
  have e: "unat e mod 2 ^ m = (unat r + unat (e - r)) mod 2 ^ m"
  proof -
    have "unat (r + (e - r)) mod 2 ^ m = (unat r + unat (e - r)) mod 2 ^ m" by (rule unat_mod_pow2_add) (use assms(3) in simp)
    then show ?thesis by simp
  qed
  have "(unat r + unat (e - r)) mod 2 ^ m \<noteq> (unat r + k) mod 2 ^ m" if "k < unat (w - r)" for k
  proof
    assume "(unat r + unat (e - r)) mod 2 ^ m = (unat r + k) mod 2 ^ m"
    then have "2 ^ m dvd unat (e - r) - k"
      using that assms(1) mod_eq_dvd_iff_nat [of "unat r + k" "unat r + unat (e - r)" "2 ^ m"] by simp
    with that assms show False by (auto dest: dvd_imp_le)
  qed
  then show ?thesis unfolding ring_content_def e by (intro map_cong refl nth_list_update_neq) simp
qed

lemma ring_diff_split:
  fixes r w e :: u32
  assumes "unat (w - r) \<le> unat (e - r)"
  shows "unat (e - r) = unat (w - r) + unat (e - w)"
proof -
  have "e - w = (e - r) - (w - r)" by simp
  then have "unat (e - w) = unat (e - r) - unat (w - r)" using assms by (metis unat_sub word_le_nat_alt)
  then show ?thesis using assms by simp
qed

lemma ring_content_split:
  assumes "unat (w - r) \<le> unat (e - r)" "m < 32"
  shows "ring_content (2 ^ m) xs r e = ring_content (2 ^ m) xs r w @ ring_content (2 ^ m) xs w e"
proof -
  have w: "unat w mod 2 ^ m = (unat r + unat (w - r)) mod 2 ^ m"
  proof -
    have "unat (r + (w - r)) mod 2 ^ m = (unat r + unat (w - r)) mod 2 ^ m" by (rule unat_mod_pow2_add) (use assms(2) in simp)
    then show ?thesis by simp
  qed
  have i: "(unat w + k) mod 2 ^ m = (unat r + (unat (w - r) + k)) mod 2 ^ m" for k
    using w by (metis add.assoc mod_add_left_eq)
  show ?thesis
    unfolding ring_content_def ring_diff_split [OF assms(1)] upt_add_eq_append [OF le0] map_append
    using i by (simp add: map_add_upt [symmetric] comp_def ac_simps del: map_add_upt)
qed

lemma ring_content_butlast:
  assumes "e \<noteq> w" "m < 32"
  shows "ring_content n xs w (e - 1) = butlast (ring_content n xs w e)"
    "last (ring_content (2 ^ m) xs w e) = xs ! (unat (e - 1) mod 2 ^ m)"
proof -
  have ne: "e - w \<noteq> 0" using assms by simp
  have d: "unat (e - w) = Suc (unat (e - 1 - w))"
  proof -
    have "e - 1 - w = e - w - 1" by (simp add: algebra_simps)
    then have "unat (e - 1 - w) = unat (e - w) - 1" using unat_sub_1 [OF ne] by (simp only:)
    then show ?thesis using ne by (simp add: unat_gt_0)
  qed
  then show "ring_content n xs w (e - 1) = butlast (ring_content n xs w e)" by (simp add: ring_content_def)
  have "unat (w + (e - 1 - w)) mod 2 ^ m = (unat w + unat (e - 1 - w)) mod 2 ^ m" by (rule unat_mod_pow2_add) (use assms(2) in simp)
  then have "unat (e - 1) mod 2 ^ m = (unat w + unat (e - 1 - w)) mod 2 ^ m" by simp
  then show "last (ring_content (2 ^ m) xs w e) = xs ! (unat (e - 1) mod 2 ^ m)" by (simp add: ring_content_def d)
qed

end
