(* ===== verification/Pipe.thy ===== *)
theory Pipe
  imports Ring
begin

text \<open>
  Pipes (\<^verbatim>\<open>pipe.c\<close>): a ring of 512 bytes with two 32-bit counters, an instance of \<open>ring_buffer\<close>. The read and write loops are functions that run until
  they return or go to sleep, and a relation interleaves the calls of any number of readers
  and writers.
\<close>

section \<open>The pipe\<close>

definition PIPESIZE :: u32 where "PIPESIZE = 512"

record pipe =
  pdata :: "u8 list"
  nread :: u32
  nwrite :: u32
  readopen :: bool
  writeopen :: bool

definition pipe_full :: "pipe \<Rightarrow> bool" where
  "pipe_full p \<longleftrightarrow> nwrite p = nread p + PIPESIZE"

definition pipe_empty :: "pipe \<Rightarrow> bool" where
  "pipe_empty p \<longleftrightarrow> nread p = nwrite p"

text \<open>\<^verbatim>\<open>p->data[p->nwrite++ % PIPESIZE] = c\<close> and \<^verbatim>\<open>p->data[p->nread++ % PIPESIZE]\<close>.\<close>

definition pipe_put :: "u8 \<Rightarrow> pipe \<Rightarrow> pipe" where
  "pipe_put c p = p\<lparr>pdata := (pdata p)[unat (nwrite p mod PIPESIZE) := c], nwrite := nwrite p + 1\<rparr>"

definition pipe_get :: "pipe \<Rightarrow> u8 \<times> pipe" where
  "pipe_get p = (pdata p ! unat (nread p mod PIPESIZE), p\<lparr>nread := nread p + 1\<rparr>)"

definition pipe_content :: "pipe \<Rightarrow> u8 list" where
  "pipe_content p = ring_content 512 (pdata p) (nread p) (nwrite p)"

definition pipe_ok :: "pipe \<Rightarrow> bool" where
  "pipe_ok p \<longleftrightarrow> length (pdata p) = 512 \<and> unat (nwrite p - nread p) \<le> 512"

lemma unat_mod_PIPESIZE: "unat (x mod PIPESIZE) = unat x mod 512"
  by (simp add: PIPESIZE_def unat_mod)

lemma pipe_full_iff: "pipe_full p \<longleftrightarrow> unat (nwrite p - nread p) = 512"
proof -
  have "nwrite p = nread p + PIPESIZE \<longleftrightarrow> nwrite p - nread p = 512"
    by (auto simp: PIPESIZE_def algebra_simps)
  also have "\<dots> \<longleftrightarrow> unat (nwrite p - nread p) = unat (512 :: u32)" by (metis word_unat_eq_iff)
  finally show ?thesis by (simp add: pipe_full_def)
qed

interpretation pq: ring_buffer pipe_put pipe_get pipe_full pipe_empty pipe_content pipe_ok 512
proof (unfold_locales, goal_cases)
  case (4 p c)
  then have "unat (nwrite p - nread p) < 2 ^ 9" by (simp add: pipe_full_iff pipe_ok_def)
  with 4 show ?case using ring_put_count [of "nwrite p" "nread p" 9] by (simp add: pipe_ok_def pipe_put_def)
next
  case (5 p c)
  then show ?case using ring_content_put [of "pdata p" 9 "nwrite p" "nread p" c]
    by (simp add: pipe_full_iff pipe_ok_def pipe_content_def pipe_put_def unat_mod_PIPESIZE)
next
  case (6 p)
  then show ?case using ring_get_count [of "nwrite p" "nread p"] by (auto simp: pipe_get_def pipe_ok_def pipe_empty_def)
next
  case (7 p)
  then show ?case using ring_content_get [of "nwrite p" "nread p" 9 "pdata p"]
    by (auto simp: pipe_content_def pipe_get_def pipe_empty_def unat_mod_PIPESIZE)
qed (auto simp: pipe_full_iff pipe_content_def pipe_ok_def pipe_empty_def ring_content_Nil)

section \<open>Reading and writing\<close>

text \<open>
  The loop of \<^verbatim>\<open>pipewrite\<close> over the bytes still to be written: all written, or an error return when the
  pipe is full and has no reader left or the process is killed, or asleep with the bytes left.
\<close>

datatype pipe_result = Done | Fail | Wait "u8 list"

definition pipewrite_loop :: "bool \<Rightarrow> u8 list \<Rightarrow> pipe \<Rightarrow> pipe_result \<times> pipe" where
  "pipewrite_loop kil xs p =
     (let (rest, p) = put_list pipe_put pipe_full xs p
      in if rest = [] then (Done, p)
         else if \<not> readopen p \<or> kil then (Fail, p)
         else (Wait rest, p))"

text \<open>\<^verbatim>\<open>piperead\<close> of at most \<open>n\<close> bytes: \<open>None\<close> where it sleeps, and its result and the bytes otherwise.\<close>

definition piperead_loop :: "bool \<Rightarrow> nat \<Rightarrow> pipe \<Rightarrow> (int \<times> u8 list \<times> pipe) option" where
  "piperead_loop kil n p =
     (if pipe_empty p \<and> writeopen p then if kil then Some (-1, [], p) else None
      else let (xs, p) = get_list pipe_get pipe_empty n p in Some (int (length xs), xs, p))"

definition pipe_init :: "pipe \<Rightarrow> pipe" where
  "pipe_init p = p\<lparr>readopen := True, writeopen := True, nwrite := 0, nread := 0\<rparr>"

text \<open>\<^verbatim>\<open>pipeclose\<close> on the pipe itself: whether its page is then freed.\<close>

definition pipeclose_end :: "bool \<Rightarrow> pipe \<Rightarrow> bool \<times> pipe" where
  "pipeclose_end writable p =
     (let p = (if writable then p\<lparr>writeopen := False\<rparr> else p\<lparr>readopen := False\<rparr>)
      in (\<not> readopen p \<and> \<not> writeopen p, p))"

lemma pipewrite_loop_content:
  assumes "pipe_ok p" "pipewrite_loop kil xs p = (r, p')"
  shows "pipe_ok p' \<and> (\<exists>k \<le> length xs. pipe_content p' = pipe_content p @ take k xs \<and>
    (case r of Done \<Rightarrow> k = length xs | Fail \<Rightarrow> length (pipe_content p') = 512 | Wait ys \<Rightarrow> ys = drop k xs \<and> ys \<noteq> [] \<and>
       length (pipe_content p') = 512))"
proof -
  define k where "k = min (length xs) (512 - length (pipe_content p))"
  obtain rest q where q: "put_list pipe_put pipe_full xs p = (rest, q)" by fastforce
  note spec = pq.put_list_spec [OF assms(1), of xs, unfolded q fst_conv snd_conv]
  have le: "length (pipe_content p) \<le> 512" by (rule pq.cap_bound [OF assms(1)])
  have tk: "take (512 - length (pipe_content p)) xs = take k xs" "drop (512 - length (pipe_content p)) xs = drop k xs"
    by (auto simp: k_def min_def)
  have k: "k \<le> length xs" "pipe_ok q" "pipe_content q = pipe_content p @ take k xs" "rest = drop k xs"
    using spec tk by (simp_all add: k_def)
  have len: "length (pipe_content q) = 512" if "rest \<noteq> []"
    using that le k by (simp add: k_def min_def split: if_splits)
  have r: "p' = q" "r = (if rest = [] then Done else if \<not> readopen q \<or> kil then Fail else Wait rest)"
    using assms(2) by (simp_all add: pipewrite_loop_def q split: if_splits)
  show ?thesis
  proof (cases "rest = []")
    case True
    then have "k = length xs" using k(1,4) by simp
    with True r k(2,3) show ?thesis by simp
  next
    case False
    show ?thesis unfolding r(1) using k(1-3) len [OF False] False
      by (intro conjI exI [of _ k]) (simp_all add: r(2) k(4) [symmetric])
  qed
qed

lemma piperead_loop_content:
  assumes "pipe_ok p" "piperead_loop kil n p = Some (r, xs, p')"
  shows "pipe_ok p' \<and> pipe_content p = xs @ pipe_content p' \<and> (r = int (length xs) \<or> r = -1 \<and> xs = [])"
proof (cases "pipe_empty p \<and> writeopen p")
  case True
  then show ?thesis using assms by (auto simp: piperead_loop_def split: if_splits)
next
  case False
  obtain ys q where g: "get_list pipe_get pipe_empty n p = (ys, q)" by fastforce
  have "pipe_ok q" "pipe_content q = drop n (pipe_content p)" "ys = take n (pipe_content p)"
    using pq.get_list_spec [OF assms(1), of n] by (simp_all add: g)
  moreover have "r = int (length ys)" "xs = ys" "p' = q"
    using False assms(2) by (auto simp: piperead_loop_def g split: if_splits)
  ultimately show ?thesis by (simp del: length_take)
qed

section \<open>Interleaving readers and writers\<close>

text \<open>
  A history of a pipe: the bytes put in and taken out so far. Each step is the part of a
  \<^verbatim>\<open>pipewrite\<close> or \<^verbatim>\<open>piperead\<close> call that runs under the pipe's lock, up to its return or its sleep, or
  the closing of an end; the calls belong to any processes.
\<close>

record pipe_hist =
  pipe_of :: pipe
  bytes_in :: "u8 list"
  bytes_out :: "u8 list"

inductive pipe_step :: "pipe_hist \<Rightarrow> pipe_hist \<Rightarrow> bool" where
  Write: "pipewrite_loop kil xs (pipe_of h) = (r, p) \<Longrightarrow>
    written = (case r of Done \<Rightarrow> xs | Wait ys \<Rightarrow> take (length xs - length ys) xs | Fail \<Rightarrow> take (512 - length (pipe_content (pipe_of h))) xs) \<Longrightarrow>
    pipe_step h \<lparr>pipe_of = p, bytes_in = bytes_in h @ written, bytes_out = bytes_out h\<rparr>"
| Read: "piperead_loop kil n (pipe_of h) = Some (r, xs, p) \<Longrightarrow>
    pipe_step h \<lparr>pipe_of = p, bytes_in = bytes_in h, bytes_out = bytes_out h @ xs\<rparr>"
| Close: "pipeclose_end w (pipe_of h) = (b, p) \<Longrightarrow>
    pipe_step h \<lparr>pipe_of = p, bytes_in = bytes_in h, bytes_out = bytes_out h\<rparr>"

definition hist_ok :: "pipe_hist \<Rightarrow> bool" where
  "hist_ok h \<longleftrightarrow> pipe_ok (pipe_of h) \<and> bytes_in h = bytes_out h @ pipe_content (pipe_of h)"

lemma pipe_step_hist_ok: "pipe_step h h' \<Longrightarrow> hist_ok h \<Longrightarrow> hist_ok h'"
proof (induction rule: pipe_step.induct)
  case (Write kil xs h r p written)
  have ok: "pipe_ok (pipe_of h)" using Write.prems by (simp add: hist_ok_def)
  obtain k where k: "pipe_ok p" "k \<le> length xs" "pipe_content p = pipe_content (pipe_of h) @ take k xs"
    "case r of Done \<Rightarrow> k = length xs | Fail \<Rightarrow> length (pipe_content p) = 512
      | Wait ys \<Rightarrow> ys = drop k xs \<and> ys \<noteq> [] \<and> length (pipe_content p) = 512"
    using pipewrite_loop_content [OF ok Write.hyps(1)] by blast
  have "written = take k xs"
  proof (cases r)
    case Fail
    then have "512 - length (pipe_content (pipe_of h)) = k" using k by simp
    then show ?thesis using Fail Write.hyps(2) by simp
  qed (use k Write.hyps(2) in auto)
  with k Write.prems show ?case by (simp add: hist_ok_def)
next
  case (Read kil n h r xs p)
  then show ?case using piperead_loop_content [of "pipe_of h"] by (auto simp: hist_ok_def)
next
  case (Close w h b p)
  then show ?case
    by (auto simp: hist_ok_def pipeclose_end_def pipe_ok_def pipe_content_def Let_def split: if_splits)
qed

text \<open>C9. A pipe is a first-in first-out channel: however the calls of its readers and writers
  interleave, and however often its 32-bit counters wrap around, the bytes read so far followed by the
  bytes in the ring are exactly the bytes written so far, and never more than 512 bytes wait.\<close>

theorem pipe_fifo:
  assumes "pipe_step\<^sup>*\<^sup>* h0 h" "pipe_ok (pipe_of h0)" "pipe_content (pipe_of h0) = []" "bytes_in h0 = []" "bytes_out h0 = []"
  shows "bytes_in h = bytes_out h @ pipe_content (pipe_of h) \<and> length (pipe_content (pipe_of h)) \<le> 512"
proof -
  have "hist_ok h"
    using assms(1)
  proof (induction rule: rtranclp_induct)
    case base
    then show ?case using assms(2-5) by (simp add: hist_ok_def)
  next
    case (step y z)
    then show ?case using pipe_step_hist_ok by blast
  qed
  then show ?thesis using pq.cap_bound by (simp add: hist_ok_def)
qed

text \<open>A pipe whose counters are about to wrap around.\<close>

definition pipe1 :: pipe where
  "pipe1 = \<lparr>pdata = replicate 512 0, nread = 0xFFFFFFFF, nwrite = 0xFFFFFFFF, readopen = True, writeopen = True\<rparr>"

definition hist1 :: pipe_hist where
  "hist1 = \<lparr>pipe_of = pipe1, bytes_in = [], bytes_out = []\<rparr>"

definition hist2 :: pipe_hist where
  "hist2 = \<lparr>pipe_of = snd (pipewrite_loop False [7, 8] pipe1), bytes_in = [7, 8], bytes_out = []\<rparr>"

lemma pipe1_ok: "pipe_ok pipe1" "pipe_content pipe1 = []"
  by (simp_all add: pipe_ok_def pipe_content_def ring_content_def pipe1_def)

lemma hist2_step: "pipe_step hist1 hist2"
proof -
  have "fst (pipewrite_loop False [7, 8] pipe1) = Done"
    by (simp add: pipewrite_loop_def pipe_full_def pipe1_def pipe_put_def PIPESIZE_def)
  then have "pipewrite_loop False [7, 8] (pipe_of hist1) = (Done, snd (pipewrite_loop False [7, 8] pipe1))"
    by (simp add: hist1_def prod_eq_iff)
  from pipe_step.Write [OF this refl] show ?thesis by (simp add: hist2_def hist1_def)
qed

theorem pipe_fifo_witness:
  "bytes_in hist2 = bytes_out hist2 @ pipe_content (pipe_of hist2) \<and> length (pipe_content (pipe_of hist2)) \<le> 512"
  by (rule pipe_fifo [OF r_into_rtranclp [of pipe_step, OF hist2_step]]) (simp_all add: hist1_def pipe1_ok)

end
