(* ===== verification/File.thy ===== *)
theory File
  imports Fs Pipe
begin

text \<open>
  Open files (\<^verbatim>\<open>file.c\<close>) and pipes as files (\<^verbatim>\<open>pipe.c\<close>). A file pointer is an index into \<open>ftable\<close>. A pipe
  lives in a page from \<^verbatim>\<open>kalloc\<close>; \<open>pipes\<close> gives the structure at a page's address. An operation that goes
  to sleep on a pipe returns what is left to do: the bytes still to be written, or \<open>None\<close> for a read that
  has to start again.
\<close>

section \<open>State\<close>

definition NFILE :: nat where "NFILE = 100"

datatype ftype = FD_NONE | FD_PIPE | FD_INODE

record kfile =
  ftype :: ftype
  fref :: int
  readable :: bool
  writable :: bool
  fpipe :: u32
  fip :: nat
  foff :: u32

record fkern = ikern +
  ftable :: "kfile list"
  pipes :: "u32 \<Rightarrow> pipe"

datatype written = Wrote int | Blocked "u8 list"

definition upd_file :: "nat \<Rightarrow> (kfile \<Rightarrow> kfile) \<Rightarrow> 'z fkern_scheme \<Rightarrow> 'z fkern_scheme" where
  "upd_file i f s = s\<lparr>ftable := (ftable s)[i := f (ftable s ! i)]\<rparr>"

section \<open>Pipes\<close>

abbreviation ChNread :: "u32 \<Rightarrow> chan" where "ChNread p \<equiv> ChPipeRead (unat p)"
abbreviation ChNwrite :: "u32 \<Rightarrow> chan" where "ChNwrite p \<equiv> ChPipeWrite (unat p)"

definition pipeclose :: "u32 \<Rightarrow> u32 \<Rightarrow> bool \<Rightarrow> 'z fkern_scheme \<Rightarrow> 'z fkern_scheme outcome" where
  "pipeclose kend p wr s =
     (let (dead, q) = pipeclose_end wr (pipes s p);
          s = wakeup (if wr then ChNread p else ChNwrite p) (s\<lparr>pipes := (pipes s)(p := q)\<rparr>)
      in if dead then kfree kend p s else Inr s)"

definition pipewrite :: "u32 \<Rightarrow> u8 list \<Rightarrow> 'z fkern_scheme \<Rightarrow> (written \<times> 'z fkern_scheme) outcome" where
  "pipewrite p xs s = with_proc s (\<lambda>me.
     let (r, q) = pipewrite_loop (killed (ptable s ! me)) xs (pipes s p); s = s\<lparr>pipes := (pipes s)(p := q)\<rparr>
     in case r of
          Done \<Rightarrow> Inr (Wrote (int (length xs)), wakeup (ChNread p) s)
        | Fail \<Rightarrow> Inr (Wrote (-1), s)
        | Wait rest \<Rightarrow> run (sleep (ChNwrite p) True (wakeup (ChNread p) s)) (\<lambda>s. Inr (Blocked rest, s)))"

definition piperead :: "u32 \<Rightarrow> int \<Rightarrow> 'z fkern_scheme \<Rightarrow> ((int \<times> u8 list) option \<times> 'z fkern_scheme) outcome" where
  "piperead p n s = with_proc s (\<lambda>me.
     case piperead_loop (killed (ptable s ! me)) (nat n) (pipes s p) of
       None \<Rightarrow> run (sleep (ChNread p) True s) (\<lambda>s. Inr (None, s))
     | Some (r, xs, q) \<Rightarrow>
         if r = -1 then Inr (Some (-1, []), s)
         else Inr (Some (r, xs), wakeup (ChNwrite p) (s\<lparr>pipes := (pipes s)(p := q)\<rparr>)))"

section \<open>Files\<close>

definition filealloc :: "'z fkern_scheme \<Rightarrow> nat option \<times> 'z fkern_scheme" where
  "filealloc s =
     (case scan (\<lambda>f. fref f = 0) (ftable s) of
        Some i \<Rightarrow> (Some i, upd_file i (\<lambda>f. f\<lparr>fref := 1\<rparr>) s)
      | None \<Rightarrow> (None, s))"

definition filedup :: "nat \<Rightarrow> 'z fkern_scheme \<Rightarrow> 'z fkern_scheme outcome" where
  "filedup i s =
     (if fref (ftable s ! i) < 1 then Inl (Panic ''filedup'') else Inr (upd_file i (\<lambda>f. f\<lparr>fref := fref f + 1\<rparr>) s))"

definition fileclose :: "u32 \<Rightarrow> nat \<Rightarrow> 'z fkern_scheme \<Rightarrow> 'z fkern_scheme outcome" where
  "fileclose kend i s =
     (if fref (ftable s ! i) < 1 then Inl (Panic ''fileclose'')
      else
        let s = upd_file i (\<lambda>f. f\<lparr>fref := fref f - 1\<rparr>) s
        in if fref (ftable s ! i) > 0 then Inr s
           else
             let ff = ftable s ! i; s = upd_file i (\<lambda>f. f\<lparr>fref := 0, ftype := FD_NONE\<rparr>) s
             in case ftype ff of
                  FD_PIPE \<Rightarrow> pipeclose kend (fpipe ff) (writable ff) s
                | FD_INODE \<Rightarrow> run (begin_op s) (\<lambda>s. run (iput (fip ff) s) end_op)
                | FD_NONE \<Rightarrow> Inr s)"

definition filestat :: "nat \<Rightarrow> 'z fkern_scheme \<Rightarrow> (stat option \<times> 'z fkern_scheme) outcome" where
  "filestat i s =
     (let f = ftable s ! i
      in if ftype f = FD_INODE then
           run (ilock (fip f) s) (\<lambda>s.
             let st = stati (fip f) s in run (iunlock (fip f) s) (\<lambda>s. Inr (Some st, s)))
         else Inr (None, s))"

definition fileread :: "'z fkern_scheme devsw list \<Rightarrow> nat \<Rightarrow> int \<Rightarrow> 'z fkern_scheme \<Rightarrow>
    ((int \<times> u8 list) option \<times> 'z fkern_scheme) outcome" where
  "fileread ds i n s =
     (let f = ftable s ! i
      in if \<not> readable f then Inr (Some (-1, []), s)
         else if ftype f = FD_PIPE then piperead (fpipe f) n s
         else if ftype f = FD_INODE then
           run (ilock (fip f) s) (\<lambda>s.
           run (readi ds (fip f) (foff f) (word_of_int n) s) (\<lambda>(r, xs, s).
             let s = (if r > 0 then upd_file i (\<lambda>f. f\<lparr>foff := foff f + word_of_int r\<rparr>) s else s)
             in run (iunlock (fip f) s) (\<lambda>s. Inr (Some (r, xs), s))))
         else Inl (Panic ''fileread''))"

definition write_max :: int where
  "write_max = ((int LOGSIZE - 1 - 1 - 2) div 2) * 512"

function filewrite_loop :: "'z fkern_scheme devsw list \<Rightarrow> nat \<Rightarrow> (nat \<Rightarrow> u8) \<Rightarrow> int \<Rightarrow> int \<Rightarrow> 'z fkern_scheme \<Rightarrow>
    (int \<times> 'z fkern_scheme) outcome" where
  "filewrite_loop ds k src i n s =
     (if i < n then
        let n1 = min (n - i) write_max; ip = fip (ftable s ! k)
        in run (begin_op s) (\<lambda>s.
           run (ilock ip s) (\<lambda>s.
           run (writei ds ip (\<lambda>j. src (nat i + j)) (foff (ftable s ! k)) (word_of_int n1) s) (\<lambda>(r, s).
             let s = (if r > 0 then upd_file k (\<lambda>f. f\<lparr>foff := foff f + word_of_int r\<rparr>) s else s)
             in run (iunlock ip s) (\<lambda>s.
                run (end_op s) (\<lambda>s.
                  if r < 0 then Inr (i, s)
                  else if r \<noteq> n1 then Inl (Panic ''short filewrite'')
                  else filewrite_loop ds k src (i + n1) n s)))))
      else Inr (i, s))"
  by auto
termination
  by (relation "measure (\<lambda>(ds, k, src, i, n, s). nat (n - i))") (auto simp: write_max_def LOGSIZE_def)

declare filewrite_loop.simps [simp del]

definition filewrite :: "'z fkern_scheme devsw list \<Rightarrow> nat \<Rightarrow> (nat \<Rightarrow> u8) \<Rightarrow> int \<Rightarrow> 'z fkern_scheme \<Rightarrow>
    (written \<times> 'z fkern_scheme) outcome" where
  "filewrite ds k src n s =
     (let f = ftable s ! k
      in if \<not> writable f then Inr (Wrote (-1), s)
         else if ftype f = FD_PIPE then pipewrite (fpipe f) (map src [0..<nat n]) s
         else if ftype f = FD_INODE then
           run (filewrite_loop ds k src 0 n s) (\<lambda>(i, s). Inr (Wrote (if i = n then n else -1), s))
         else Inl (Panic ''filewrite''))"

text \<open>Every \<^verbatim>\<open>goto bad\<close> of \<^verbatim>\<open>pipealloc\<close> finds \<^verbatim>\<open>p\<close> null, so that its \<^verbatim>\<open>kfree\<close> is never reached.\<close>

definition pipealloc :: "u32 \<Rightarrow> 'z fkern_scheme \<Rightarrow> ((nat \<times> nat) option \<times> 'z fkern_scheme) outcome" where
  "pipealloc kend s =
     (case filealloc s of
        (None, s) \<Rightarrow> Inr (None, s)
      | (Some f0, s) \<Rightarrow>
          (case filealloc s of
             (None, s) \<Rightarrow> run (fileclose kend f0 s) (\<lambda>s. Inr (None, s))
           | (Some f1, s) \<Rightarrow>
               let (p, s) = kalloc s
               in if p = 0 then run (fileclose kend f0 s) (\<lambda>s. run (fileclose kend f1 s) (\<lambda>s. Inr (None, s)))
                  else
                    let s = s\<lparr>pipes := (pipes s)(p := pipe_init (pipes s p))\<rparr>;
                        s = upd_file f0 (\<lambda>f. f\<lparr>ftype := FD_PIPE, readable := True, writable := False, fpipe := p\<rparr>) s;
                        s = upd_file f1 (\<lambda>f. f\<lparr>ftype := FD_PIPE, readable := False, writable := True, fpipe := p\<rparr>) s
                    in Inr (Some (f0, f1), s)))"

end
