(* ===== verification/Syscall.thy ===== *)
theory Syscall
  imports ProcTable
begin

text \<open>
  Access of the kernel to the memory of the current process, and the fetching of system call arguments
  (\<^verbatim>\<open>syscall.c\<close>). The processor translates an address by the page directory in \<open>cr3\<close>; an access to an
  unmapped page faults in the kernel, where \<^verbatim>\<open>trap\<close> panics. A pointer argument is the address; a string
  argument is the list of its bytes.
\<close>

section \<open>User memory\<close>

definition mmu :: "'z vmem_scheme \<Rightarrow> u32 \<Rightarrow> pte_ptr option" where
  "mmu s va =
     (case fst (walkpgdir (p2v (cr3 s)) va False s) of
        None \<Rightarrow> None
      | Some pte \<Rightarrow> if present (get_pte pte s) then Some (p2v (PTE_ADDR (get_pte pte s)), unat (va AND 0xFFF)) else None)"

definition user_load :: "u32 \<Rightarrow> 'z vmem_scheme \<Rightarrow> u8 outcome" where
  "user_load va s = (case mmu s va of None \<Rightarrow> Inl (Panic ''trap'') | Some (p, i) \<Rightarrow> Inr (pages s p i))"

definition user_store :: "u32 \<Rightarrow> u8 \<Rightarrow> 'z vmem_scheme \<Rightarrow> 'z vmem_scheme outcome" where
  "user_store va x s = (case mmu s va of None \<Rightarrow> Inl (Panic ''trap'') | Some (p, i) \<Rightarrow> Inr (put_page p ((pages s p)(i := x)) s))"

primrec user_loads :: "u32 \<Rightarrow> nat \<Rightarrow> 'z vmem_scheme \<Rightarrow> u8 list outcome" where
  "user_loads va 0 s = Inr []"
| "user_loads va (Suc n) s = run (user_load va s) (\<lambda>x. run (user_loads (va + 1) n s) (\<lambda>xs. Inr (x # xs)))"

primrec user_stores :: "u32 \<Rightarrow> u8 list \<Rightarrow> 'z vmem_scheme \<Rightarrow> 'z vmem_scheme outcome" where
  "user_stores va [] s = Inr s"
| "user_stores va (x # xs) s = run (user_store va x s) (user_stores (va + 1) xs)"

definition bytes_le :: "nat \<Rightarrow> u32 \<Rightarrow> u8 list" where
  "bytes_le n w = map (\<lambda>i. ucast (drop_bit (8 * i) w)) [0..<n]"

definition user_word :: "u32 \<Rightarrow> 'z vmem_scheme \<Rightarrow> u32 outcome" where
  "user_word va s = run (user_loads va 4 s) (\<lambda>xs. Inr (load_le32 ((!) xs) 0))"

section \<open>Fetching arguments\<close>

definition fetchint :: "u32 \<Rightarrow> 'z kern_scheme \<Rightarrow> u32 option outcome" where
  "fetchint addr s = with_proc s (\<lambda>me.
     if addr \<ge> sz (ptable s ! me) \<or> addr + 4 > sz (ptable s ! me) then Inr None
     else run (user_word addr s) (\<lambda>w. Inr (Some w)))"

primrec fetchstr_from :: "nat \<Rightarrow> u32 \<Rightarrow> 'z vmem_scheme \<Rightarrow> u8 list option outcome" where
  "fetchstr_from 0 a s = Inr None"
| "fetchstr_from (Suc n) a s = run (user_load a s) (\<lambda>x.
     if x = 0 then Inr (Some []) else run (fetchstr_from n (a + 1) s) (\<lambda>r. Inr (map_option ((#) x) r)))"

definition fetchstr :: "u32 \<Rightarrow> 'z kern_scheme \<Rightarrow> u8 list option outcome" where
  "fetchstr addr s = with_proc s (\<lambda>me.
     if addr \<ge> sz (ptable s ! me) then Inr None else fetchstr_from (unat (sz (ptable s ! me) - addr)) addr s)"

definition argint :: "u32 \<Rightarrow> 'z kern_scheme \<Rightarrow> u32 option outcome" where
  "argint n s = with_proc s (\<lambda>me. fetchint (tf_esp (tf (ptable s ! me)) + 4 + 4 * n) s)"

definition argptr :: "u32 \<Rightarrow> int \<Rightarrow> 'z kern_scheme \<Rightarrow> u32 option outcome" where
  "argptr n len s = run (argint n s) (\<lambda>r.
     case r of
       None \<Rightarrow> Inr None
     | Some i \<Rightarrow> with_proc s (\<lambda>me.
         if i \<ge> sz (ptable s ! me) \<or> i + word_of_int len > sz (ptable s ! me) then Inr None else Inr (Some i)))"

definition argstr :: "u32 \<Rightarrow> 'z kern_scheme \<Rightarrow> u8 list option outcome" where
  "argstr n s = run (argint n s) (\<lambda>r. case r of None \<Rightarrow> Inr None | Some addr \<Rightarrow> fetchstr addr s)"

end
