(* ===== verification/Sysfile.thy ===== *)
theory Sysfile
  imports File Syscall
begin

text \<open>
  The file system calls (\<^verbatim>\<open>sysfile.c\<close>). A system call returns \<open>Some r\<close>, or \<open>None\<close> when the process has gone
  to sleep in it on a pipe or the console.
\<close>

type_synonym 's sysres = "(int option \<times> 's) outcome"

abbreviation ret :: "int \<Rightarrow> 's \<Rightarrow> 's sysres" where "ret r s \<equiv> Inr (Some r, s)"

section \<open>File descriptors\<close>

text \<open>The descriptor and the file of the \<open>n\<close>-th argument.\<close>

definition argfd :: "u32 \<Rightarrow> 'z kern_scheme \<Rightarrow> (nat \<times> nat) option outcome" where
  "argfd n s = run (argint n s) (\<lambda>r.
     case r of
       None \<Rightarrow> Inr None
     | Some fd \<Rightarrow> with_proc s (\<lambda>me.
         if sint fd < 0 \<or> sint fd \<ge> int NOFILE then Inr None
         else Inr (map_option (\<lambda>f. (nat (sint fd), f)) (ofile (ptable s ! me) ! nat (sint fd)))))"

definition fdalloc :: "nat \<Rightarrow> 'z kern_scheme \<Rightarrow> (int \<times> 'z kern_scheme) outcome" where
  "fdalloc f s = with_proc s (\<lambda>me.
     case scan (\<lambda>x. x = None) (ofile (ptable s ! me)) of
       Some fd \<Rightarrow> Inr (int fd, upd_proc me (\<lambda>p. p\<lparr>ofile := (ofile p)[fd := Some f]\<rparr>) s)
     | None \<Rightarrow> Inr (-1, s))"

definition clear_fd :: "nat \<Rightarrow> 'z kern_scheme \<Rightarrow> 'z kern_scheme outcome" where
  "clear_fd fd s = with_proc s (\<lambda>me. Inr (upd_proc me (\<lambda>p. p\<lparr>ofile := (ofile p)[fd := None]\<rparr>) s))"

definition sys_dup :: "'z fkern_scheme \<Rightarrow> 'z fkern_scheme sysres" where
  "sys_dup s = run (argfd 0 s) (\<lambda>r.
     case r of
       None \<Rightarrow> ret (-1) s
     | Some (_, f) \<Rightarrow> run (fdalloc f s) (\<lambda>(fd, s).
         if fd < 0 then ret (-1) s else run (filedup f s) (\<lambda>s. ret fd s)))"

definition sys_read :: "'z fkern_scheme devsw list \<Rightarrow> 'z fkern_scheme \<Rightarrow> 'z fkern_scheme sysres" where
  "sys_read ds s = run (argfd 0 s) (\<lambda>r.
     case r of
       None \<Rightarrow> ret (-1) s
     | Some (_, f) \<Rightarrow> run (argint 2 s) (\<lambda>r.
         case r of
           None \<Rightarrow> ret (-1) s
         | Some n \<Rightarrow> run (argptr 1 (sint n) s) (\<lambda>r.
             case r of
               None \<Rightarrow> ret (-1) s
             | Some p \<Rightarrow> run (fileread ds f (sint n) s) (\<lambda>(r, s).
                 case r of
                   None \<Rightarrow> Inr (None, s)
                 | Some (m, xs) \<Rightarrow> run (user_stores p xs s) (\<lambda>s. ret m s)))))"

definition sys_write :: "'z fkern_scheme devsw list \<Rightarrow> 'z fkern_scheme \<Rightarrow> 'z fkern_scheme sysres" where
  "sys_write ds s = run (argfd 0 s) (\<lambda>r.
     case r of
       None \<Rightarrow> ret (-1) s
     | Some (_, f) \<Rightarrow> run (argint 2 s) (\<lambda>r.
         case r of
           None \<Rightarrow> ret (-1) s
         | Some n \<Rightarrow> run (argptr 1 (sint n) s) (\<lambda>r.
             case r of
               None \<Rightarrow> ret (-1) s
             | Some p \<Rightarrow>
                 run (user_loads p (nat (sint n)) s) (\<lambda>xs.
                 run (filewrite ds f (\<lambda>j. if j < length xs then xs ! j else 0) (sint n) s) (\<lambda>(r, s).
                   case r of Wrote m \<Rightarrow> ret m s | Blocked rest \<Rightarrow> Inr (None, s))))))"

definition sys_close :: "u32 \<Rightarrow> 'z fkern_scheme \<Rightarrow> 'z fkern_scheme sysres" where
  "sys_close kend s = run (argfd 0 s) (\<lambda>r.
     case r of
       None \<Rightarrow> ret (-1) s
     | Some (fd, f) \<Rightarrow> run (clear_fd fd s) (\<lambda>s. run (fileclose kend f s) (\<lambda>s. ret 0 s)))"

text \<open>The fields of \<^verbatim>\<open>struct stat\<close> at their offsets; the padding is not written.\<close>

definition store_stat :: "u32 \<Rightarrow> stat \<Rightarrow> 'z vmem_scheme \<Rightarrow> 'z vmem_scheme outcome" where
  "store_stat p st s =
     run (user_stores (p + 4) (bytes_le 4 (st_dev st)) s) (\<lambda>s.
     run (user_stores (p + 8) (bytes_le 4 (st_ino st)) s) (\<lambda>s.
     run (user_stores p (bytes_le 2 (ucast (st_type st))) s) (\<lambda>s.
     run (user_stores (p + 12) (bytes_le 2 (ucast (st_nlink st))) s) (\<lambda>s.
     user_stores (p + 16) (bytes_le 4 (st_size st)) s))))"

definition sys_fstat :: "'z fkern_scheme \<Rightarrow> 'z fkern_scheme sysres" where
  "sys_fstat s = run (argfd 0 s) (\<lambda>r.
     case r of
       None \<Rightarrow> ret (-1) s
     | Some (_, f) \<Rightarrow> run (argptr 1 20 s) (\<lambda>r.
         case r of
           None \<Rightarrow> ret (-1) s
         | Some p \<Rightarrow> run (filestat f s) (\<lambda>(r, s).
             case r of
               None \<Rightarrow> ret (-1) s
             | Some st \<Rightarrow> run (store_stat p st s) (\<lambda>s. ret 0 s))))"

section \<open>Names\<close>

text \<open>The end of a call that fails inside a transaction.\<close>

definition fail_op :: "'z lkern_scheme \<Rightarrow> 'z lkern_scheme sysres" where
  "fail_op s = run (end_op s) (\<lambda>s. ret (-1) s)"

definition name_cstr :: "u8 list \<Rightarrow> cstr" where
  "name_cstr name j = (if j < DIRSIZ then name ! j else 0)"

definition add_nlink :: "nat \<Rightarrow> u16 \<Rightarrow> 'z ikern_scheme \<Rightarrow> 'z ikern_scheme outcome" where
  "add_nlink i d s = iupdate i (upd_inode i (\<lambda>ip. ip\<lparr>nlink := nlink ip + d\<rparr>) s)"

definition link_bad :: "nat \<Rightarrow> 'z ikern_scheme \<Rightarrow> 'z ikern_scheme sysres" where
  "link_bad i s = run (ilock i s) (\<lambda>s. run (add_nlink i (-1) s) (\<lambda>s. run (iunlockput i s) fail_op))"

definition sys_link :: "'z fkern_scheme devsw list \<Rightarrow> 'z fkern_scheme \<Rightarrow> 'z fkern_scheme sysres" where
  "sys_link ds s = run (argstr 0 s) (\<lambda>r0. run (if r0 = None then Inr None else argstr 1 s) (\<lambda>r1.
     case (r0, r1) of
       (Some old, Some new) \<Rightarrow>
         run (begin_op s) (\<lambda>s.
         run (namei ds old s) (\<lambda>(ip, s).
           case ip of
             None \<Rightarrow> fail_op s
           | Some i \<Rightarrow>
               run (ilock i s) (\<lambda>s.
                 if itype (icache s ! i) = T_DIR then run (iunlockput i s) fail_op
                 else
                   run (add_nlink i 1 s) (\<lambda>s.
                   run (iunlock i s) (\<lambda>s.
                   run (nameiparent ds new (replicate DIRSIZ 0) s) (\<lambda>(dp, name, s).
                     case dp of
                       None \<Rightarrow> link_bad i s
                     | Some d \<Rightarrow>
                         run (ilock d s) (\<lambda>s.
                         run (if idev (icache s ! d) \<noteq> idev (icache s ! i) then Inr (-1, s)
                              else dirlink ds d (name_cstr name) (inum (icache s ! i)) s) (\<lambda>(r, s).
                           if r < 0 then run (iunlockput d s) (link_bad i)
                           else
                             run (iunlockput d s) (\<lambda>s.
                             run (iput i s) (\<lambda>s.
                             run (end_op s) (\<lambda>s. ret 0 s)))))))))))
     | _ \<Rightarrow> ret (-1) s))"

function isdirempty_from :: "'z ikern_scheme devsw list \<Rightarrow> nat \<Rightarrow> nat \<Rightarrow> 'z ikern_scheme \<Rightarrow> (bool \<times> 'z ikern_scheme) outcome" where
  "isdirempty_from ds dp off s =
     (if off < unat (isize (icache s ! dp)) then
        run (readi ds dp (of_nat off) 16 s) (\<lambda>(r, de, s).
          if r \<noteq> 16 then Inl (Panic ''isdirempty: readi'')
          else if de_inum de \<noteq> 0 then Inr (False, s)
          else isdirempty_from ds dp (off + 16) s)
      else Inr (True, s))"
  by auto
termination
proof (relation "measure (\<lambda>(ds, dp, off, s). 2 ^ 32 - off)", goal_cases)
  case (2 ds dp off s)
  then show ?case using unsigned_less [of "isize (icache s ! dp)", where ?'a = nat] by simp
qed simp

declare isdirempty_from.simps [simp del]

definition isdirempty :: "'z ikern_scheme devsw list \<Rightarrow> nat \<Rightarrow> 'z ikern_scheme \<Rightarrow> (bool \<times> 'z ikern_scheme) outcome" where
  "isdirempty ds dp s = isdirempty_from ds dp 32 s"

definition unlink_bad :: "nat \<Rightarrow> 'z ikern_scheme \<Rightarrow> 'z ikern_scheme sysres" where
  "unlink_bad d s = run (iunlockput d s) fail_op"

definition sys_unlink :: "'z fkern_scheme devsw list \<Rightarrow> 'z fkern_scheme \<Rightarrow> 'z fkern_scheme sysres" where
  "sys_unlink ds s = run (argstr 0 s) (\<lambda>r.
     case r of
       None \<Rightarrow> ret (-1) s
     | Some path \<Rightarrow>
         run (begin_op s) (\<lambda>s.
         run (nameiparent ds path (replicate DIRSIZ 0) s) (\<lambda>(dp, name, s).
           case dp of
             None \<Rightarrow> fail_op s
           | Some d \<Rightarrow>
               run (ilock d s) (\<lambda>s.
                 if namecmp (name_cstr name) (lit ''.'') = 0 \<or> namecmp (name_cstr name) (lit ''..'') = 0 then unlink_bad d s
                 else
                   run (dirlookup ds d (name_cstr name) s) (\<lambda>(r, s).
                     case r of
                       None \<Rightarrow> unlink_bad d s
                     | Some (i, off) \<Rightarrow>
                         run (ilock i s) (\<lambda>s.
                           if sint (nlink (icache s ! i)) < 1 then Inl (Panic ''unlink: nlink < 1'')
                           else
                             run (if itype (icache s ! i) = T_DIR then isdirempty ds i s else Inr (True, s)) (\<lambda>(e, s).
                               if \<not> e then run (iunlockput i s) (unlink_bad d)
                               else
                                 run (writei ds d (\<lambda>_. 0) (of_nat off) 16 s) (\<lambda>(r, s).
                                   if r \<noteq> 16 then Inl (Panic ''unlink: writei'')
                                   else
                                     run (if itype (icache s ! i) = T_DIR then add_nlink d (-1) s else Inr s) (\<lambda>s.
                                     run (iunlockput d s) (\<lambda>s.
                                     run (add_nlink i (-1) s) (\<lambda>s.
                                     run (iunlockput i s) (\<lambda>s.
                                     run (end_op s) (\<lambda>s. ret 0 s)))))))))))))"

definition create :: "'z fkern_scheme devsw list \<Rightarrow> u8 list \<Rightarrow> u16 \<Rightarrow> u16 \<Rightarrow> u16 \<Rightarrow> 'z fkern_scheme \<Rightarrow>
    (nat option \<times> 'z fkern_scheme) outcome" where
  "create ds path ty mj mi s =
     run (nameiparent ds path (replicate DIRSIZ 0) s) (\<lambda>(dp, name, s).
       case dp of
         None \<Rightarrow> Inr (None, s)
       | Some d \<Rightarrow>
           run (ilock d s) (\<lambda>s.
           run (dirlookup ds d (name_cstr name) s) (\<lambda>(r, s).
             case r of
               Some (i, off) \<Rightarrow>
                 run (iunlockput d s) (\<lambda>s.
                 run (ilock i s) (\<lambda>s.
                   if ty = T_FILE \<and> itype (icache s ! i) = T_FILE then Inr (Some i, s)
                   else run (iunlockput i s) (\<lambda>s. Inr (None, s))))
             | None \<Rightarrow>
                 run (ialloc (idev (icache s ! d)) ty s) (\<lambda>(i, s).
                 run (ilock i s) (\<lambda>s.
                 run (iupdate i (upd_inode i (\<lambda>ip. ip\<lparr>major := mj, minor := mi, nlink := 1\<rparr>) s)) (\<lambda>s.
                 run (if ty = T_DIR then
                        run (add_nlink d 1 s) (\<lambda>s.
                        run (dirlink ds i (lit ''.'') (inum (icache s ! i)) s) (\<lambda>(r, s).
                          if r < 0 then Inl (Panic ''create dots'')
                          else run (dirlink ds i (lit ''..'') (inum (icache s ! d)) s) (\<lambda>(r, s).
                            if r < 0 then Inl (Panic ''create dots'') else Inr s)))
                      else Inr s) (\<lambda>s.
                 run (dirlink ds d (name_cstr name) (inum (icache s ! i)) s) (\<lambda>(r, s).
                   if r < 0 then Inl (Panic ''create: dirlink'')
                   else run (iunlockput d s) (\<lambda>s. Inr (Some i, s))))))))))"

definition O_WRONLY :: u32 where "O_WRONLY = 1"
definition O_RDWR :: u32 where "O_RDWR = 2"
definition O_CREATE :: u32 where "O_CREATE = 0x200"

text \<open>The first half of \<^verbatim>\<open>sys_open\<close>: the locked inode, or nothing after the transaction was closed.\<close>

definition open_inode :: "'z fkern_scheme devsw list \<Rightarrow> u8 list \<Rightarrow> u32 \<Rightarrow> 'z fkern_scheme \<Rightarrow> (nat option \<times> 'z fkern_scheme) outcome" where
  "open_inode ds path omode s =
     (if omode AND O_CREATE \<noteq> 0 then
        run (create ds path T_FILE 0 0 s) (\<lambda>(ip, s).
          case ip of None \<Rightarrow> run (end_op s) (\<lambda>s. Inr (None, s)) | Some i \<Rightarrow> Inr (Some i, s))
      else
        run (namei ds path s) (\<lambda>(ip, s).
          case ip of
            None \<Rightarrow> run (end_op s) (\<lambda>s. Inr (None, s))
          | Some i \<Rightarrow> run (ilock i s) (\<lambda>s.
              if itype (icache s ! i) = T_DIR \<and> omode \<noteq> 0 then
                run (iunlockput i s) (\<lambda>s. run (end_op s) (\<lambda>s. Inr (None, s)))
              else Inr (Some i, s))))"

definition sys_open :: "'z fkern_scheme devsw list \<Rightarrow> u32 \<Rightarrow> 'z fkern_scheme \<Rightarrow> 'z fkern_scheme sysres" where
  "sys_open ds kend s = run (argstr 0 s) (\<lambda>r0. run (if r0 = None then Inr None else argint 1 s) (\<lambda>r1.
     case (r0, r1) of
       (Some path, Some omode) \<Rightarrow>
         run (begin_op s) (\<lambda>s.
         run (open_inode ds path omode s) (\<lambda>(ip, s).
           case ip of
             None \<Rightarrow> ret (-1) s
           | Some i \<Rightarrow>
               (case filealloc s of
                  (None, s) \<Rightarrow> run (iunlockput i s) fail_op
                | (Some f, s) \<Rightarrow>
                    run (fdalloc f s) (\<lambda>(fd, s).
                      if fd < 0 then run (fileclose kend f s) (\<lambda>s. run (iunlockput i s) fail_op)
                      else
                        run (iunlock i s) (\<lambda>s.
                        run (end_op s) (\<lambda>s.
                        ret fd (upd_file f (\<lambda>f. f\<lparr>ftype := FD_INODE, fip := i, foff := 0,
                          readable := (omode AND O_WRONLY = 0),
                          writable := (omode AND O_WRONLY \<noteq> 0 \<or> omode AND O_RDWR \<noteq> 0)\<rparr>) s)))))))
     | _ \<Rightarrow> ret (-1) s))"

definition sys_mkdir :: "'z fkern_scheme devsw list \<Rightarrow> 'z fkern_scheme \<Rightarrow> 'z fkern_scheme sysres" where
  "sys_mkdir ds s = run (begin_op s) (\<lambda>s. run (argstr 0 s) (\<lambda>r.
     case r of
       None \<Rightarrow> fail_op s
     | Some path \<Rightarrow> run (create ds path T_DIR 0 0 s) (\<lambda>(ip, s).
         case ip of
           None \<Rightarrow> fail_op s
         | Some i \<Rightarrow> run (iunlockput i s) (\<lambda>s. run (end_op s) (\<lambda>s. ret 0 s)))))"

definition sys_mknod :: "'z fkern_scheme devsw list \<Rightarrow> 'z fkern_scheme \<Rightarrow> 'z fkern_scheme sysres" where
  "sys_mknod ds s = run (begin_op s) (\<lambda>s.
     run (argstr 0 s) (\<lambda>r0. run (if r0 = None then Inr None else argint 1 s) (\<lambda>r1.
     run (if r1 = None then Inr None else argint 2 s) (\<lambda>r2.
       case (r0, r1, r2) of
         (Some path, Some mj, Some mi) \<Rightarrow> run (create ds path T_DEV (ucast mj) (ucast mi) s) (\<lambda>(ip, s).
           case ip of
             None \<Rightarrow> fail_op s
           | Some i \<Rightarrow> run (iunlockput i s) (\<lambda>s. run (end_op s) (\<lambda>s. ret 0 s)))
       | _ \<Rightarrow> fail_op s))))"

definition sys_chdir :: "'z fkern_scheme devsw list \<Rightarrow> 'z fkern_scheme \<Rightarrow> 'z fkern_scheme sysres" where
  "sys_chdir ds s = run (begin_op s) (\<lambda>s. run (argstr 0 s) (\<lambda>r.
     case r of
       None \<Rightarrow> fail_op s
     | Some path \<Rightarrow> run (namei ds path s) (\<lambda>(ip, s).
         case ip of
           None \<Rightarrow> fail_op s
         | Some i \<Rightarrow> run (ilock i s) (\<lambda>s.
             if itype (icache s ! i) \<noteq> T_DIR then run (iunlockput i s) fail_op
             else
               run (iunlock i s) (\<lambda>s. with_proc s (\<lambda>me.
                 case cwd (ptable s ! me) of
                   None \<Rightarrow> Inl NullDeref
                 | Some c \<Rightarrow>
                     run (iput c s) (\<lambda>s.
                     run (end_op s) (\<lambda>s. ret 0 (upd_proc me (\<lambda>p. p\<lparr>cwd := Some i\<rparr>) s)))))))))"

definition sys_pipe :: "u32 \<Rightarrow> 'z fkern_scheme \<Rightarrow> 'z fkern_scheme sysres" where
  "sys_pipe kend s = run (argptr 0 8 s) (\<lambda>r.
     case r of
       None \<Rightarrow> ret (-1) s
     | Some p \<Rightarrow> run (pipealloc kend s) (\<lambda>(r, s).
         case r of
           None \<Rightarrow> ret (-1) s
         | Some (rfile, wfile) \<Rightarrow>
             run (fdalloc rfile s) (\<lambda>(fd0, s).
             run (if fd0 < 0 then Inr (-1, s) else fdalloc wfile s) (\<lambda>(fd1, s).
               if fd0 < 0 \<or> fd1 < 0 then
                 run (if fd0 \<ge> 0 then clear_fd (nat fd0) s else Inr s) (\<lambda>s.
                 run (fileclose kend rfile s) (\<lambda>s.
                 run (fileclose kend wfile s) (\<lambda>s. ret (-1) s)))
               else
                 run (user_stores p (bytes_le 4 (word_of_int fd0)) s) (\<lambda>s.
                 run (user_stores (p + 4) (bytes_le 4 (word_of_int fd1)) s) (\<lambda>s. ret 0 s))))))"

end
