(* ===== verification/Process.thy ===== *)
theory Process
  imports Sysfile Shm
begin

text \<open>
  The life of a process (\<^verbatim>\<open>proc.c\<close>): \<^verbatim>\<open>userinit\<close>, \<^verbatim>\<open>growproc\<close>, \<^verbatim>\<open>fork\<close>, \<^verbatim>\<open>exit\<close>, \<^verbatim>\<open>wait\<close> and \<^verbatim>\<open>forkret\<close>, over the whole
  kernel state. \<open>kend\<close> and \<open>kdata\<close> are the linker's symbols for the end of the kernel and the start of its
  data, \<open>initcode\<close> the linked-in first program.
\<close>

record skern = fkern +
  ticks :: u32
  forkret_first :: bool

definition KSTACKSIZE :: u32 where "KSTACKSIZE = 4096"

text \<open>\<^verbatim>\<open>switchuvm(proc)\<close> for the current process.\<close>

definition switch_to :: "nat \<Rightarrow> 'z kern_scheme \<Rightarrow> 'z kern_scheme outcome" where
  "switch_to me s = switchuvm (kstack (ptable s ! me)) (pgdir (ptable s ! me)) s"

definition growproc :: "u32 \<Rightarrow> int \<Rightarrow> 'z kern_scheme \<Rightarrow> (int \<times> 'z kern_scheme) outcome" where
  "growproc kend n s = with_proc s (\<lambda>me.
     let p = ptable s ! me
     in run (if n > 0 then allocuvm kend (pgdir p) (sz p) (sz p + word_of_int n) s
             else if n < 0 then deallocuvm kend (pgdir p) (sz p) (sz p + word_of_int n) 0 s
             else Inr (sz p, s)) (\<lambda>(z, s).
          if n \<noteq> 0 \<and> z = 0 then Inr (-1, s)
          else run (switch_to me (upd_proc me (\<lambda>p. p\<lparr>sz := z\<rparr>) s)) (\<lambda>s. Inr (0, s))))"

text \<open>The loop of \<^verbatim>\<open>fork\<close> that copies the records of shared regions.\<close>

primrec fork_shm :: "nat list \<Rightarrow> nat \<Rightarrow> nat \<Rightarrow> 'z kern_scheme \<Rightarrow> 'z kern_scheme outcome" where
  "fork_shm [] me np s = Inr s"
| "fork_shm (i # is) me np s =
     (let p = ptable s ! me;
          s = upd_proc np (\<lambda>q. q\<lparr>shm_name := (shm_name q)[i := safestrcpy (shm_name q ! i) (cstr_of (shm_name p ! i)) 16],
            shm_phys := (shm_phys q)[i := shm_phys p ! i]\<rparr>) s;
          q = ptable s ! np
      in run (shm_assign (pgdir q) (sz q) (shm_phys q ! i) s) (\<lambda>v.
         fork_shm is me np (upd_proc np (\<lambda>q. q\<lparr>shm_vir := (shm_vir q)[i := v]\<rparr>) s)))"

primrec fork_files :: "nat list \<Rightarrow> nat \<Rightarrow> nat \<Rightarrow> 'z fkern_scheme \<Rightarrow> 'z fkern_scheme outcome" where
  "fork_files [] me np s = Inr s"
| "fork_files (i # is) me np s =
     (case ofile (ptable s ! me) ! i of
        None \<Rightarrow> fork_files is me np s
      | Some f \<Rightarrow> run (filedup f s) (\<lambda>s.
          fork_files is me np (upd_proc np (\<lambda>q. q\<lparr>ofile := (ofile q)[i := Some f]\<rparr>) s)))"

definition fork :: "u32 \<Rightarrow> u32 \<Rightarrow> 'z fkern_scheme \<Rightarrow> (int \<times> 'z fkern_scheme) outcome" where
  "fork kend kdata s =
     (case allocproc s of
        (None, s) \<Rightarrow> Inr (-1, s)
      | (Some np, s) \<Rightarrow> with_proc s (\<lambda>me.
          run (copyuvm kend kdata (pgdir (ptable s ! me)) (sz (ptable s ! me)) s) (\<lambda>(d, s).
            let s = upd_proc np (\<lambda>q. q\<lparr>pgdir := d\<rparr>) s
            in if d = 0 then
                 run (kfree kend (kstack (ptable s ! np)) s) (\<lambda>s.
                   Inr (-1, upd_proc np (\<lambda>q. q\<lparr>kstack := 0, state := UNUSED\<rparr>) s))
               else
                 let p = ptable s ! me; s = upd_proc np (\<lambda>q. q\<lparr>sz := sz p, parent := Some me, tf := tf p\<rparr>) s
                 in run (fork_shm [0..<SHM_MAXNUM] me np s) (\<lambda>s.
                      let s = upd_proc np (\<lambda>q. q\<lparr>tf := (tf q)\<lparr>tf_eax := 0\<rparr>\<rparr>) s
                      in run (fork_files [0..<NOFILE] me np s) (\<lambda>s.
                           case cwd (ptable s ! me) of
                             None \<Rightarrow> Inl NullDeref
                           | Some c \<Rightarrow>
                               let s = idup c s;
                                   s = upd_proc np (\<lambda>q. q\<lparr>cwd := Some c,
                                     pname := safestrcpy (pname q) (cstr_of (pname (ptable s ! me))) 16\<rparr>) s
                               in Inr (pid (ptable s ! np), make_runnable np s))))))"

primrec exit_files :: "nat list \<Rightarrow> u32 \<Rightarrow> nat \<Rightarrow> 'z fkern_scheme \<Rightarrow> 'z fkern_scheme outcome" where
  "exit_files [] kend me s = Inr s"
| "exit_files (fd # fds) kend me s =
     (case ofile (ptable s ! me) ! fd of
        None \<Rightarrow> exit_files fds kend me s
      | Some f \<Rightarrow> run (fileclose kend f s) (\<lambda>s.
          exit_files fds kend me (upd_proc me (\<lambda>p. p\<lparr>ofile := (ofile p)[fd := None]\<rparr>) s)))"

primrec exit_mutexes :: "nat list \<Rightarrow> nat \<Rightarrow> 'z mkern_scheme \<Rightarrow> 'z mkern_scheme outcome" where
  "exit_mutexes [] me s = Inr s"
| "exit_mutexes (m # ms) me s =
     (if mxproc (ptable s ! me) ! m \<ge> 0 then run (mxdelete (int m) s) (exit_mutexes ms me)
      else exit_mutexes ms me s)"

definition exit :: "u32 \<Rightarrow> 'z fkern_scheme \<Rightarrow> 'z fkern_scheme outcome" where
  "exit kend s = with_proc s (\<lambda>me.
     if initproc s = Some me then Inl (Panic ''init exiting'')
     else
       run (exit_files [0..<NOFILE] kend me s) (\<lambda>s.
       run (exit_mutexes [0..<MUX_MAXNUM] me s) (\<lambda>s.
       run (begin_op s) (\<lambda>s.
         case cwd (ptable s ! me) of
           None \<Rightarrow> Inl NullDeref
         | Some c \<Rightarrow>
             run (iput c s) (\<lambda>s.
             run (end_op s) (\<lambda>s.
             exit_tail (upd_proc me (\<lambda>p. p\<lparr>cwd := None\<rparr>) s)))))))"

text \<open>\<^verbatim>\<open>wait\<close> returns a pid or -1, or goes to sleep (\<open>None\<close>) and scans again when it is woken up.\<close>

definition wait :: "u32 \<Rightarrow> 'z kern_scheme \<Rightarrow> (int option \<times> 'z kern_scheme) outcome" where
  "wait kend s = with_proc s (\<lambda>me.
     case scan (\<lambda>p. parent p = Some me \<and> state p = ZOMBIE) (ptable s) of
       Some i \<Rightarrow>
         let n = pid (ptable s ! i)
         in run (kfree kend (kstack (ptable s ! i)) s) (\<lambda>s.
            run (freevm kend (pgdir (ptable s ! i)) (-1) (upd_proc i (\<lambda>p. p\<lparr>kstack := 0\<rparr>) s)) (\<lambda>s.
            Inr (Some n, upd_proc i clear_proc s)))
     | None \<Rightarrow>
         if scan (\<lambda>p. parent p = Some me) (ptable s) = None \<or> killed (ptable s ! me) then Inr (Some (-1), s)
         else run (sleep (ChProc me) True s) (\<lambda>s. Inr (None, s)))"

definition user_tf :: trapframe where
  "user_tf = \<lparr>tf_eax = 0, tf_trapno = 0, tf_err = 0, tf_eip = 0, tf_cs = 0x23, tf_ds = 0x2B, tf_es = 0x2B, tf_ss = 0x2B,
     tf_eflags = 0x200, tf_esp = 4096\<rparr>"

definition DNE_row :: "u8 list \<Rightarrow> u8 list" where
  "DNE_row row = safestrcpy row (lit ''DNE'') 16"

definition userinit :: "'z fkern_scheme devsw list \<Rightarrow> u32 \<Rightarrow> u8 list \<Rightarrow> 'z fkern_scheme \<Rightarrow> 'z fkern_scheme outcome" where
  "userinit ds kdata initcode s =
     (case allocproc s of
        (None, s) \<Rightarrow> Inl NullDeref
      | (Some i, s) \<Rightarrow>
          run (setupkvm kdata (s\<lparr>initproc := Some i\<rparr>)) (\<lambda>(d, s).
            if d = 0 then Inl (Panic ''userinit: out of memory?'')
            else
              run (inituvm d initcode (upd_proc i (\<lambda>p. p\<lparr>pgdir := d\<rparr>) s)) (\<lambda>s.
                let s = upd_proc i (\<lambda>p. p\<lparr>sz := 4096, tf := user_tf, pname := safestrcpy (pname p) (lit ''initcode'') 16\<rparr>) s
                in run (namei ds [slash] s) (\<lambda>(c, s).
                     Inr (make_runnable i (upd_proc i (\<lambda>p. p\<lparr>cwd := c, shm_name := map DNE_row (shm_name p),
                       shm_vir := replicate SHM_MAXNUM 0, shm_phys := replicate SHM_MAXNUM 0\<rparr>) s))))))"

definition forkret :: "'z skern_scheme \<Rightarrow> 'z skern_scheme outcome" where
  "forkret s =
     (if forkret_first s then run (iinit ROOTDEV (s\<lparr>forkret_first := False\<rparr>)) (initlog ROOTDEV) else Inr s)"

end
