(* ===== verification/Exec.thy ===== *)
theory Exec
  imports Process
begin

text \<open>
  \<^verbatim>\<open>exec\<close> (\<^verbatim>\<open>exec.c\<close>) with \<^verbatim>\<open>loaduvm\<close> (\<^verbatim>\<open>vm.c\<close>). \<open>elf0\<close> is what the local variable \<^verbatim>\<open>elf\<close> holds before it is
  read into. The strings of \<open>argv\<close> are lists of their bytes.
\<close>

definition MAXARG :: nat where "MAXARG = 32"
definition ELF_MAGIC :: u32 where "ELF_MAGIC = 0x464C457F"
definition ELF_PROG_LOAD :: u32 where "ELF_PROG_LOAD = 1"

text \<open>The fields of the two ELF structures that the code reads.\<close>

record elfhdr =
  elf_magic :: u32
  elf_entry :: u32
  elf_phoff :: u32
  elf_phnum :: u16

record proghdr =
  ph_type :: u32
  ph_off :: u32
  ph_vaddr :: u32
  ph_filesz :: u32
  ph_memsz :: u32

definition get_elfhdr :: "u8 list \<Rightarrow> elfhdr" where
  "get_elfhdr xs = \<lparr>elf_magic = load_le32 ((!) xs) 0, elf_entry = load_le32 ((!) xs) 24, elf_phoff = load_le32 ((!) xs) 28,
     elf_phnum = load_le16 ((!) xs) 44\<rparr>"

definition get_proghdr :: "u8 list \<Rightarrow> proghdr" where
  "get_proghdr xs = \<lparr>ph_type = load_le32 ((!) xs) 0, ph_off = load_le32 ((!) xs) 4, ph_vaddr = load_le32 ((!) xs) 8,
     ph_filesz = load_le32 ((!) xs) 16, ph_memsz = load_le32 ((!) xs) 20\<rparr>"

text \<open>The loop of \<^verbatim>\<open>loaduvm\<close> with \<open>n\<close> rounds left; a round copies what \<^verbatim>\<open>readi\<close> has read into the page.\<close>

primrec loaduvm_from :: "nat \<Rightarrow> 'z ikern_scheme devsw list \<Rightarrow> u32 \<Rightarrow> u32 \<Rightarrow> nat \<Rightarrow> u32 \<Rightarrow> u32 \<Rightarrow> u32 \<Rightarrow> 'z ikern_scheme \<Rightarrow>
    (int \<times> 'z ikern_scheme) outcome" where
  "loaduvm_from 0 ds d addr ip off z i s = Inr (0, s)"
| "loaduvm_from (Suc k) ds d addr ip off z i s =
     (case fst (walkpgdir d (addr + i) False s) of
        None \<Rightarrow> Inl (Panic ''loaduvm: address should exist'')
      | Some pte \<Rightarrow>
          let pa = PTE_ADDR (get_pte pte s); n = (if z - i < 4096 then z - i else 4096)
          in run (readi ds ip (off + i) n s) (\<lambda>(r, xs, s).
               let s = put_page (p2v pa) (page_write (pages s (p2v pa)) 0 xs) s
               in if word_of_int r \<noteq> n then Inr (-1, s) else loaduvm_from k ds d addr ip off z (i + 4096) s))"

definition loaduvm :: "'z ikern_scheme devsw list \<Rightarrow> u32 \<Rightarrow> u32 \<Rightarrow> nat \<Rightarrow> u32 \<Rightarrow> u32 \<Rightarrow> 'z ikern_scheme \<Rightarrow>
    (int \<times> 'z ikern_scheme) outcome" where
  "loaduvm ds d addr ip off z s =
     (if addr mod 4096 \<noteq> 0 then Inl (Panic ''loaduvm: addr must be page aligned'')
      else loaduvm_from ((unat z + 4095) div 4096) ds d addr ip off z 0 s)"

text \<open>The loop over the program headers: the size of the image, or \<open>None\<close> for \<^verbatim>\<open>goto bad\<close>.\<close>

primrec load_segments :: "nat \<Rightarrow> 'z ikern_scheme devsw list \<Rightarrow> u32 \<Rightarrow> u32 \<Rightarrow> nat \<Rightarrow> u32 \<Rightarrow> u32 \<Rightarrow> 'z ikern_scheme \<Rightarrow>
    (u32 option \<times> 'z ikern_scheme) outcome" where
  "load_segments 0 ds kend d ip off z s = Inr (Some z, s)"
| "load_segments (Suc k) ds kend d ip off z s =
     run (readi ds ip off 32 s) (\<lambda>(r, xs, s).
       if r \<noteq> 32 then Inr (None, s)
       else
         let ph = get_proghdr xs
         in if ph_type ph \<noteq> ELF_PROG_LOAD then load_segments k ds kend d ip (off + 32) z s
            else if ph_memsz ph < ph_filesz ph then Inr (None, s)
            else run (allocuvm kend d z (ph_vaddr ph + ph_memsz ph) s) (\<lambda>(z, s).
              if z = 0 then Inr (None, s)
              else run (loaduvm ds d (ph_vaddr ph) ip (ph_off ph) (ph_filesz ph) s) (\<lambda>(r, s).
                if r < 0 then Inr (None, s) else load_segments k ds kend d ip (off + 32) z s)))"

text \<open>The loop that pushes the argument strings: the stack pointer and the addresses of the strings.\<close>

primrec push_args :: "u8 list list \<Rightarrow> nat \<Rightarrow> u32 \<Rightarrow> u32 \<Rightarrow> u32 list \<Rightarrow> 'z kmem_scheme \<Rightarrow>
    ((u32 \<times> u32 list) option \<times> 'z kmem_scheme) outcome" where
  "push_args [] argc d sp us s = Inr (Some (sp, us), s)"
| "push_args (x # xs) argc d sp us s =
     (if argc \<ge> MAXARG then Inr (None, s)
      else
        let sp = (sp - (of_nat (length x) + 1)) AND NOT 3
        in run (copyout d sp (x @ [0]) s) (\<lambda>(r, s).
             if r < 0 then Inr (None, s) else push_args xs (Suc argc) d sp (us @ [sp]) s))"

definition exec_bad :: "u32 \<Rightarrow> u32 \<Rightarrow> nat option \<Rightarrow> 'z fkern_scheme \<Rightarrow> (int \<times> 'z fkern_scheme) outcome" where
  "exec_bad kend d ip s =
     run (if d \<noteq> 0 then freevm kend d 0 s else Inr s) (\<lambda>s.
       case ip of
         None \<Rightarrow> Inr (-1, s)
       | Some i \<Rightarrow> run (iunlockput i s) (\<lambda>s. run (end_op s) (\<lambda>s. Inr (-1, s))))"

definition last_element :: "u8 list \<Rightarrow> u8 list" where
  "last_element path = rev (takeWhile ((\<noteq>) slash) (rev path))"

text \<open>From the image of size \<open>z\<close> in \<open>d\<close> on: stack, arguments and the switch to the new image.\<close>

definition exec_image :: "u32 \<Rightarrow> u32 \<Rightarrow> u32 \<Rightarrow> u32 \<Rightarrow> u8 list \<Rightarrow> u8 list list \<Rightarrow> 'z fkern_scheme \<Rightarrow> (int \<times> 'z fkern_scheme) outcome" where
  "exec_image kend d z entry path argv s =
     run (allocuvm kend d (PGROUNDUP z) (PGROUNDUP z + 2 * 4096) s) (\<lambda>(z, s).
       if z = 0 then exec_bad kend d None s
       else
         run (clearpteu d (z - 2 * 4096) s) (\<lambda>s.
         run (push_args argv 0 d z [] s) (\<lambda>(r, s).
           case r of
             None \<Rightarrow> exec_bad kend d None s
           | Some (sp, us) \<Rightarrow>
               let argc = of_nat (length us); ustack = [0xFFFFFFFF, argc, sp - (argc + 1) * 4] @ us @ [0];
                   sp = sp - (3 + argc + 1) * 4
               in run (copyout d sp (concat (map (bytes_le 4) ustack)) s) (\<lambda>(r, s).
                    if r < 0 then exec_bad kend d None s
                    else with_proc s (\<lambda>me.
                      let old = pgdir (ptable s ! me);
                          s = upd_proc me (\<lambda>p. p\<lparr>pname := safestrcpy (pname p) (cstr_of (last_element path)) 16,
                            pgdir := d, sz := z, tf := (tf p)\<lparr>tf_eip := entry, tf_esp := sp\<rparr>\<rparr>) s
                      in run (switch_to me s) (\<lambda>s. run (freevm kend old 0 s) (\<lambda>s. Inr (0, s))))))))"

definition exec :: "'z fkern_scheme devsw list \<Rightarrow> u32 \<Rightarrow> u32 \<Rightarrow> u8 list \<Rightarrow> u8 list \<Rightarrow> u8 list list \<Rightarrow> 'z fkern_scheme \<Rightarrow>
    (int \<times> 'z fkern_scheme) outcome" where
  "exec ds kend kdata elf0 path argv s =
     run (begin_op s) (\<lambda>s.
     run (namei ds path s) (\<lambda>(ip, s).
       case ip of
         None \<Rightarrow> run (end_op s) (\<lambda>s. Inr (-1, s))
       | Some i \<Rightarrow>
           run (ilock i s) (\<lambda>s.
           run (readi ds i 0 52 s) (\<lambda>(r, xs, s).
             let elf = get_elfhdr (xs @ drop (length xs) elf0)
             in if (word_of_int r :: u32) < 52 then exec_bad kend 0 (Some i) s
                else if elf_magic elf \<noteq> ELF_MAGIC then exec_bad kend 0 (Some i) s
                else run (setupkvm kdata s) (\<lambda>(d, s).
                  if d = 0 then exec_bad kend 0 (Some i) s
                  else run (load_segments (unat (elf_phnum elf)) ds kend d i (elf_phoff elf) 0 s) (\<lambda>(r, s).
                    case r of
                      None \<Rightarrow> exec_bad kend d (Some i) s
                    | Some z \<Rightarrow>
                        run (iunlockput i s) (\<lambda>s.
                        run (end_op s) (\<lambda>s. exec_image kend d z (elf_entry elf) path argv s))))))))"

text \<open>The loop of \<^verbatim>\<open>sys_exec\<close> (\<^verbatim>\<open>sysfile.c\<close>) over the argument vector.\<close>

primrec fetch_argv :: "nat \<Rightarrow> u32 \<Rightarrow> 'z kern_scheme \<Rightarrow> u8 list list option outcome" where
  "fetch_argv 0 a s = Inr None"
| "fetch_argv (Suc n) a s = run (fetchint a s) (\<lambda>r.
     case r of
       None \<Rightarrow> Inr None
     | Some uarg \<Rightarrow>
         if uarg = 0 then Inr (Some [])
         else run (fetchstr uarg s) (\<lambda>r.
           case r of
             None \<Rightarrow> Inr None
           | Some x \<Rightarrow> run (fetch_argv n (a + 4) s) (\<lambda>r. Inr (map_option ((#) x) r))))"

definition sys_exec :: "'z fkern_scheme devsw list \<Rightarrow> u32 \<Rightarrow> u32 \<Rightarrow> u8 list \<Rightarrow> 'z fkern_scheme \<Rightarrow> 'z fkern_scheme sysres" where
  "sys_exec ds kend kdata elf0 s =
     run (argstr 0 s) (\<lambda>r0. run (if r0 = None then Inr None else argint 1 s) (\<lambda>r1.
       case (r0, r1) of
         (Some path, Some uargv) \<Rightarrow> run (fetch_argv MAXARG uargv s) (\<lambda>r.
           case r of
             None \<Rightarrow> ret (-1) s
           | Some argv \<Rightarrow> run (exec ds kend kdata elf0 path argv s) (\<lambda>(r, s). ret r s))
       | _ \<Rightarrow> ret (-1) s))"

end
