(* ===== verification/Sysproc.thy ===== *)
theory Sysproc
  imports Exec
begin

text \<open>
  The remaining system calls (\<^verbatim>\<open>sysproc.c\<close>) and their dispatch (\<^verbatim>\<open>syscall.c\<close>). \<open>mem0\<close> is the uninitialised
  local variable of \<^verbatim>\<open>allocshm\<close>. A name in user memory is read as a C string; the bytes behind the end of the
  mapped memory read as 0.
\<close>

section \<open>System calls\<close>

definition sys_fork :: "u32 \<Rightarrow> u32 \<Rightarrow> 'z fkern_scheme \<Rightarrow> 'z fkern_scheme sysres" where
  "sys_fork kend kdata s = run (fork kend kdata s) (\<lambda>(r, s). ret r s)"

text \<open>\<^verbatim>\<open>exit\<close> ends in the scheduler and does not return.\<close>

definition sys_exit :: "u32 \<Rightarrow> 'z fkern_scheme \<Rightarrow> 'z fkern_scheme sysres" where
  "sys_exit kend s = run (exit kend s) (\<lambda>s. Inr (None, s))"

definition sys_wait :: "u32 \<Rightarrow> 'z kern_scheme \<Rightarrow> 'z kern_scheme sysres" where
  "sys_wait kend s = wait kend s"

text \<open>A call with one integer argument.\<close>

definition with_int :: "u32 \<Rightarrow> int \<Rightarrow> 'z kern_scheme \<Rightarrow> (u32 \<Rightarrow> 'z kern_scheme sysres) \<Rightarrow> 'z kern_scheme sysres" where
  "with_int n err s f = run (argint n s) (\<lambda>r. case r of None \<Rightarrow> ret err s | Some w \<Rightarrow> f w)"

definition sys_kill :: "'z kern_scheme \<Rightarrow> 'z kern_scheme sysres" where
  "sys_kill s = with_int 0 (-1) s (\<lambda>n. let (r, s) = kill (sint n) s in ret r s)"

definition sys_getpid :: "'z kern_scheme \<Rightarrow> 'z kern_scheme sysres" where
  "sys_getpid s = with_proc s (\<lambda>me. ret (pid (ptable s ! me)) s)"

definition sys_sbrk :: "u32 \<Rightarrow> 'z kern_scheme \<Rightarrow> 'z kern_scheme sysres" where
  "sys_sbrk kend s = with_int 0 (-1) s (\<lambda>n. with_proc s (\<lambda>me.
     let addr = sz (ptable s ! me)
     in run (growproc kend (sint n) s) (\<lambda>(r, s). if r < 0 then ret (-1) s else ret (sint addr) s)))"

text \<open>The loop of \<^verbatim>\<open>sys_sleep\<close>, entered again when the process is woken up.\<close>

definition sleep_ticks :: "u32 \<Rightarrow> u32 \<Rightarrow> 'z skern_scheme \<Rightarrow> 'z skern_scheme sysres" where
  "sleep_ticks ticks0 n s = with_proc s (\<lambda>me.
     if ticks s - ticks0 < n then
       if killed (ptable s ! me) then ret (-1) s
       else run (sleep ChTicks True s) (\<lambda>s. Inr (None, s))
     else ret 0 s)"

definition sys_sleep :: "'z skern_scheme \<Rightarrow> 'z skern_scheme sysres" where
  "sys_sleep s = with_int 0 (-1) s (\<lambda>n. sleep_ticks (ticks s) n s)"

definition sys_uptime :: "'z skern_scheme \<Rightarrow> 'z skern_scheme sysres" where
  "sys_uptime s = ret (sint (ticks s)) s"

definition sys_setHighPrio :: "'z kern_scheme \<Rightarrow> 'z kern_scheme sysres" where
  "sys_setHighPrio s = run (setHighPrio s) (\<lambda>(_, s). ret 0 s)"

definition user_cstr :: "u32 \<Rightarrow> 'z vmem_scheme \<Rightarrow> cstr" where
  "user_cstr p s j = (case mmu s (p + of_nat j) of None \<Rightarrow> 0 | Some (q, i) \<Rightarrow> pages s q i)"

text \<open>The common checks of the two shared-memory calls; \<^verbatim>\<open>sizeof(name)\<close> is the size of a pointer.\<close>

definition with_shm_name :: "'z kern_scheme \<Rightarrow> (cstr \<Rightarrow> int \<Rightarrow> 'z kern_scheme sysres) \<Rightarrow> 'z kern_scheme sysres" where
  "with_shm_name s f = with_int 1 0 s (\<lambda>len. run (argptr 0 (sint len) s) (\<lambda>r.
     case r of
       None \<Rightarrow> ret 0 s
     | Some p \<Rightarrow>
         if sint len > 16 then ret 0 s
         else if strncmp (user_cstr p s) (lit ''DNE'') 4 = 0 then ret 0 s
         else f (user_cstr p s) (sint len)))"

definition sys_shm_get :: "u32 \<Rightarrow> 'z kern_scheme \<Rightarrow> 'z kern_scheme sysres" where
  "sys_shm_get mem0 s = with_proc s (\<lambda>me. with_shm_name s (\<lambda>name len.
     run (shm_get mem0 me name len s) (\<lambda>(r, s). ret (sint r) s)))"

definition sys_shm_rem :: "u32 \<Rightarrow> 'z kern_scheme \<Rightarrow> 'z kern_scheme sysres" where
  "sys_shm_rem mem0 s = with_proc s (\<lambda>me. with_shm_name s (\<lambda>name len.
     run (shm_rem mem0 me name s) (\<lambda>(r, s). ret r s)))"

definition sys_mutex_create :: "'z mkern_scheme \<Rightarrow> 'z mkern_scheme sysres" where
  "sys_mutex_create s = with_proc s (\<lambda>me. with_int 1 (-1) s (\<lambda>len. run (argptr 0 (sint len) s) (\<lambda>r.
     case r of
       None \<Rightarrow> ret (-1) s
     | Some p \<Rightarrow> let (r, s) = initmutex me p (sint len) s in ret r s)))"

definition sys_mutex_delete :: "'z mkern_scheme \<Rightarrow> 'z mkern_scheme sysres" where
  "sys_mutex_delete s = with_int 0 (-1) s (\<lambda>m. run (mxdelete (sint m) s) (\<lambda>s. ret 0 s))"

text \<open>A result for a call that may have gone to sleep.\<close>

definition slept :: "bool \<times> 's \<Rightarrow> 's sysres" where
  "slept r = (case r of (b, s) \<Rightarrow> if b then Inr (None, s) else ret 0 s)"

definition sys_mutex_lock :: "'z mkern_scheme \<Rightarrow> 'z mkern_scheme sysres" where
  "sys_mutex_lock s = with_proc s (\<lambda>me. with_int 0 (-1) s (\<lambda>m. run (mxacquire me (sint m) s) slept))"

definition sys_mutex_unlock :: "'z mkern_scheme \<Rightarrow> 'z mkern_scheme sysres" where
  "sys_mutex_unlock s = with_proc s (\<lambda>me. with_int 0 (-1) s (\<lambda>m. run (mxrelease me (sint m) s) (\<lambda>s. ret 0 s)))"

definition sys_cv_wait :: "'z mkern_scheme \<Rightarrow> 'z mkern_scheme sysres" where
  "sys_cv_wait s = with_proc s (\<lambda>me. with_int 0 (-1) s (\<lambda>m. run (cvwait me (sint m) s) slept))"

definition sys_cv_signal :: "'z mkern_scheme \<Rightarrow> 'z mkern_scheme sysres" where
  "sys_cv_signal s = with_proc s (\<lambda>me. with_int 0 (-1) s (\<lambda>m. run (cvsignal me (sint m) s) (\<lambda>s. ret 0 s)))"

section \<open>Dispatch\<close>

record 's env =
  env_devsw :: "'s devsw list"
  env_kend :: u32
  env_kdata :: u32
  env_elf0 :: "u8 list"
  env_mem0 :: u32

text \<open>The table \<^verbatim>\<open>syscalls\<close>, by the numbers of \<^verbatim>\<open>syscall.h\<close>.\<close>

definition syscalls :: "'z skern_scheme env \<Rightarrow> int \<Rightarrow> ('z skern_scheme \<Rightarrow> 'z skern_scheme sysres) option" where
  "syscalls e num = map_of (zip [1..30]
     [sys_fork (env_kend e) (env_kdata e), sys_exit (env_kend e), sys_wait (env_kend e), sys_pipe (env_kend e),
      sys_read (env_devsw e), sys_kill, sys_exec (env_devsw e) (env_kend e) (env_kdata e) (env_elf0 e), sys_fstat,
      sys_chdir (env_devsw e), sys_dup, sys_getpid, sys_sbrk (env_kend e), sys_sleep, sys_uptime,
      sys_open (env_devsw e) (env_kend e), sys_write (env_devsw e), sys_mknod (env_devsw e), sys_unlink (env_devsw e),
      sys_link (env_devsw e), sys_mkdir (env_devsw e), sys_close (env_kend e), sys_mutex_create,
      sys_mutex_delete, sys_mutex_lock, sys_mutex_unlock, sys_cv_wait, sys_cv_signal, sys_shm_get (env_mem0 e),
      sys_shm_rem (env_mem0 e), sys_setHighPrio]) num"

definition set_eax :: "nat \<Rightarrow> int \<Rightarrow> 'z kern_scheme \<Rightarrow> 'z kern_scheme" where
  "set_eax me r s = upd_proc me (\<lambda>p. p\<lparr>tf := (tf p)\<lparr>tf_eax := word_of_int r\<rparr>\<rparr>) s"

text \<open>\<^verbatim>\<open>syscall\<close>: whether it has returned, or the process is asleep or gone.\<close>

definition syscall :: "'z skern_scheme env \<Rightarrow> 'z skern_scheme \<Rightarrow> (bool \<times> 'z skern_scheme) outcome" where
  "syscall e s = with_proc s (\<lambda>me.
     case syscalls e (sint (tf_eax (tf (ptable s ! me)))) of
       Some f \<Rightarrow> run (f s) (\<lambda>(r, s). case r of Some r \<Rightarrow> Inr (True, set_eax me r s) | None \<Rightarrow> Inr (False, s))
     | None \<Rightarrow> Inr (True, set_eax me (-1) s))"

end
