(* ===== verification/Console.thy ===== *)
theory Console
  imports Sysproc
begin

text \<open>
  The console (\<^verbatim>\<open>console.c\<close>) and the keyboard (\<^verbatim>\<open>kbd.c\<close>, \<^verbatim>\<open>kbd.h\<close>): the line editor over a ring of 128
  characters with a read, a write and an edit index, the screen memory, and the device functions that
  \<^verbatim>\<open>consoleinit\<close> enters in \<^verbatim>\<open>devsw\<close>. The bytes sent to the serial port are recorded in \<open>uart_out\<close>. A read that
  has to wait for input stops with \<open>Sleep\<close>. The process listing on Control-P only prints and is left out.
\<close>

section \<open>Keyboard\<close>

definition keys :: "string \<Rightarrow> u8 list" where
  "keys s = map of_char s"

definition ctl :: "string \<Rightarrow> u8 list" where
  "ctl s = map (\<lambda>c. of_char c - 0x40) s"

definition E0ESC :: u32 where "E0ESC = 0x40"
definition CAPSLOCK :: u32 where "CAPSLOCK = 8"

definition key_table :: "u8 list \<Rightarrow> (nat \<times> u8) list \<Rightarrow> u8 list" where
  "key_table xs us = fold (\<lambda>(i, v) t. t[i := v]) us (xs @ replicate (256 - length xs) 0)"

definition shiftcode :: "u8 list" where
  "shiftcode = key_table [] [(0x1D, 2), (0x2A, 1), (0x36, 1), (0x38, 4), (0x9D, 2), (0xB8, 4)]"

definition togglecode :: "u8 list" where
  "togglecode = key_table [] [(0x3A, 8), (0x45, 0x10), (0x46, 0x20)]"

definition special_keys :: "(nat \<times> u8) list" where
  "special_keys = [(0xC8, 0xE2), (0xD0, 0xE3), (0xC9, 0xE6), (0xD1, 0xE7), (0xCB, 0xE4), (0xCD, 0xE5), (0x97, 0xE0), (0xCF, 0xE1),
     (0xD2, 0xE8), (0xD3, 0xE9)]"

definition normalmap :: "u8 list" where
  "normalmap = key_table
     ([0, 0x1B] @ keys ''1234567890-='' @ [8, 9] @ keys ''qwertyuiop[]'' @ [10, 0] @ keys ''asdfghjkl;'' @
      [0x27, 0x60, 0, 0x5C] @ keys ''zxcvbnm,./'' @ [0, 0x2A, 0, 0x20] @ replicate 13 0 @ keys ''789-456+1230.'')
     ((0x9C, 10) # (0xB5, 0x2F) # special_keys)"

definition shiftmap :: "u8 list" where
  "shiftmap = key_table
     ([0, 0x1B] @ keys ''!@#$%^&*()_+'' @ [8, 9] @ keys ''QWERTYUIOP{}'' @ [10, 0] @ keys ''ASDFGHJKL:'' @
      [0x22, 0x7E, 0, 0x7C] @ keys ''ZXCVBNM<>?'' @ [0, 0x2A, 0, 0x20] @ replicate 13 0 @ keys ''789-456+1230.'')
     ((0x9C, 10) # (0xB5, 0x2F) # special_keys)"

definition ctlmap :: "u8 list" where
  "ctlmap = key_table
     (replicate 16 0 @ ctl ''QWERTYUIOP'' @ [0, 0, 13, 0] @ ctl ''ASDFGHJKL'' @ [0, 0, 0, 0] @ [0x1C] @ ctl ''ZXCVBNM'' @
      [0, 0] @ ctl ''/'' @ [0, 0])
     ((0x9C, 13) # (0xB5, 0xEF) # special_keys)"

text \<open>\<^verbatim>\<open>kbdgetc\<close> when the controller has the byte \<open>d\<close>: the character, and the static variable \<^verbatim>\<open>shift\<close>.\<close>

definition kbdgetc :: "u8 \<Rightarrow> u32 \<Rightarrow> u8 \<times> u32" where
  "kbdgetc d shift =
     (if d = 0xE0 then (0, shift OR E0ESC)
      else if d AND 0x80 \<noteq> 0 then
        let d = (if shift AND E0ESC \<noteq> 0 then d else d AND 0x7F)
        in (0, shift AND NOT (ucast (shiftcode ! unat d) OR E0ESC))
      else
        let (d, shift) = (if shift AND E0ESC \<noteq> 0 then (d OR 0x80, shift AND NOT E0ESC) else (d, shift));
            shift = (shift OR ucast (shiftcode ! unat d)) XOR ucast (togglecode ! unat d);
            c = [normalmap, shiftmap, ctlmap, ctlmap] ! unat (shift AND 3) ! unat d;
            c = (if shift AND CAPSLOCK = 0 then c
                 else if 0x61 \<le> c \<and> c \<le> 0x7A then c - 0x20
                 else if 0x41 \<le> c \<and> c \<le> 0x5A then c + 0x20 else c)
        in (c, shift))"

section \<open>Screen\<close>

definition BACKSPACE :: int where "BACKSPACE = 0x100"
definition INPUT_BUF :: u32 where "INPUT_BUF = 128"

record input =
  ibuf :: "u8 list"
  ir :: u32
  iw :: u32
  ie :: u32

record ckern = skern +
  input :: input
  uart_out :: "u8 list"
  crt :: "u16 list"
  crt_pos :: nat
  kbd_shift :: u32

text \<open>The cell at \<open>pos\<close>, for a position the code does not check before it writes.\<close>

definition put_cell :: "nat \<Rightarrow> u16 \<Rightarrow> 'z ckern_scheme \<Rightarrow> 'z ckern_scheme outcome" where
  "put_cell pos v s = (if pos < length (crt s) then Inr (s\<lparr>crt := (crt s)[pos := v]\<rparr>) else Inl OutOfBounds)"

definition scroll :: "nat \<Rightarrow> u16 list \<Rightarrow> u16 list" where
  "scroll pos c = map (\<lambda>i. if pos \<le> i \<and> i < 24 * 80 then 0 else if i < 23 * 80 then c ! (i + 80) else c ! i) [0..<length c]"

definition cgaputc :: "int \<Rightarrow> 'z ckern_scheme \<Rightarrow> 'z ckern_scheme outcome" where
  "cgaputc c s =
     run (if c = 10 then Inr (crt_pos s + (80 - crt_pos s mod 80), s)
          else if c = BACKSPACE then Inr (if crt_pos s > 0 then crt_pos s - 1 else crt_pos s, s)
          else run (put_cell (crt_pos s) (ucast (word_of_int c :: u8) OR 0x0700) s) (\<lambda>s. Inr (Suc (crt_pos s), s))) (\<lambda>(pos, s).
       if pos > 25 * 80 then Inl (Panic ''pos under/overflow'')
       else
         let (pos, s) = (if pos div 80 \<ge> 24 then (pos - 80, s\<lparr>crt := scroll (pos - 80) (crt s)\<rparr>) else (pos, s))
         in put_cell pos 0x0720 (s\<lparr>crt_pos := pos\<rparr>))"

definition consputc :: "int \<Rightarrow> 'z ckern_scheme \<Rightarrow> 'z ckern_scheme outcome" where
  "consputc c s = cgaputc c (s\<lparr>uart_out := uart_out s @ (if c = BACKSPACE then [8, 0x20, 8] else [word_of_int c])\<rparr>)"

section \<open>Input\<close>

definition upd_input :: "(input \<Rightarrow> input) \<Rightarrow> 'z ckern_scheme \<Rightarrow> 'z ckern_scheme" where
  "upd_input f s = s\<lparr>input := f (input s)\<rparr>"

definition input_at :: "u32 \<Rightarrow> input \<Rightarrow> u8" where
  "input_at i p = ibuf p ! unat (i mod INPUT_BUF)"

definition input_put :: "u8 \<Rightarrow> input \<Rightarrow> input" where
  "input_put c p = p\<lparr>ibuf := (ibuf p)[unat (ie p mod INPUT_BUF) := c], ie := ie p + 1\<rparr>"

text \<open>
  The loop for Control-U: the input afterwards and the number of characters it has erased from the screen.
\<close>

function kill_line :: "input \<Rightarrow> nat \<times> input" where
  "kill_line p =
     (if ie p \<noteq> iw p \<and> input_at (ie p - 1) p \<noteq> 10 then let (n, p) = kill_line (p\<lparr>ie := ie p - 1\<rparr>) in (Suc n, p)
      else (0, p))"
  by auto
termination
proof (relation "measure (\<lambda>p. unat (ie p - iw p))", goal_cases)
  case (2 p)
  then have "ie p - iw p \<noteq> 0" by simp
  then have "unat (ie p - iw p - 1) < unat (ie p - iw p)" by (simp add: unat_sub_1 unat_gt_0)
  moreover have e: "ie p - 1 - iw p = ie p - iw p - 1" by (simp add: algebra_simps)
  ultimately have "unat (ie p - 1 - iw p) < unat (ie p - iw p)" unfolding e by blast
  then show ?case by simp
qed simp

declare kill_line.simps [simp del]

primrec erase :: "nat \<Rightarrow> 'z ckern_scheme \<Rightarrow> 'z ckern_scheme outcome" where
  "erase 0 s = Inr s"
| "erase (Suc n) s = run (consputc BACKSPACE s) (erase n)"

text \<open>The body of the loop of \<^verbatim>\<open>consoleintr\<close> for one character.\<close>

definition console_char :: "u8 \<Rightarrow> 'z ckern_scheme \<Rightarrow> 'z ckern_scheme outcome" where
  "console_char c s =
     (let p = input s
      in if c = 0x10 then Inr s
         else if c = 0x15 then let (n, p) = kill_line p in erase n (s\<lparr>input := p\<rparr>)
         else if c = 8 \<or> c = 0x7F then
           if ie p \<noteq> iw p then consputc BACKSPACE (s\<lparr>input := p\<lparr>ie := ie p - 1\<rparr>\<rparr>) else Inr s
         else if c \<noteq> 0 \<and> ie p - ir p < INPUT_BUF then
           let c = (if c = 13 then 10 else c)
           in run (consputc (uint c) (s\<lparr>input := input_put c p\<rparr>)) (\<lambda>s.
                let p = input s
                in if c = 10 \<or> c = 4 \<or> ie p = ir p + INPUT_BUF
                   then Inr (wakeup ChInput (s\<lparr>input := p\<lparr>iw := ie p\<rparr>\<rparr>)) else Inr s)
         else Inr s)"

primrec consoleintr :: "u8 list \<Rightarrow> 'z ckern_scheme \<Rightarrow> 'z ckern_scheme outcome" where
  "consoleintr [] s = Inr s"
| "consoleintr (c # cs) s = run (console_char c s) (consoleintr cs)"

text \<open>The interrupts, with the bytes that the controllers deliver until they have no more.\<close>

primrec kbd_chars :: "u8 list \<Rightarrow> u32 \<Rightarrow> u8 list \<times> u32" where
  "kbd_chars [] shift = ([], shift)"
| "kbd_chars (d # ds) shift = (let (c, shift) = kbdgetc d shift; (cs, shift) = kbd_chars ds shift in (c # cs, shift))"

definition kbdintr :: "u8 list \<Rightarrow> 'z ckern_scheme \<Rightarrow> 'z ckern_scheme outcome" where
  "kbdintr ds s = (let (cs, shift) = kbd_chars ds (kbd_shift s) in consoleintr cs (s\<lparr>kbd_shift := shift\<rparr>))"

definition uartintr :: "u8 list \<Rightarrow> 'z ckern_scheme \<Rightarrow> 'z ckern_scheme outcome" where
  "uartintr ds s = consoleintr ds s"

text \<open>
  The loop of \<^verbatim>\<open>consoleread\<close> over the input alone: the bytes read, the input, and whether it stopped for want
  of input; \<open>first\<close> is whether nothing has been read yet (\<^verbatim>\<open>n == target\<close>).
\<close>

primrec console_take :: "nat \<Rightarrow> bool \<Rightarrow> input \<Rightarrow> u8 list \<times> input \<times> bool" where
  "console_take 0 first p = ([], p, False)"
| "console_take (Suc n) first p =
     (if ir p = iw p then ([], p, True)
      else
        let c = input_at (ir p) p; q = p\<lparr>ir := ir p + 1\<rparr>
        in if c = 4 then ([], if first then q else p, False)
           else if c = 10 then ([c], q, False)
           else let (xs, q, e) = console_take n False q in (c # xs, q, e))"

definition consoleread :: "nat \<Rightarrow> u32 \<Rightarrow> 'z ckern_scheme \<Rightarrow> (int \<times> u8 list \<times> 'z ckern_scheme) outcome" where
  "consoleread i n s =
     run (iunlock i s) (\<lambda>s.
       let (xs, p, e) = console_take (nat (sint n)) True (input s); s = s\<lparr>input := p\<rparr>
       in if e then with_proc s (\<lambda>me.
            if killed (ptable s ! me) then run (ilock i s) (\<lambda>s. Inr (-1, xs, s)) else Inl (Sleep ChInput))
          else run (ilock i s) (\<lambda>s. Inr (int (length xs), xs, s)))"

primrec cons_puts :: "u8 list \<Rightarrow> 'z ckern_scheme \<Rightarrow> 'z ckern_scheme outcome" where
  "cons_puts [] s = Inr s"
| "cons_puts (c # cs) s = run (consputc (uint c) s) (cons_puts cs)"

definition consolewrite :: "nat \<Rightarrow> (nat \<Rightarrow> u8) \<Rightarrow> u32 \<Rightarrow> 'z ckern_scheme \<Rightarrow> (int \<times> 'z ckern_scheme) outcome" where
  "consolewrite i src n s =
     run (iunlock i s) (\<lambda>s.
     run (cons_puts (map src [0..<nat (sint n)]) s) (\<lambda>s.
     run (ilock i s) (\<lambda>s. Inr (sint n, s))))"

text \<open>\<^verbatim>\<open>devsw\<close> after \<^verbatim>\<open>consoleinit\<close>.\<close>

definition consoleinit :: "'z ckern_scheme devsw list" where
  "consoleinit = (replicate 10 \<lparr>dev_read = None, dev_write = None\<rparr>)[1 := \<lparr>dev_read = Some consoleread, dev_write = Some consolewrite\<rparr>]"

end
