(* ===== verification/ConsoleProps.thy ===== *)
theory ConsoleProps
  imports Console
begin

text \<open>
  The line discipline of the console as a pair of byte lists, the committed input and the line being
  edited, which the ring with its three indices implements, and the bounds of the screen position.
\<close>

section \<open>Specification\<close>

definition is_end :: "u8 \<Rightarrow> bool" where
  "is_end c \<longleftrightarrow> c = 10 \<or> c = 4"

fun ed_char :: "u8 \<Rightarrow> u8 list \<times> u8 list \<Rightarrow> u8 list \<times> u8 list" where
  "ed_char c (com, ed) =
     (if c = 0x10 then (com, ed)
      else if c = 0x15 then (com, [])
      else if c = 8 \<or> c = 0x7F then (com, butlast ed)
      else if c = 0 \<or> length com + length ed \<ge> 128 then (com, ed)
      else
        let c = (if c = 13 then 10 else c); ed = ed @ [c]
        in if is_end c \<or> length com + length ed = 128 then (com @ ed, []) else (com, ed))"

primrec line_take :: "nat \<Rightarrow> bool \<Rightarrow> u8 list \<Rightarrow> u8 list \<times> u8 list \<times> bool" where
  "line_take 0 first com = ([], com, False)"
| "line_take (Suc n) first com =
     (case com of
        [] \<Rightarrow> ([], [], True)
      | c # rest \<Rightarrow>
          if c = 4 then ([], if first then rest else com, False)
          else if c = 10 then ([c], rest, False)
          else let (xs, r, e) = line_take n False rest in (c # xs, r, e))"

section \<open>Abstraction\<close>

definition input_abs :: "input \<Rightarrow> u8 list \<times> u8 list" where
  "input_abs p = (ring_content 128 (ibuf p) (ir p) (iw p), ring_content 128 (ibuf p) (iw p) (ie p))"

definition input_ok :: "input \<Rightarrow> bool" where
  "input_ok p \<longleftrightarrow> length (ibuf p) = 128 \<and> unat (iw p - ir p) \<le> unat (ie p - ir p) \<and> unat (ie p - ir p) \<le> 128 \<and>
     10 \<notin> set (snd (input_abs p))"

lemma unat_mod_INPUT_BUF: "unat (x mod INPUT_BUF) = unat x mod 2 ^ 7"
  by (simp add: INPUT_BUF_def unat_mod)

lemma input_at_mod: "input_at i p = ibuf p ! (unat i mod 2 ^ 7)"
  by (simp add: input_at_def unat_mod_INPUT_BUF)

lemma ring_content_self [simp]: "ring_content n xs r r = []"
  by (simp add: ring_content_def)

lemma abs_length:
  assumes "input_ok p"
  shows "length (fst (input_abs p)) + length (snd (input_abs p)) = unat (ie p - ir p)"
  using assms ring_diff_split [of "iw p" "ir p" "ie p"] by (simp add: input_ok_def input_abs_def)

text \<open>The whole ring, committed or not, is a ring buffer.\<close>

definition input_content :: "input \<Rightarrow> u8 list" where
  "input_content p = ring_content 128 (ibuf p) (ir p) (ie p)"

definition input_get :: "input \<Rightarrow> u8 \<times> input" where
  "input_get p = (input_at (ir p) p, p\<lparr>ir := ir p + 1\<rparr>)"

definition input_ring :: "input \<Rightarrow> bool" where
  "input_ring p \<longleftrightarrow> length (ibuf p) = 128 \<and> unat (ie p - ir p) \<le> 128"

interpretation cq: ring_buffer input_put input_get "\<lambda>p. \<not> ie p - ir p < INPUT_BUF" "\<lambda>p. ie p = ir p" input_content input_ring 128
proof (unfold_locales, goal_cases)
  case (4 p c)
  then have "unat (ie p - ir p) < 2 ^ 7" by (simp add: word_less_nat_alt INPUT_BUF_def)
  with 4 show ?case using ring_put_count [of "ie p" "ir p" 7] by (simp add: input_ring_def input_put_def)
next
  case (5 p c)
  then show ?case using ring_content_put [of "ibuf p" 7 "ie p" "ir p" c]
    by (simp add: word_less_nat_alt INPUT_BUF_def [THEN arg_cong [where f = unat]] input_ring_def input_content_def input_put_def unat_mod_INPUT_BUF)
next
  case (6 p)
  then show ?case using ring_get_count [of "ie p" "ir p"] by (auto simp: input_get_def input_ring_def)
next
  case (7 p)
  then show ?case using ring_content_get [of "ie p" "ir p" 7 "ibuf p"]
    by (auto simp: input_content_def input_get_def input_at_mod)
qed (auto simp: word_less_nat_alt INPUT_BUF_def input_content_def input_ring_def)

lemma input_ok_back:
  assumes ok: "input_ok p" and ne: "ie p \<noteq> iw p"
  shows "input_ok (p\<lparr>ie := ie p - 1\<rparr>)"
proof -
  have s: "unat (ie p - ir p) = unat (iw p - ir p) + unat (ie p - iw p)"
    using ok by (intro ring_diff_split) (simp add: input_ok_def)
  have "ie p - iw p \<noteq> 0" using ne by simp
  then have pos: "0 < unat (ie p - iw p)" by (simp add: unat_gt_0)
  then have n: "ie p - ir p \<noteq> 0" using s by auto
  have e: "ie p - 1 - ir p = ie p - ir p - 1" by (simp add: algebra_simps)
  have "unat (ie p - 1 - ir p) = unat (ie p - ir p) - 1" unfolding e by (rule unat_sub_1 [OF n])
  moreover have "10 \<notin> set (butlast (ring_content 128 (ibuf p) (iw p) (ie p)))"
    using ok by (auto simp: input_ok_def input_abs_def dest: in_set_butlastD)
  ultimately show ?thesis
    using ok s pos ring_content_butlast(1) [OF ne, of 7 128 "ibuf p"] by (auto simp: input_ok_def input_abs_def)
qed

lemma kill_line_abs:
  assumes "input_ok p"
  shows "kill_line p = (length (snd (input_abs p)), p\<lparr>ie := iw p\<rparr>)"
  using assms
proof (induction p rule: kill_line.induct)
  case (1 p)
  show ?case
  proof (cases "ie p = iw p")
    case True
    then have "p\<lparr>ie := iw p\<rparr> = p" by simp
    then show ?thesis using True by (simp add: kill_line.simps [of p] input_abs_def)
  next
    case False
    let ?q = "p\<lparr>ie := ie p - 1\<rparr>" and ?ed = "ring_content (2 ^ 7) (ibuf p) (iw p) (ie p)"
    have ed: "?ed \<noteq> []" using False by simp
    have l: "last ?ed = input_at (ie p - 1) p" using ring_content_butlast(2) [OF False, of 7 "ibuf p"] by (simp add: input_at_mod)
    have "10 \<notin> set ?ed" using 1(2) by (simp add: input_ok_def input_abs_def)
    then have c: "input_at (ie p - 1) p \<noteq> 10" using l ed by (metis last_in_set)
    have b: "ring_content 128 (ibuf p) (iw p) (ie p - 1) = butlast ?ed" using ring_content_butlast(1) [OF False, of 7 128] by simp
    have "0 < length ?ed" using ed by blast
    moreover have "kill_line ?q = (length (snd (input_abs ?q)), ?q\<lparr>ie := iw ?q\<rparr>)"
      using 1(1) False c input_ok_back [OF 1(2) False] by blast
    ultimately show ?thesis using False c b by (simp add: kill_line.simps [of p] input_abs_def)
  qed
qed

section \<open>Screen\<close>

definition screen_ok :: "'z ckern_scheme \<Rightarrow> bool" where
  "screen_ok s \<longleftrightarrow> length (crt s) = 25 * 80 \<and> crt_pos s < 24 * 80"

lemma consputc_ok:
  assumes "screen_ok s"
  shows "\<exists>s'. consputc c s = Inr s' \<and> screen_ok s' \<and> input s' = input s"
proof -
  define t where "t = s\<lparr>uart_out := uart_out s @ (if c = BACKSPACE then [8, 0x20, 8] else [word_of_int c])\<rparr>"
  have t: "length (crt t) = 2000" "crt_pos t < 1920" "input t = input s" using assms by (simp_all add: t_def screen_ok_def)
  define step where "step = (if c = 10 then Inr (crt_pos t + (80 - crt_pos t mod 80), t)
    else if c = BACKSPACE then Inr (if crt_pos t > 0 then crt_pos t - 1 else crt_pos t, t)
    else run (put_cell (crt_pos t) (ucast (word_of_int c :: u8) OR 0x0700) t) (\<lambda>s. Inr (Suc (crt_pos s), s)))"
  have nl: "crt_pos t + (80 - crt_pos t mod 80) \<le> 1920"
  proof -
    have "crt_pos t div 80 < 24" using t(2) by (simp add: div_less_iff_less_mult)
    moreover have "crt_pos t + (80 - crt_pos t mod 80) = 80 * (crt_pos t div 80) + 80"
      using mod_less_divisor [of 80 "crt_pos t"] mult_div_mod_eq [of 80 "crt_pos t"] by linarith
    ultimately show ?thesis by simp
  qed
  have "\<exists>pos u. step = Inr (pos, u) \<and> pos \<le> 1920 \<and> length (crt u) = 2000 \<and> input u = input s"
    using t nl by (cases "c = 10"; cases "c = BACKSPACE") (auto simp: step_def put_cell_def)
  then obtain pos u where u: "step = Inr (pos, u)" "pos \<le> 1920" "length (crt u) = 2000" "input u = input s" by blast
  have "consputc c s = run step (\<lambda>(pos, s). if pos > 25 * 80 then Inl (Panic ''pos under/overflow'')
       else let (pos, s) = (if pos div 80 \<ge> 24 then (pos - 80, s\<lparr>crt := scroll (pos - 80) (crt s)\<rparr>) else (pos, s))
            in put_cell pos 0x0720 (s\<lparr>crt_pos := pos\<rparr>))"
    unfolding consputc_def cgaputc_def step_def t_def by simp
  also have "\<dots> = Inr (let (pos, s) = (if pos div 80 \<ge> 24 then (pos - 80, u\<lparr>crt := scroll (pos - 80) (crt u)\<rparr>) else (pos, u))
     in s\<lparr>crt_pos := pos, crt := (crt s)[pos := 0x0720]\<rparr>)"
    using u by (auto simp: put_cell_def scroll_def Let_def)
  finally show ?thesis using u by (auto simp: screen_ok_def scroll_def Let_def)
qed

lemma erase_ok: "screen_ok s \<Longrightarrow> \<exists>s'. erase n s = Inr s' \<and> screen_ok s' \<and> input s' = input s"
proof (induction n arbitrary: s)
  case (Suc n)
  obtain s1 where s1: "consputc BACKSPACE s = Inr s1" "screen_ok s1" "input s1 = input s" using consputc_ok [OF Suc.prems] by blast
  then show ?case using Suc.IH [OF s1(2)] by auto
qed simp

lemma screen_ok_upd [simp]: "screen_ok (s\<lparr>input := p\<rparr>) = screen_ok s" "screen_ok (wakeup c s) = screen_ok s"
  "input (wakeup c s) = input s"
  by (simp_all add: screen_ok_def wakeup_def wakeup1_def)

section \<open>Refinement\<close>

lemma input_put_abs:
  assumes ok: "input_ok p" and room: "ie p - ir p < INPUT_BUF"
  shows "input_abs (input_put c p) = (fst (input_abs p), snd (input_abs p) @ [c])"
    "unat (iw (input_put c p) - ir (input_put c p)) \<le> unat (ie (input_put c p) - ir (input_put c p))"
    "unat (ie (input_put c p) - ir (input_put c p)) = Suc (unat (ie p - ir p))" "unat (ie p - ir p) < 128"
    "length (ibuf (input_put c p)) = 128"
proof -
  have r: "unat (ie p - ir p) < 2 ^ 7" using room by (simp add: word_less_nat_alt INPUT_BUF_def)
  have le: "unat (iw p - ir p) \<le> unat (ie p - ir p)" "length (ibuf p) = 2 ^ 7" using ok by (simp_all add: input_ok_def)
  have "unat (ie p - iw p) < 2 ^ 7" using ring_diff_split [OF le(1)] r by simp
  then show "input_abs (input_put c p) = (fst (input_abs p), snd (input_abs p) @ [c])"
    using ring_content_put [OF le(2), of "ie p" "iw p" c] ring_content_update_other [OF le(1) r, of "ibuf p" c]
    by (simp add: input_abs_def input_put_def unat_mod_INPUT_BUF)
  show s: "unat (ie (input_put c p) - ir (input_put c p)) = Suc (unat (ie p - ir p))"
    using ring_put_count [OF r] by (simp add: input_put_def)
  show "unat (iw (input_put c p) - ir (input_put c p)) \<le> unat (ie (input_put c p) - ir (input_put c p))"
    using s le(1) by (simp add: input_put_def)
  show "unat (ie p - ir p) < 128" "length (ibuf (input_put c p)) = 128" using r le(2) by (simp_all add: input_put_def)
qed

lemma console_char_ok:
  assumes ok: "input_ok (input s)" and sc: "screen_ok s"
  shows "\<exists>s'. console_char c s = Inr s' \<and> screen_ok s' \<and> input_ok (input s') \<and>
    input_abs (input s') = ed_char c (input_abs (input s))"
proof -
  define p where "p = input s"
  have okp: "input_ok p" using ok by (simp add: p_def)
  obtain com ed where abs: "input_abs p = (com, ed)" by fastforce
  have len: "length com + length ed = unat (ie p - ir p)" using abs_length [OF okp] abs by simp
  consider (ctlP) "c = 0x10" | (ctlU) "c = 0x15" | (bs) "c = 8 \<or> c = 0x7F"
    | (other) "c \<noteq> 0x10" "c \<noteq> 0x15" "c \<noteq> 8" "c \<noteq> 0x7F" by blast
  then show ?thesis
  proof cases
    case ctlP
    then show ?thesis using ok sc abs by (simp add: console_char_def flip: p_def)
  next
    case ctlU
    have "input_abs (p\<lparr>ie := iw p\<rparr>) = (com, [])" using abs by (simp add: input_abs_def)
    moreover have "input_ok (p\<lparr>ie := iw p\<rparr>)" using okp by (simp add: input_ok_def input_abs_def)
    moreover obtain s' where "erase (length ed) (s\<lparr>input := p\<lparr>ie := iw p\<rparr>\<rparr>) = Inr s'" "screen_ok s'" "input s' = p\<lparr>ie := iw p\<rparr>"
      using erase_ok [of "s\<lparr>input := p\<lparr>ie := iw p\<rparr>\<rparr>" "length ed"] sc by auto
    ultimately show ?thesis using ctlU abs kill_line_abs [OF okp] by (simp add: console_char_def flip: p_def)
  next
    case bs
    show ?thesis
    proof (cases "ie p = iw p")
      case True
      then have "ed = []" using abs by (auto simp: input_abs_def)
      then show ?thesis using bs True ok sc abs by (auto simp: console_char_def simp flip: p_def)
    next
      case False
      let ?q = "p\<lparr>ie := ie p - 1\<rparr>"
      have a: "input_abs ?q = (com, butlast ed)"
        using ring_content_butlast(1) [OF False, of 7 128 "ibuf p"] abs by (auto simp: input_abs_def)
      moreover have "input_ok ?q" using input_ok_back [OF okp False] .
      moreover obtain s' where "consputc BACKSPACE (s\<lparr>input := ?q\<rparr>) = Inr s'" "screen_ok s'" "input s' = ?q"
        using consputc_ok [of "s\<lparr>input := ?q\<rparr>" BACKSPACE] sc by auto
      ultimately show ?thesis using bs False abs by (auto simp: console_char_def simp flip: p_def)
    qed
  next
    case other
    show ?thesis
    proof (cases "c = 0 \<or> \<not> ie p - ir p < INPUT_BUF")
      case True
      then have "c = 0 \<or> length com + length ed \<ge> 128" using len by (auto simp: word_less_nat_alt INPUT_BUF_def)
      then show ?thesis using True other ok sc abs by (auto simp: console_char_def simp flip: p_def)
    next
      case False
      define d where "d = (if c = 13 then 10 else c)"
      define q where "q = input_put d p"
      have room: "ie p - ir p < INPUT_BUF" using False by simp
      note put = input_put_abs(1,2,3,5) [OF okp room, of d, folded q_def] and lt = input_put_abs(4) [OF okp room]
      have aq: "input_abs q = (com, ed @ [d])" using put(1) abs by simp
      obtain s1 where s1: "consputc (uint d) (s\<lparr>input := q\<rparr>) = Inr s1" "screen_ok s1" "input s1 = q"
        using consputc_ok [of "s\<lparr>input := q\<rparr>" "uint d"] sc by auto
      have full: "ie q = ir q + INPUT_BUF \<longleftrightarrow> length com + length (ed @ [d]) = 128"
      proof -
        have "ie q = ir q + INPUT_BUF \<longleftrightarrow> ie q - ir q = 128" by (auto simp: INPUT_BUF_def algebra_simps)
        also have "\<dots> \<longleftrightarrow> unat (ie q - ir q) = unat (128 :: u32)" by (metis word_unat_eq_iff)
        finally show ?thesis using put(3) len by simp
      qed
      have run: "console_char c s = Inr (if d = 10 \<or> d = 4 \<or> ie q = ir q + INPUT_BUF
        then wakeup ChInput (s1\<lparr>input := q\<lparr>iw := ie q\<rparr>\<rparr>) else s1)"
        using other False s1 by (simp add: console_char_def Let_def flip: p_def d_def q_def)
      have ed: "ed_char c (com, ed) = (if d = 10 \<or> d = 4 \<or> length com + length (ed @ [d]) = 128 then (com @ ed @ [d], []) else (com, ed @ [d]))"
        using other False len lt by (simp add: d_def is_end_def Let_def)
      show ?thesis
      proof (cases "d = 10 \<or> d = 4 \<or> ie q = ir q + INPUT_BUF")
        case True
        let ?q = "q\<lparr>iw := ie q\<rparr>"
        have "input_abs ?q = (com @ ed @ [d], [])"
          using ring_content_split [OF put(2), of 7 "ibuf q"] aq by (simp add: input_abs_def)
        moreover from this have "input_ok ?q" using put(3,4) lt by (simp add: input_ok_def)
        ultimately show ?thesis using True full run ed abs s1(2) by (simp flip: p_def)
      next
        case F: False
        have "input_ok q" using put(2-4) lt F okp abs aq by (auto simp: input_ok_def)
        then show ?thesis using F full run ed abs aq s1 by (simp flip: p_def)
      qed
    qed
  qed
qed

lemma input_get_abs:
  assumes ok: "input_ok p" and ne: "ir p \<noteq> iw p"
  shows "fst (input_abs p) = input_at (ir p) p # fst (input_abs (p\<lparr>ir := ir p + 1\<rparr>))"
    "snd (input_abs (p\<lparr>ir := ir p + 1\<rparr>)) = snd (input_abs p)" "input_ok (p\<lparr>ir := ir p + 1\<rparr>)"
proof -
  show "fst (input_abs p) = input_at (ir p) p # fst (input_abs (p\<lparr>ir := ir p + 1\<rparr>))"
    using ring_content_get [of "iw p" "ir p" 7 "ibuf p"] ne by (simp add: input_abs_def input_at_mod)
  show a: "snd (input_abs (p\<lparr>ir := ir p + 1\<rparr>)) = snd (input_abs p)" by (simp add: input_abs_def)
  have w: "unat (iw p - ir p) = Suc (unat (iw p - (ir p + 1)))" using ne by (intro ring_get_count) simp
  have "ie p \<noteq> ir p" using ok w by (auto simp: input_ok_def)
  then have "unat (ie p - ir p) = Suc (unat (ie p - (ir p + 1)))" by (rule ring_get_count)
  then show "input_ok (p\<lparr>ir := ir p + 1\<rparr>)" using ok w a by (simp add: input_ok_def)
qed

lemma console_take_ok:
  assumes "input_ok p" "console_take n first p = (xs, q, e)"
  shows "input_ok q \<and> snd (input_abs q) = snd (input_abs p) \<and> line_take n first (fst (input_abs p)) = (xs, fst (input_abs q), e)"
  using assms
proof (induction n arbitrary: first p xs q e)
  case (Suc n)
  show ?case
  proof (cases "ir p = iw p")
    case True
    then have "fst (input_abs p) = []" by (simp add: input_abs_def)
    then show ?thesis using Suc.prems True by auto
  next
    case False
    note get = input_get_abs [OF Suc.prems(1) False]
    let ?c = "input_at (ir p) p" and ?p = "p\<lparr>ir := ir p + 1\<rparr>"
    show ?thesis
    proof (cases "?c = 4 \<or> ?c = 10")
      case True
      then show ?thesis using Suc.prems False get by (auto simp: Let_def)
    next
      case other: False
      obtain ys r f where t: "console_take n False ?p = (ys, r, f)" by (metis prod_cases3)
      then have "xs = ?c # ys" "q = r" "e = f" using Suc.prems(2) False other by (auto simp: Let_def)
      then show ?thesis using Suc.IH [OF get(3) t] get other by simp
    qed
  qed
qed simp

text \<open>C38. The console's line discipline. From every well-formed state, any sequence of characters is processed
  without running over the screen or the ring, and the ring with its three indices then represents the
  state of the abstract line editor: Control-U drops the line being edited, backspace its last character, and a
  newline, Control-D or a full buffer commits it. A read takes from the committed input as the
  specification does, up to a newline or Control-D, and leaves the line being edited alone.\<close>

theorem console_line_discipline:
  assumes "input_ok (input s)" "screen_ok s"
  shows "\<exists>s'. consoleintr cs s = Inr s' \<and> screen_ok s' \<and> input_ok (input s') \<and>
    input_abs (input s') = fold ed_char cs (input_abs (input s)) \<and>
    (\<forall>n xs q e. console_take n True (input s') = (xs, q, e) \<longrightarrow>
       input_ok q \<and> snd (input_abs q) = snd (input_abs (input s')) \<and>
       line_take n True (fst (input_abs (input s'))) = (xs, fst (input_abs q), e))"
  using assms
proof (induction cs arbitrary: s)
  case Nil
  then show ?case using console_take_ok [OF Nil(1)] by auto
next
  case (Cons c cs)
  obtain s1 where s1: "console_char c s = Inr s1" "screen_ok s1" "input_ok (input s1)"
    "input_abs (input s1) = ed_char c (input_abs (input s))"
    using console_char_ok [OF Cons.prems] by blast
  from Cons.IH [OF s1(3,2)] show ?case unfolding s1(4) using s1(1) by simp
qed

text \<open>A console whose indices are about to wrap around.\<close>

definition cons0 :: ckern where
  "cons0 = skern.extend (fkern.extend (ikern.extend (lkern.extend (bkern.extend (mkern.extend mxworld \<lparr>memdisk = (\<lambda>_ _. 0), disksize = 1000,
       dwrites = [], bufs = [], mru = []\<rparr>)
     \<lparr>log_start = 2, log_size = 30, outstanding = 0, committing = False, log_dev = 1, lh_n = 0, lh_block = []\<rparr>)
     \<lparr>icache = [], sb = decode_sb (\<lambda>_. 0)\<rparr>) \<lparr>ftable = [], pipes = (\<lambda>_. pipe1)\<rparr>) \<lparr>ticks = 0, forkret_first = True\<rparr>)
     \<lparr>input = \<lparr>ibuf = replicate 128 0, ir = 0xFFFFFFFF, iw = 0xFFFFFFFF, ie = 0xFFFFFFFF\<rparr>, uart_out = [], crt = replicate 2000 0,
       crt_pos = 0, kbd_shift = 0\<rparr>"

theorem console_line_discipline_witness:
  "\<exists>s'. consoleintr [97, 98, 8, 99, 13] cons0 = Inr s' \<and> input_abs (input s') = ([97, 99, 10], []) \<and>
    (\<exists>q. console_take 100 True (input s') = ([97, 99, 10], q, False))"
proof -
  have c: "input cons0 = \<lparr>ibuf = replicate 128 0, ir = 0xFFFFFFFF, iw = 0xFFFFFFFF, ie = 0xFFFFFFFF\<rparr>"
    "crt cons0 = replicate 2000 0" "crt_pos cons0 = 0"
    by (simp_all add: cons0_def skern.defs fkern.defs ikern.defs lkern.defs bkern.defs mkern.defs)
  have a: "input_abs (input cons0) = ([], [])" by (simp add: c input_abs_def)
  then have "input_ok (input cons0)" "screen_ok cons0" by (simp_all add: c input_ok_def screen_ok_def)
  from console_line_discipline [OF this, of "[97, 98, 8, 99, 13]"] obtain s' where
    s': "consoleintr [97, 98, 8, 99, 13] cons0 = Inr s'" "input_abs (input s') = fold ed_char [97, 98, 8, 99, 13] ([], [])"
    "\<And>n xs q e. console_take n True (input s') = (xs, q, e) \<Longrightarrow>
       line_take n True (fst (input_abs (input s'))) = (xs, fst (input_abs q), e)"
    unfolding a by blast
  have f: "fold ed_char [97, 98, 8, 99, 13] ([], []) = ([97, 99, 10], [])" by code_simp
  obtain xs q e where t: "console_take 100 True (input s') = (xs, q, e)" by (rule prod_cases3)
  have "line_take 100 True [97, 99, 10] = ([97, 99, 10], [], False)" by code_simp
  then have "xs = [97, 99, 10]" "e = False" using s'(3) [OF t] unfolding s'(2) f by simp_all
  then show ?thesis using s'(1) s'(2) t unfolding f by blast
qed

end
