(* ===== verification/Trap.thy ===== *)
theory Trap
  imports ConsoleProps
begin

text \<open>
  \<^verbatim>\<open>trap\<close> (\<^verbatim>\<open>trap.c\<close>): system calls, device interrupts and faults. The result says whether \<^verbatim>\<open>trap\<close> has returned to
  the interrupted code, or the process has left the CPU in it, by a call that sleeps, by \<^verbatim>\<open>exit\<close> or by \<^verbatim>\<open>yield\<close>;
  after \<^verbatim>\<open>yield\<close> it continues with \<open>trap_resume\<close>. \<open>cpuid\<close> is the CPU's number, \<open>port\<close> the bytes that the
  keyboard or serial controller has ready.
\<close>

definition T_SYSCALL :: u32 where "T_SYSCALL = 64"
definition T_IRQ0 :: u32 where "T_IRQ0 = 32"
definition IRQ_TIMER :: u32 where "IRQ_TIMER = 0"
definition IRQ_KBD :: u32 where "IRQ_KBD = 1"
definition IRQ_COM1 :: u32 where "IRQ_COM1 = 4"
definition IRQ_IDE :: u32 where "IRQ_IDE = 14"
definition IRQ_SPURIOUS :: u32 where "IRQ_SPURIOUS = 31"

definition gone :: "'s outcome \<Rightarrow> (bool \<times> 's) outcome" where
  "gone m = run m (\<lambda>s. Inr (False, s))"

definition is_killed :: "'z kern_scheme \<Rightarrow> bool" where
  "is_killed s = (case curproc s of None \<Rightarrow> False | Some me \<Rightarrow> killed (ptable s ! me))"

definition trap_syscall :: "'z ckern_scheme env \<Rightarrow> trapframe \<Rightarrow> 'z ckern_scheme \<Rightarrow> (bool \<times> 'z ckern_scheme) outcome" where
  "trap_syscall e f s = with_proc s (\<lambda>me.
     if is_killed s then gone (exit (env_kend e) s)
     else run (syscall e (upd_proc me (\<lambda>p. p\<lparr>tf := f\<rparr>) s)) (\<lambda>(r, s).
       if \<not> r then Inr (False, s)
       else if is_killed s then gone (exit (env_kend e) s)
       else Inr (True, s)))"

text \<open>The \<^verbatim>\<open>switch\<close> over the interrupts.\<close>

definition trap_irq :: "nat \<Rightarrow> u8 list \<Rightarrow> trapframe \<Rightarrow> 'z ckern_scheme \<Rightarrow> 'z ckern_scheme outcome" where
  "trap_irq cpuid port f s =
     (if tf_trapno f = T_IRQ0 + IRQ_TIMER then
        Inr (if cpuid = 0 then wakeup ChTicks (s\<lparr>ticks := ticks s + 1\<rparr>) else s)
      else if tf_trapno f = T_IRQ0 + IRQ_IDE \<or> tf_trapno f = T_IRQ0 + IRQ_IDE + 1 then Inr s
      else if tf_trapno f = T_IRQ0 + IRQ_KBD then kbdintr port s
      else if tf_trapno f = T_IRQ0 + IRQ_COM1 then uartintr port s
      else if tf_trapno f = T_IRQ0 + 7 \<or> tf_trapno f = T_IRQ0 + IRQ_SPURIOUS then Inr s
      else
        case curproc s of
          None \<Rightarrow> Inl (Panic ''trap'')
        | Some me \<Rightarrow>
            if tf_cs f AND 3 = 0 then Inl (Panic ''trap'')
            else Inr (upd_proc me (\<lambda>p. p\<lparr>killed := True\<rparr>) s))"

definition trap_resume :: "'z ckern_scheme env \<Rightarrow> trapframe \<Rightarrow> 'z ckern_scheme \<Rightarrow> (bool \<times> 'z ckern_scheme) outcome" where
  "trap_resume e f s = (if is_killed s \<and> tf_cs f AND 3 = 3 then gone (exit (env_kend e) s) else Inr (True, s))"

definition trap :: "'z ckern_scheme env \<Rightarrow> nat \<Rightarrow> u8 list \<Rightarrow> trapframe \<Rightarrow> 'z ckern_scheme \<Rightarrow> (bool \<times> 'z ckern_scheme) outcome" where
  "trap e cpuid port f s =
     (if tf_trapno f = T_SYSCALL then trap_syscall e f s
      else run (trap_irq cpuid port f s) (\<lambda>s.
        if is_killed s \<and> tf_cs f AND 3 = 3 then gone (exit (env_kend e) s)
        else if (case curproc s of None \<Rightarrow> False | Some me \<Rightarrow> state (ptable s ! me) = RUNNING) \<and> tf_trapno f = T_IRQ0 + IRQ_TIMER
        then gone (yield s)
        else trap_resume e f s))"

end
