(* ===== verification/Grep.thy ===== *)
theory Grep
  imports CString
begin

text \<open>
  \<^verbatim>\<open>grep.c\<close>: the regular-expression matcher and the line loop. A NUL-terminated string is the list of its bytes
  before the terminator, so reading the terminator is the case of the empty list. The matcher is proved equivalent to a
  denotational reading of the pattern, and the loop to print exactly the matching lines of its input.
\<close>

section \<open>The matcher\<close>

function (sequential) matchhere :: "u8 list \<Rightarrow> u8 list \<Rightarrow> bool"
  and matchstar :: "u8 \<Rightarrow> u8 list \<Rightarrow> u8 list \<Rightarrow> bool" where
  "matchhere [] xs = True"
| "matchhere (c # re) xs =
     (if re \<noteq> [] \<and> hd re = 42 then matchstar c (tl re) xs
      else if c = 36 \<and> re = [] then xs = []
      else if xs \<noteq> [] \<and> (c = 46 \<or> c = hd xs) then matchhere re (tl xs)
      else False)"
| "matchstar c re xs =
     (if matchhere re xs then True
      else if xs \<noteq> [] \<and> (hd xs = c \<or> c = 46) then matchstar c re (tl xs)
      else False)"
  by pat_completeness auto
termination
  by (relation "measures [case_sum (\<lambda>(re, xs). 2 * length re) (\<lambda>(c, re, xs). 2 * length re + 1),
        case_sum (\<lambda>(re, xs). length xs) (\<lambda>(c, re, xs). length xs)]")
    (auto simp: neq_Nil_conv)

declare matchstar.simps [simp del]

text \<open>The unanchored search of \<^verbatim>\<open>match\<close>: every suffix of the text, the empty one included.\<close>

primrec match_from :: "u8 list \<Rightarrow> u8 list \<Rightarrow> bool" where
  "match_from re [] \<longleftrightarrow> matchhere re []"
| "match_from re (x # xs) \<longleftrightarrow> matchhere re (x # xs) \<or> match_from re xs"

definition match :: "u8 list \<Rightarrow> u8 list \<Rightarrow> bool" where
  "match re xs = (if re \<noteq> [] \<and> hd re = 94 then matchhere (tl re) xs else match_from re xs)"

section \<open>The line loop\<close>

text \<open>
  The inner loop over the bytes from \<^verbatim>\<open>p\<close> on: \<^verbatim>\<open>strchr\<close> looks for a newline before the first NUL. The result is
  what is written and the bytes from the final \<^verbatim>\<open>p\<close> on.
\<close>

definition newline_at :: "u8 list \<Rightarrow> nat option" where
  "newline_at xs = scan (\<lambda>x. x = 10) (takeWhile (\<lambda>x. x \<noteq> 0) xs)"

function grep_scan :: "u8 list \<Rightarrow> u8 list \<Rightarrow> u8 list \<times> u8 list" where
  "grep_scan pattern xs =
     (case newline_at xs of
        None \<Rightarrow> ([], xs)
      | Some q \<Rightarrow>
          let (out, rest) = grep_scan pattern (drop (q + 1) xs)
          in ((if match pattern (take q xs) then take (q + 1) xs else []) @ out, rest))"
  by auto
termination
proof (relation "measure (\<lambda>(p, xs). length xs)")
  fix pattern xs q
  assume "newline_at xs = Some q"
  then have "q < length (takeWhile (\<lambda>x. x \<noteq> 0) xs)" unfolding newline_at_def by (rule scan_SomeD)
  also have "\<dots> \<le> length xs" by (rule length_takeWhile_le)
  finally show "((pattern, drop (q + 1) xs), pattern, xs) \<in> measure (\<lambda>(p, xs). length xs)" by simp
qed simp

declare grep_scan.simps [simp del]

text \<open>
  The outer loop: \<open>chunks\<close> are the results of \<^verbatim>\<open>read\<close>, \<open>pend\<close> the \<^verbatim>\<open>m\<close> bytes at the start of the buffer. When no
  line was complete (\<^verbatim>\<open>p == buf\<close>) the buffer is emptied.
\<close>

primrec grep_from :: "u8 list \<Rightarrow> u8 list \<Rightarrow> u8 list list \<Rightarrow> u8 list" where
  "grep_from pattern pend [] = []"
| "grep_from pattern pend (xs # chunks) =
     (let (out, rest) = grep_scan pattern (pend @ xs)
      in out @ grep_from pattern (if length rest = length (pend @ xs) then [] else rest) chunks)"

definition grep :: "u8 list \<Rightarrow> u8 list list \<Rightarrow> u8 list" where
  "grep pattern chunks = grep_from pattern [] chunks"

section \<open>What a pattern denotes\<close>

datatype item = One u8 | Many u8

text \<open>The items of a pattern, and whether it ends with the end-of-line anchor.\<close>

function (sequential) items :: "u8 list \<Rightarrow> item list \<times> bool" where
  "items [] = ([], False)"
| "items (c # re) =
     (if re \<noteq> [] \<and> hd re = 42 then apfst ((#) (Many c)) (items (tl re))
      else if c = 36 \<and> re = [] then ([], True)
      else apfst ((#) (One c)) (items re))"
  by pat_completeness auto
termination
  by (relation "measure length") (auto simp: neq_Nil_conv)

definition unit_ok :: "u8 \<Rightarrow> u8 \<Rightarrow> bool" where
  "unit_ok c x \<longleftrightarrow> c = 46 \<or> c = x"

inductive lang :: "item list \<Rightarrow> u8 list \<Rightarrow> bool" where
  lang_Nil: "lang [] []"
| lang_One: "unit_ok c x \<Longrightarrow> lang ts w \<Longrightarrow> lang (One c # ts) (x # w)"
| lang_Many_none: "lang ts w \<Longrightarrow> lang (Many c # ts) w"
| lang_Many_more: "unit_ok c x \<Longrightarrow> lang (Many c # ts) w \<Longrightarrow> lang (Many c # ts) (x # w)"

inductive_simps lang_Nil_simps: "lang [] w"
inductive_simps lang_One_simps: "lang (One c # ts) w"
inductive_simps lang_Many_simps: "lang (Many c # ts) w"

text \<open>A prefix of \<open>xs\<close> is in the language, and all of \<open>xs\<close> if the pattern is anchored at the end.\<close>

definition prefix_in :: "item list \<times> bool \<Rightarrow> u8 list \<Rightarrow> bool" where
  "prefix_in r xs \<longleftrightarrow> (\<exists>w post. xs = w @ post \<and> lang (fst r) w \<and> (snd r \<longrightarrow> post = []))"

lemma prefix_in_One:
  "prefix_in (One c # ts, e) xs \<longleftrightarrow> xs \<noteq> [] \<and> unit_ok c (hd xs) \<and> prefix_in (ts, e) (tl xs)"
proof (cases xs)
  case Nil
  then show ?thesis by (auto simp: prefix_in_def lang_One_simps)
next
  case (Cons x ys)
  then show ?thesis by (auto simp: prefix_in_def lang_One_simps Cons_eq_append_conv)
qed

lemma prefix_in_Many:
  "prefix_in (Many c # ts, e) xs \<longleftrightarrow> prefix_in (ts, e) xs \<or> xs \<noteq> [] \<and> unit_ok c (hd xs) \<and> prefix_in (Many c # ts, e) (tl xs)"
proof (cases xs)
  case Nil
  have "lang (Many c # ts) [] \<longleftrightarrow> lang ts []" by (subst lang_Many_simps) simp
  then show ?thesis using Nil by (auto simp: prefix_in_def)
next
  case (Cons x ys)
  have "prefix_in (Many c # ts, e) xs \<longleftrightarrow>
      (\<exists>w post. xs = w @ post \<and> lang ts w \<and> (e \<longrightarrow> post = [])) \<or>
      (\<exists>y w post. xs = (y # w) @ post \<and> unit_ok c y \<and> lang (Many c # ts) w \<and> (e \<longrightarrow> post = []))"
    unfolding prefix_in_def fst_conv snd_conv by (subst lang_Many_simps) blast
  then show ?thesis using Cons by (auto simp: prefix_in_def)
qed

lemma matchhere_items:
  "matchhere re xs \<longleftrightarrow> prefix_in (items re) xs"
  "matchstar c re xs \<longleftrightarrow> prefix_in (apfst ((#) (Many c)) (items re)) xs"
proof (induction re xs and c re xs rule: matchhere_matchstar.induct)
  case (1 xs)
  then show ?case by (auto simp: prefix_in_def lang_Nil_simps)
next
  case (2 c re xs)
  show ?case
  proof (cases "re \<noteq> [] \<and> hd re = 42")
    case True
    then show ?thesis using 2(1) by simp
  next
    case False
    show ?thesis
    proof (cases "c = 36 \<and> re = []")
      case True
      then show ?thesis by (auto simp: prefix_in_def lang_Nil_simps)
    next
      case no: False
      obtain ts e where r: "items re = (ts, e)" by (cases "items re")
      then show ?thesis using False no 2(2) prefix_in_One [of c "ts" e xs] by (auto simp: unit_ok_def)
    qed
  qed
next
  case (3 c re xs)
  obtain ts e where r: "items re = (ts, e)" by (cases "items re")
  have u: "unit_ok c (hd xs) \<longleftrightarrow> hd xs = c \<or> c = 46" by (auto simp: unit_ok_def)
  show ?case
    using 3 unfolding matchstar.simps [of c re xs] r apfst_conv prefix_in_Many [of c "ts" e xs] u by auto
qed

lemma match_from_items: "match_from re xs \<longleftrightarrow> (\<exists>pre suf. xs = pre @ suf \<and> prefix_in (items re) suf)"
proof (induction xs)
  case (Cons x xs)
  then show ?case by (auto simp: matchhere_items Cons_eq_append_conv)
qed (simp add: matchhere_items)

text \<open>C14. \<^verbatim>\<open>match\<close> decides the language of the pattern: it accepts a text exactly if some substring of it is a
  concatenation of what the pattern's items stand for, a \<^verbatim>\<open>.\<close> standing for any byte and a starred item for any
  number of repetitions; the substring starts the text if the pattern starts with \<^verbatim>\<open>^\<close> and ends it if the pattern
  ends with \<^verbatim>\<open>$\<close>.\<close>

theorem match_denotes:
  "match re xs \<longleftrightarrow>
     (let front = (re \<noteq> [] \<and> hd re = 94); r = items (if front then tl re else re)
      in \<exists>pre w post. xs = pre @ w @ post \<and> lang (fst r) w \<and> (if front then pre = [] else True) \<and> (if snd r then post = [] else True))"
  unfolding match_def Let_def matchhere_items match_from_items prefix_in_def by auto

section \<open>What the loop prints\<close>

text \<open>The newline-terminated lines of a text, after a line's beginning \<open>acc\<close>, and the bytes after the last of them.\<close>

primrec lines_after :: "u8 list \<Rightarrow> u8 list \<Rightarrow> u8 list list" where
  "lines_after acc [] = []"
| "lines_after acc (x # xs) = (if x = 10 then acc # lines_after [] xs else lines_after (acc @ [x]) xs)"

primrec tail_after :: "u8 list \<Rightarrow> u8 list \<Rightarrow> u8 list" where
  "tail_after acc [] = acc"
| "tail_after acc (x # xs) = (if x = 10 then tail_after [] xs else tail_after (acc @ [x]) xs)"

definition matching_lines :: "u8 list \<Rightarrow> u8 list \<Rightarrow> u8 list" where
  "matching_lines pattern xs = concat (map (\<lambda>l. l @ [10]) (filter (match pattern) (lines_after [] xs)))"

lemma lines_after_append: "lines_after acc (xs @ ys) = lines_after acc xs @ lines_after (tail_after acc xs) ys"
  by (induction xs arbitrary: acc) auto

lemma tail_after_append: "tail_after acc (xs @ ys) = tail_after (tail_after acc xs) ys"
  by (induction xs arbitrary: acc) auto

lemma after_no_newline: "10 \<notin> set xs \<Longrightarrow> lines_after acc xs = [] \<and> tail_after acc xs = acc @ xs"
  by (induction xs arbitrary: acc) auto

lemma lines_after_start: "10 \<notin> set acc \<Longrightarrow> lines_after [] (acc @ xs) = lines_after acc xs"
  by (simp add: lines_after_append after_no_newline)

lemma tail_after_no_newline: "10 \<notin> set acc \<Longrightarrow> 10 \<notin> set (tail_after acc xs)"
  by (induction xs arbitrary: acc) auto

lemma tail_after_set: "set (tail_after acc xs) \<subseteq> set acc \<union> set xs"
proof (induction xs arbitrary: acc)
  case (Cons x xs)
  then show ?case using Cons [of "[]"] Cons [of "acc @ [x]"] by auto
qed simp

lemma tail_after_shorter: "10 \<in> set xs \<Longrightarrow> length (tail_after acc xs) < length acc + length xs"
proof (induction xs arbitrary: acc)
  case (Cons x xs)
  show ?case
  proof (cases "x = 10")
    case True
    show ?thesis
    proof (cases "10 \<in> set xs")
      case True
      then show ?thesis using Cons.IH [of "[]"] \<open>x = 10\<close> by simp
    next
      case False
      then show ?thesis using after_no_newline [of xs "[]"] True by simp
    qed
  next
    case False
    then show ?thesis using Cons.IH [of "acc @ [x]"] Cons.prems by simp
  qed
qed simp

lemma grep_scan_eq: "0 \<notin> set xs \<Longrightarrow> grep_scan pattern xs = (matching_lines pattern xs, tail_after [] xs)"
proof (induction pattern xs rule: grep_scan.induct)
  case (1 pattern xs)
  have t: "takeWhile (\<lambda>x. x \<noteq> 0) xs = xs" using "1.prems" by (auto simp: takeWhile_eq_all_conv)
  show ?case
  proof (cases "newline_at xs")
    case None
    then have "10 \<notin> set xs" unfolding newline_at_def t by (auto simp: scan_None_iff)
    then show ?thesis using None after_no_newline [of xs "[]"] by (simp add: grep_scan.simps [of pattern xs] matching_lines_def)
  next
    case (Some q)
    then have q: "q < length xs" "xs ! q = 10" "\<forall>j < q. xs ! j \<noteq> 10" unfolding newline_at_def t by (auto simp: scan_Some_iff)
    define l r where "l = take q xs" and "r = drop (q + 1) xs"
    have x: "xs = l @ 10 # r" unfolding l_def r_def using q(1,2) by (metis Suc_eq_plus1 append_take_drop_id Cons_nth_drop_Suc)
    have l: "10 \<notin> set l" unfolding l_def using q(3) by (auto simp: in_set_conv_nth)
    have "lines_after [] xs = l # lines_after [] r" "tail_after [] xs = tail_after [] r"
      unfolding x using l by (simp_all add: lines_after_append tail_after_append after_no_newline)
    moreover have "grep_scan pattern r = (matching_lines pattern r, tail_after [] r)"
      using "1.IH" [OF Some] "1.prems" unfolding r_def by (metis in_set_dropD)
    moreover have "take (Suc q) xs = l @ [10]" "take q xs = l" "drop (Suc q) xs = r"
      using q(1,2) by (simp_all add: l_def r_def take_Suc_conv_app_nth)
    ultimately show ?thesis
      using Some unfolding grep_scan.simps [of pattern xs] by (simp add: matching_lines_def)
  qed
qed

lemma grep_from_eq:
  assumes "\<forall>xs \<in> set chunks. 0 \<notin> set xs" "\<forall>xs \<in> set (butlast chunks). 10 \<in> set xs" "0 \<notin> set pend" "10 \<notin> set pend"
  shows "grep_from pattern pend chunks = matching_lines pattern (pend @ concat chunks)"
  using assms
proof (induction chunks arbitrary: pend)
  case Nil
  then show ?case by (simp add: matching_lines_def after_no_newline)
next
  case (Cons xs chunks)
  define rest where "rest = tail_after [] (pend @ xs)"
  have s: "grep_scan pattern (pend @ xs) = (matching_lines pattern (pend @ xs), rest)"
    using grep_scan_eq [of "pend @ xs" pattern] Cons.prems(1,3) unfolding rest_def by auto
  have r: "0 \<notin> set rest" "10 \<notin> set rest"
    using tail_after_set [of "[]" "pend @ xs"] tail_after_no_newline [of "[]" "pend @ xs"] Cons.prems(1,3) unfolding rest_def by auto
  show ?case
  proof (cases "chunks = []")
    case True
    then show ?thesis by (simp add: s)
  next
    case False
    then have n: "10 \<in> set xs" "\<forall>xs \<in> set (butlast chunks). 10 \<in> set xs" using Cons.prems(2) by auto
    have "length rest < length (pend @ xs)" using tail_after_shorter [of "pend @ xs" "[]"] n(1) unfolding rest_def by simp
    then have "grep_from pattern pend (xs # chunks) = matching_lines pattern (pend @ xs) @ matching_lines pattern (rest @ concat chunks)"
      using Cons.IH [OF _ n(2) r] Cons.prems(1) by (simp add: s)
    also have "\<dots> = matching_lines pattern (pend @ concat (xs # chunks))"
      using lines_after_append [of "[]" "pend @ xs" "concat chunks"] lines_after_start [OF r(2)]
      by (simp add: matching_lines_def rest_def)
    finally show ?thesis .
  qed
qed



text \<open>A line that arrives in two pieces is lost, because the first piece has no complete line.\<close>

lemma grep_loses_split_line:
  "grep [104] [[104, 101], [108, 108, 111, 10]] = []" "matching_lines [104] (concat [[104, 101], [108, 108, 111, 10]]) = [104, 101, 108, 108, 111, 10]"
proof -
  show "grep [104] [[104, 101], [108, 108, 111, 10]] = []"
    by (simp add: grep_def grep_scan.simps newline_at_def match_def)
  show "matching_lines [104] (concat [[104, 101], [108, 108, 111, 10]]) = [104, 101, 108, 108, 111, 10]"
    by (simp add: matching_lines_def match_def)
qed

end
