(* ===== verification/Shell.thy ===== *)
theory Shell
  imports CString
begin

text \<open>
  The command parser of \<^verbatim>\<open>sh.c\<close>. The input line is an array \<open>b\<close> of bytes, a pointer into it an index; \<^verbatim>\<open>es\<close> is the index
  of the terminating NUL. \<^verbatim>\<open>panic\<close> prints and exits, so it is an outcome of the parser. The parser's recursion and its loops
  spend fuel, one unit per call or iteration, and \<^const>\<open>Spin\<close> stands for running out of it; \<open>parsecmd\<close> gives four units
  per byte and four more, which is proved to be always enough. The nodes that the constructors take from \<^verbatim>\<open>malloc\<close> are values
  of a datatype.
\<close>

section \<open>Commands\<close>

text \<open>Words are pairs of the indices of their first byte and of the byte after the last one.\<close>

type_synonym shword = "nat \<times> nat"

datatype cmd =
  EXECcmd "shword list"
| REDIRcmd cmd shword u32 nat
| PIPEcmd cmd cmd
| LISTcmd cmd cmd
| BACKcmd cmd

definition MAXARGS :: nat where "MAXARGS = 10"

definition whitespace :: "u8 list" where "whitespace = [32, 9, 13, 10, 11]"
definition symbols :: "u8 list" where "symbols = [60, 124, 62, 38, 59, 40, 41]"

section \<open>Tokens\<close>

function skip_ws :: "bytes \<Rightarrow> nat \<Rightarrow> nat \<Rightarrow> nat" where
  "skip_ws b es s = (if s < es \<and> b s \<in> set whitespace then skip_ws b es (s + 1) else s)"
  by auto
termination
  by (relation "measure (\<lambda>(b, es, s). es - s)") auto

function skip_word :: "bytes \<Rightarrow> nat \<Rightarrow> nat \<Rightarrow> nat" where
  "skip_word b es s = (if s < es \<and> b s \<notin> set whitespace \<and> b s \<notin> set symbols then skip_word b es (s + 1) else s)"
  by auto
termination
  by (relation "measure (\<lambda>(b, es, s). es - s)") auto

declare skip_ws.simps [simp del] skip_word.simps [simp del]

text \<open>The token, the word it covers, and the new position.\<close>

definition gettoken :: "bytes \<Rightarrow> nat \<Rightarrow> nat \<Rightarrow> u8 \<times> shword \<times> nat" where
  "gettoken b es s =
     (let q = skip_ws b es s;
          (ret, eq) = (if b q = 0 then (0, q)
            else if b q \<in> {124, 40, 41, 59, 38, 60} then (b q, q + 1)
            else if b q = 62 then (if b (q + 1) = 62 then (43, q + 2) else (62, q + 1))
            else (97, skip_word b es q))
      in (ret, (q, eq), skip_ws b es eq))"

definition peek :: "bytes \<Rightarrow> nat \<Rightarrow> nat \<Rightarrow> u8 list \<Rightarrow> bool \<times> nat" where
  "peek b es s toks = (let s = skip_ws b es s in (b s \<noteq> 0 \<and> b s \<in> set toks, s))"

abbreviation next_pos :: "bytes \<Rightarrow> nat \<Rightarrow> nat \<Rightarrow> nat" where
  "next_pos b es s \<equiv> snd (snd (gettoken b es s))"

section \<open>The parser\<close>

primrec parseredirs :: "nat \<Rightarrow> cmd \<Rightarrow> bytes \<Rightarrow> nat \<Rightarrow> nat \<Rightarrow> (cmd \<times> nat) outcome" where
  "parseredirs 0 cmd b es s = Inl Spin"
| "parseredirs (Suc n) cmd b es s =
     (let (more, s) = peek b es s [60, 62]
      in if \<not> more then Inr (cmd, s)
         else
           let (tok, _, s) = gettoken b es s; (tok', w, s) = gettoken b es s
           in if tok' \<noteq> 97 then Inl (Panic ''missing file for redirection'')
              else
                parseredirs n
                  (if tok = 60 then REDIRcmd cmd w 0 0
                   else if tok = 62 then REDIRcmd cmd w 0x201 1
                   else if tok = 43 then REDIRcmd cmd w 0x201 1
                   else cmd) b es s)"

text \<open>The argument list of the \<^verbatim>\<open>execcmd\<close> node inside the redirections put around it.\<close>

primrec set_argv :: "shword list \<Rightarrow> cmd \<Rightarrow> cmd" where
  "set_argv ws (EXECcmd _) = EXECcmd ws"
| "set_argv ws (REDIRcmd c w m f) = REDIRcmd (set_argv ws c) w m f"
| "set_argv ws (PIPEcmd l r) = PIPEcmd l r"
| "set_argv ws (LISTcmd l r) = LISTcmd l r"
| "set_argv ws (BACKcmd c) = BACKcmd c"

text \<open>The loop of \<^verbatim>\<open>parseexec\<close> over the words; \<open>ws\<close> holds \<^verbatim>\<open>argv[0]\<close> to \<^verbatim>\<open>argv[argc-1]\<close>.\<close>

primrec parseargs :: "nat \<Rightarrow> cmd \<Rightarrow> shword list \<Rightarrow> bytes \<Rightarrow> nat \<Rightarrow> nat \<Rightarrow> (cmd \<times> nat) outcome" where
  "parseargs 0 ret ws b es s = Inl Spin"
| "parseargs (Suc n) ret ws b es s =
     (let (stop, s) = peek b es s [124, 41, 38, 59]
      in if stop then Inr (set_argv ws ret, s)
         else
           let (tok, w, s) = gettoken b es s
           in if tok = 0 then Inr (set_argv ws ret, s)
              else if tok \<noteq> 97 then Inl (Panic ''syntax'')
              else if length ws + 1 \<ge> MAXARGS then Inl (Panic ''too many args'')
              else run (parseredirs n ret b es s) (\<lambda>(ret, s). parseargs n ret (ws @ [w]) b es s))"

primrec parseback :: "nat \<Rightarrow> cmd \<Rightarrow> bytes \<Rightarrow> nat \<Rightarrow> nat \<Rightarrow> (cmd \<times> nat) outcome" where
  "parseback 0 cmd b es s = Inl Spin"
| "parseback (Suc n) cmd b es s =
     (let (more, s) = peek b es s [38]
      in if more then parseback n (BACKcmd cmd) b es (next_pos b es s) else Inr (cmd, s))"

function (sequential) parseline :: "nat \<Rightarrow> bytes \<Rightarrow> nat \<Rightarrow> nat \<Rightarrow> (cmd \<times> nat) outcome"
  and parsepipe :: "nat \<Rightarrow> bytes \<Rightarrow> nat \<Rightarrow> nat \<Rightarrow> (cmd \<times> nat) outcome"
  and parseexec :: "nat \<Rightarrow> bytes \<Rightarrow> nat \<Rightarrow> nat \<Rightarrow> (cmd \<times> nat) outcome"
  and parseblock :: "nat \<Rightarrow> bytes \<Rightarrow> nat \<Rightarrow> nat \<Rightarrow> (cmd \<times> nat) outcome" where
  "parseline 0 b es s = Inl Spin"
| "parseline (Suc n) b es s =
     run (parsepipe n b es s) (\<lambda>(cmd, s).
     run (parseback n cmd b es s) (\<lambda>(cmd, s).
       let (semi, s) = peek b es s [59]
       in if semi then run (parseline n b es (next_pos b es s)) (\<lambda>(right, s). Inr (LISTcmd cmd right, s))
          else Inr (cmd, s)))"
| "parsepipe 0 b es s = Inl Spin"
| "parsepipe (Suc n) b es s =
     run (parseexec n b es s) (\<lambda>(cmd, s).
       let (bar, s) = peek b es s [124]
       in if bar then run (parsepipe n b es (next_pos b es s)) (\<lambda>(right, s). Inr (PIPEcmd cmd right, s))
          else Inr (cmd, s))"
| "parseexec 0 b es s = Inl Spin"
| "parseexec (Suc n) b es s =
     (let (paren, s) = peek b es s [40]
      in if paren then parseblock n b es s
         else run (parseredirs n (EXECcmd []) b es s) (\<lambda>(ret, s). parseargs n ret [] b es s))"
| "parseblock 0 b es s = Inl Spin"
| "parseblock (Suc n) b es s =
     (let (paren, s) = peek b es s [40]
      in if \<not> paren then Inl (Panic ''parseblock'')
         else
           run (parseline n b es (next_pos b es s)) (\<lambda>(cmd, s).
             let (close, s) = peek b es s [41]
             in if \<not> close then Inl (Panic ''syntax - missing )'')
                else parseredirs n cmd b es (next_pos b es s)))"
  by pat_completeness auto
termination
  by (relation "measure (case_sum (case_sum fst fst) (case_sum fst fst))") auto

primrec nulterminate :: "cmd \<Rightarrow> bytes \<Rightarrow> bytes" where
  "nulterminate (EXECcmd ws) b = fold (\<lambda>w b. b(snd w := 0)) ws b"
| "nulterminate (REDIRcmd c w m f) b = (nulterminate c b)(snd w := 0)"
| "nulterminate (PIPEcmd l r) b = nulterminate r (nulterminate l b)"
| "nulterminate (LISTcmd l r) b = nulterminate r (nulterminate l b)"
| "nulterminate (BACKcmd c) b = nulterminate c b"

text \<open>\<^verbatim>\<open>strlen\<close> of a line without terminator does not return; the line is the array's only content here.\<close>

definition parsecmd :: "bytes \<Rightarrow> (cmd \<times> bytes) outcome" where
  "parsecmd b =
     (case strlen b of
        None \<Rightarrow> Inl Spin
      | Some es \<Rightarrow>
          run (parseline (4 * es + 4) b es 0) (\<lambda>(cmd, s).
            let (_, s) = peek b es s []
            in if s \<noteq> es then Inl (Panic ''syntax'') else Inr (cmd, nulterminate cmd b)))"

section \<open>Tokens are delimited words\<close>

definition delimiter :: "u8 \<Rightarrow> bool" where
  "delimiter c \<longleftrightarrow> c \<in> set whitespace \<or> c \<in> set symbols"

definition good_word :: "bytes \<Rightarrow> nat \<Rightarrow> shword \<Rightarrow> bool" where
  "good_word b es w \<longleftrightarrow> fst w < snd w \<and> snd w \<le> es \<and> (\<forall>i. fst w \<le> i \<and> i < snd w \<longrightarrow> \<not> delimiter (b i) \<and> b i \<noteq> 0) \<and>
     (snd w = es \<or> delimiter (b (snd w)))"

lemma skip_ws_bounds: "s \<le> es \<Longrightarrow> s \<le> skip_ws b es s \<and> skip_ws b es s \<le> es"
proof (induction b es s rule: skip_ws.induct)
  case (1 b es s)
  then show ?case by (cases "s < es \<and> b s \<in> set whitespace") (auto simp: skip_ws.simps [of b es s])
qed

lemma skip_ws_stop: "skip_ws b es s < es \<Longrightarrow> b (skip_ws b es s) \<notin> set whitespace"
proof (induction b es s rule: skip_ws.induct)
  case (1 b es s)
  then show ?case by (cases "s < es \<and> b s \<in> set whitespace") (auto simp: skip_ws.simps [of b es s])
qed

lemma skip_ws_idem: "skip_ws b es (skip_ws b es s) = skip_ws b es s"
  using skip_ws_stop [of b es s] by (subst (1) skip_ws.simps) auto

lemma skip_word_word:
  "s \<le> es \<Longrightarrow> s \<le> skip_word b es s \<and> skip_word b es s \<le> es \<and> (\<forall>i. s \<le> i \<and> i < skip_word b es s \<longrightarrow> \<not> delimiter (b i)) \<and>
     (skip_word b es s = es \<or> delimiter (b (skip_word b es s)))"
proof (induction b es s rule: skip_word.induct)
  case (1 b es s)
  show ?case
  proof (cases "s < es \<and> b s \<notin> set whitespace \<and> b s \<notin> set symbols")
    case True
    have e: "skip_word b es s = skip_word b es (s + 1)" using True by (simp add: skip_word.simps [of b es s])
    have "\<not> delimiter (b s)" using True by (simp add: delimiter_def)
    moreover have "s + 1 \<le> es" using True by simp
    note h = "1.IH" [OF True this]
    moreover have "\<not> delimiter (b i)" if "s \<le> i" "i < skip_word b es (s + 1)" for i
      using h \<open>\<not> delimiter (b s)\<close> that by (cases "i = s") auto
    ultimately show ?thesis unfolding e by auto
  next
    case False
    then show ?thesis using "1.prems" by (auto simp: skip_word.simps [of b es s] delimiter_def)
  qed
qed

lemma nul_at_less: "nul_at b es \<Longrightarrow> s \<le> es \<Longrightarrow> b s \<noteq> 0 \<longleftrightarrow> s < es"
  by (auto simp: nul_at_def le_less)

lemma gettoken_ok:
  assumes line: "nul_at b es" and s: "s \<le> es" and t: "gettoken b es s = (tok, w, s')"
  shows "s \<le> s' \<and> s' \<le> es" "skip_ws b es s < es \<Longrightarrow> s < s'" "tok = 0 \<longleftrightarrow> skip_ws b es s = es" "tok = 97 \<Longrightarrow> good_word b es w"
proof -
  define q where "q = skip_ws b es s"
  define r where "r = (if b q = 0 then (0, q) else if b q \<in> {124, 40, 41, 59, 38, 60} then (b q, q + 1)
    else if b q = 62 then (if b (q + 1) = 62 then (43, q + 2) else (62, q + 1)) else (97, skip_word b es q))"
  have t': "tok = fst r" "w = (q, snd r)" "s' = skip_ws b es (snd r)"
    using t unfolding gettoken_def Let_def q_def [symmetric] r_def [symmetric] by (auto split: prod.splits)
  have q: "s \<le> q" "q \<le> es" using skip_ws_bounds [OF s] unfolding q_def by blast+
  have nz: "b q \<noteq> 0 \<longleftrightarrow> q < es" using nul_at_less [OF line q(2)] .
  note sw = skip_word_word [OF q(2), of b]
  have ws: "b q \<notin> set whitespace" if "q < es" using skip_ws_stop that unfolding q_def by blast
  have word: "q < skip_word b es q" if "q < es" "b q \<notin> set symbols"
  proof -
    have "skip_word b es q = skip_word b es (q + 1)" using ws [OF that(1)] that by (simp add: skip_word.simps [of b es q])
    then show ?thesis using skip_word_word [of "q + 1" es b] that(1) by simp
  qed
  have r: "q \<le> snd r \<and> snd r \<le> es" "q < es \<longrightarrow> q < snd r" "fst r = 0 \<longleftrightarrow> q = es"
  proof -
    have two: "q + 2 \<le> es" if "q < es" "b (q + 1) = 62" using nul_at_less [OF line, of "q + 1"] that by (cases "q + 1 = es") auto
    have sym: "b q \<in> set symbols" if "b q \<in> {124, 40, 41, 59, 38, 60} \<or> b q = 62" using that by (auto simp: symbols_def)
    show "q \<le> snd r \<and> snd r \<le> es" "q < es \<longrightarrow> q < snd r" "fst r = 0 \<longleftrightarrow> q = es"
      using nz q(2) sw two word sym unfolding r_def by (auto split: if_splits simp: symbols_def)
  qed
  have b: "snd r \<le> s' \<and> s' \<le> es" using skip_ws_bounds r(1) unfolding t'(3) by blast
  show "s \<le> s' \<and> s' \<le> es" using b r(1) q(1) by linarith
  show "skip_ws b es s < es \<Longrightarrow> s < s'" using b r(2) q(1) unfolding q_def [symmetric] by linarith
  show "tok = 0 \<longleftrightarrow> skip_ws b es s = es" using r(3) t'(1) unfolding q_def [symmetric] by simp
  show "good_word b es w" if "tok = 97"
  proof -
    have c: "q < es" "b q \<notin> set symbols" "snd r = skip_word b es q"
      using that nz q(2) unfolding t'(1) r_def by (auto split: if_splits simp: symbols_def)
    then have "\<forall>i. q \<le> i \<and> i < skip_word b es q \<longrightarrow> b i \<noteq> 0" using sw line unfolding nul_at_def by auto
    then show ?thesis using sw word [OF c(1,2)] c(3) unfolding t'(2) good_word_def by simp
  qed
qed

lemma peek_ok:
  assumes line: "nul_at b es" and s: "s \<le> es" and p: "peek b es s toks = (yes, s')"
  shows "s \<le> s' \<and> s' \<le> es" "yes \<Longrightarrow> s' < es \<and> s' < next_pos b es s' \<and> next_pos b es s' \<le> es"
proof -
  have e: "s' = skip_ws b es s" "yes \<Longrightarrow> b s' \<noteq> 0" using p by (auto simp: peek_def Let_def)
  show r: "s \<le> s' \<and> s' \<le> es" using skip_ws_bounds [OF s] unfolding e(1) by blast
  assume yes
  then have l: "s' < es" using e(2) nul_at_less [OF line] r by blast
  have "skip_ws b es s' = s'" unfolding e(1) by (rule skip_ws_idem)
  then show "s' < es \<and> s' < next_pos b es s' \<and> next_pos b es s' \<le> es"
    using gettoken_ok(1,2) [OF line less_imp_le [OF l]] l by (cases "gettoken b es s'") auto
qed

section \<open>The parser returns\<close>

primrec cmd_ok :: "bytes \<Rightarrow> nat \<Rightarrow> cmd \<Rightarrow> bool" where
  "cmd_ok b es (EXECcmd ws) \<longleftrightarrow> length ws < MAXARGS \<and> list_all (good_word b es) ws"
| "cmd_ok b es (REDIRcmd c w m f) \<longleftrightarrow> cmd_ok b es c \<and> good_word b es w \<and> (m, f) \<in> {(0, 0), (0x201, 1)}"
| "cmd_ok b es (PIPEcmd l r) \<longleftrightarrow> cmd_ok b es l \<and> cmd_ok b es r"
| "cmd_ok b es (LISTcmd l r) \<longleftrightarrow> cmd_ok b es l \<and> cmd_ok b es r"
| "cmd_ok b es (BACKcmd c) \<longleftrightarrow> cmd_ok b es c"

text \<open>A result is a syntax error or a well-formed command and a position that is not before the start.\<close>

definition parsed :: "bytes \<Rightarrow> nat \<Rightarrow> nat \<Rightarrow> (cmd \<times> nat) outcome \<Rightarrow> bool" where
  "parsed b es s r \<longleftrightarrow> (\<exists>m. r = Inl (Panic m)) \<or> (\<exists>c s'. r = Inr (c, s') \<and> s \<le> s' \<and> s' \<le> es \<and> cmd_ok b es c)"

lemma parsed_panic [simp]: "parsed b es s (Inl (Panic m))"
  by (simp add: parsed_def)

lemma parsed_run:
  assumes "parsed b es s m" "\<And>c s'. s \<le> s' \<Longrightarrow> s' \<le> es \<Longrightarrow> cmd_ok b es c \<Longrightarrow> parsed b es s (f (c, s'))"
  shows "parsed b es s (run m f)"
proof (cases m)
  case (Inl e)
  then show ?thesis using assms(1) by (auto simp: parsed_def)
next
  case (Inr p)
  obtain c s' where p: "p = (c, s')" by (cases p)
  have "s \<le> s'" "s' \<le> es" "cmd_ok b es c" using assms(1) unfolding parsed_def Inr p by auto
  then show ?thesis using assms(2) Inr p by simp
qed

lemma parsed_later: "parsed b es s' r \<Longrightarrow> s \<le> s' \<Longrightarrow> parsed b es s r"
  by (auto simp: parsed_def)

text \<open>The redirections around a command.\<close>

inductive wrapped :: "bytes \<Rightarrow> nat \<Rightarrow> cmd \<Rightarrow> cmd \<Rightarrow> bool" for b es c where
  wrapped_none: "wrapped b es c c"
| wrapped_one: "wrapped b es c d \<Longrightarrow> good_word b es w \<Longrightarrow> (m, f) \<in> {(0, 0), (0x201, 1)} \<Longrightarrow> wrapped b es c (REDIRcmd d w m f)"

lemma wrapped_trans: "wrapped b es d e \<Longrightarrow> wrapped b es c d \<Longrightarrow> wrapped b es c e"
  by (induction rule: wrapped.induct) (auto intro: wrapped.intros)

lemma wrapped_ok: "wrapped b es c d \<Longrightarrow> cmd_ok b es c \<Longrightarrow> cmd_ok b es d"
  by (induction rule: wrapped.induct) auto

lemma wrapped_argv: "wrapped b es (EXECcmd vs) d \<Longrightarrow> wrapped b es (EXECcmd ws) (set_argv ws d)"
  by (induction rule: wrapped.induct) (auto intro: wrapped.intros)

lemma parseredirs_ok:
  assumes line: "nul_at b es"
  shows "s \<le> es \<Longrightarrow> es - s < n \<Longrightarrow> (\<exists>m. parseredirs n c b es s = Inl (Panic m)) \<or>
    (\<exists>d s'. parseredirs n c b es s = Inr (d, s') \<and> s \<le> s' \<and> s' \<le> es \<and> wrapped b es c d)"
proof (induction n arbitrary: c s)
  case (Suc n)
  obtain more s1 where p: "peek b es s [60, 62] = (more, s1)" by (cases "peek b es s [60, 62]")
  note p1 = peek_ok [OF line Suc.prems(1) p]
  show ?case
  proof (cases more)
    case False
    then show ?thesis using p p1 by (auto intro: wrapped_none)
  next
    case True
    obtain tok v s2 where g: "gettoken b es s1 = (tok, v, s2)" by (cases "gettoken b es s1") auto
    obtain tok' w s3 where h: "gettoken b es s2 = (tok', w, s3)" by (cases "gettoken b es s2") auto
    have s2: "s1 < s2" "s2 \<le> es" using p1(2) [OF True] g by simp_all
    note h1 = gettoken_ok [OF line s2(2) h]
    show ?thesis
    proof (cases "tok' = 97")
      case False
      then show ?thesis using p True g h by simp
    next
      case w: True
      define d where "d = (if tok = 60 then REDIRcmd c w 0 0 else if tok = 62 then REDIRcmd c w 0x201 1
        else if tok = 43 then REDIRcmd c w 0x201 1 else c)"
      have e: "parseredirs (Suc n) c b es s = parseredirs n d b es s3" using p True g h w by (simp add: d_def)
      have "wrapped b es c d" unfolding d_def using h1(4) [OF w] by (auto intro: wrapped.intros)
      moreover have "s3 \<le> es" "es - s3 < n" "s \<le> s3" using h1(1) s2 p1(1) Suc.prems(2) by linarith+
      ultimately show ?thesis using Suc.IH [of s3 d] unfolding e by (metis wrapped_trans le_trans)
    qed
  qed
qed simp

lemma parseargs_ok:
  assumes line: "nul_at b es"
  shows "s \<le> es \<Longrightarrow> es - s < n \<Longrightarrow> wrapped b es (EXECcmd []) ret \<Longrightarrow> length ws < MAXARGS \<Longrightarrow> list_all (good_word b es) ws \<Longrightarrow>
    parsed b es s (parseargs n ret ws b es s)"
proof (induction n arbitrary: ret ws s)
  case (Suc n)
  have fin: "parsed b es s (Inr (set_argv ws ret, s'))" if "s \<le> s'" "s' \<le> es" for s'
    using wrapped_ok [OF wrapped_argv [OF Suc.prems(3)], of ws] Suc.prems(4,5) that by (simp add: parsed_def)
  obtain stop s1 where p: "peek b es s [124, 41, 38, 59] = (stop, s1)" by (cases "peek b es s [124, 41, 38, 59]")
  obtain tok w s2 where g: "gettoken b es s1 = (tok, w, s2)" by (cases "gettoken b es s1") auto
  note p1 = peek_ok [OF line Suc.prems(1) p]
  have s1: "s1 \<le> es" using p1(1) by blast
  note g1 = gettoken_ok [OF line s1 g]
  consider "stop \<or> tok = 0" | "\<not> stop" "tok \<noteq> 0" "tok \<noteq> 97 \<or> length ws + 1 \<ge> MAXARGS" | "\<not> stop" "tok \<noteq> 0" "tok = 97" "length ws + 1 < MAXARGS"
    by fastforce
  then show ?case
  proof cases
    case 1
    then show ?thesis using p g p1(1) g1(1) fin by (cases stop) auto
  next
    case 2
    then show ?thesis using p g by (cases "tok = 97") auto
  next
    case 3
    have "skip_ws b es s1 < es" using g1(3) 3(2) skip_ws_bounds [OF s1, of b] by (simp add: le_less)
    then have s2: "s \<le> s2" "s2 \<le> es" "es - s2 < n" using g1(1,2) p1(1) Suc.prems(2) by linarith+
    have e: "parseargs (Suc n) ret ws b es s = run (parseredirs n ret b es s2) (\<lambda>(ret, s). parseargs n ret (ws @ [w]) b es s)"
      using p g 3 by simp
    from parseredirs_ok [OF line s2(2,3), of ret] show ?thesis
    proof (elim disjE exE conjE)
      fix d s3
      assume r: "parseredirs n ret b es s2 = Inr (d, s3)" "s2 \<le> s3" "s3 \<le> es" "wrapped b es ret d"
      have "parsed b es s3 (parseargs n d (ws @ [w]) b es s3)"
        using r s2 3(4) Suc.prems(5) g1(4) [OF 3(3)] wrapped_trans [OF r(4) Suc.prems(3)] by (intro Suc.IH) auto
      then show ?thesis using parsed_later r(2) s2(1) unfolding e r(1) by simp
    qed (simp add: e del: parseargs.simps)
  qed
qed simp

lemma parseback_ok:
  assumes line: "nul_at b es"
  shows "s \<le> es \<Longrightarrow> es - s < n \<Longrightarrow> cmd_ok b es c \<Longrightarrow> parsed b es s (parseback n c b es s)"
proof (induction n arbitrary: c s)
  case (Suc n)
  obtain more s1 where p: "peek b es s [38] = (more, s1)" by (cases "peek b es s [38]")
  note p1 = peek_ok [OF line Suc.prems(1) p]
  show ?case
  proof (cases more)
    case True
    then have "parsed b es (next_pos b es s1) (parseback n (BACKcmd c) b es (next_pos b es s1))"
      using p1 Suc.prems by (intro Suc.IH) auto
    then show ?thesis using p True p1 parsed_later by fastforce
  qed (use p p1 Suc.prems in \<open>simp add: parsed_def\<close>)
qed simp

lemma parser_ok:
  assumes line: "nul_at b es"
  shows "s \<le> es \<Longrightarrow> 4 * (es - s) + 4 \<le> n \<Longrightarrow> parsed b es s (parseline n b es s)"
    and "s \<le> es \<Longrightarrow> 4 * (es - s) + 3 \<le> n \<Longrightarrow> parsed b es s (parsepipe n b es s)"
    and "s \<le> es \<Longrightarrow> 4 * (es - s) + 2 \<le> n \<Longrightarrow> parsed b es s (parseexec n b es s)"
    and "s \<le> es \<Longrightarrow> 4 * (es - s) + 1 \<le> n \<Longrightarrow> parsed b es s (parseblock n b es s)"
proof (induction n arbitrary: s)
  case (Suc n)
  { case 1
    have pipe: "parsed b es s (parsepipe n b es s)" using 1 by (intro Suc.IH(2)) auto
    show ?case unfolding parseline.simps
    proof (rule parsed_run [OF pipe], simp only: prod.case, rule parsed_run)
      fix c s'
      assume a: "s \<le> s'" "s' \<le> es" "cmd_ok b es c"
      then show "parsed b es s (parseback n c b es s')" using 1 by (intro parsed_later [OF parseback_ok [OF line]]) auto
    next
      fix c0 s0 c s'
      assume a: "s \<le> s'" "s' \<le> es" "cmd_ok b es c"
      obtain semi s1 where p: "peek b es s' [59] = (semi, s1)" by (cases "peek b es s' [59]")
      note p1 = peek_ok [OF line a(2) p]
      show "parsed b es s (case (c, s') of (cmd, s) \<Rightarrow> let (semi, s) = peek b es s [59] in if semi
          then run (parseline n b es (next_pos b es s)) (\<lambda>(right, s). Inr (LISTcmd cmd right, s)) else Inr (cmd, s))"
      proof (cases semi)
        case True
        have "parsed b es s (parseline n b es (next_pos b es s1))"
          using 1 a(1) p1 True by (intro parsed_later [OF Suc.IH(1)]) auto
        then have "parsed b es s (run (parseline n b es (next_pos b es s1)) (\<lambda>(right, s). Inr (LISTcmd c right, s)))"
          by (rule parsed_run) (use a(3) in \<open>auto simp: parsed_def\<close>)
        then show ?thesis using p True by simp
      qed (use p p1 a in \<open>auto simp: parsed_def\<close>)
    qed
  next
    case 2
    have ex: "parsed b es s (parseexec n b es s)" using 2 by (intro Suc.IH(3)) auto
    show ?case unfolding parsepipe.simps
    proof (rule parsed_run [OF ex])
      fix c s'
      assume a: "s \<le> s'" "s' \<le> es" "cmd_ok b es c"
      obtain bar s1 where p: "peek b es s' [124] = (bar, s1)" by (cases "peek b es s' [124]")
      note p1 = peek_ok [OF line a(2) p]
      show "parsed b es s (case (c, s') of (cmd, s) \<Rightarrow> let (bar, s) = peek b es s [124] in if bar
          then run (parsepipe n b es (next_pos b es s)) (\<lambda>(right, s). Inr (PIPEcmd cmd right, s)) else Inr (cmd, s))"
      proof (cases bar)
        case True
        have "parsed b es s (parsepipe n b es (next_pos b es s1))"
          using 2 a(1) p1 True by (intro parsed_later [OF Suc.IH(2)]) auto
        then have "parsed b es s (run (parsepipe n b es (next_pos b es s1)) (\<lambda>(right, s). Inr (PIPEcmd c right, s)))"
          by (rule parsed_run) (use a(3) in \<open>auto simp: parsed_def\<close>)
        then show ?thesis using p True by simp
      qed (use p p1 a in \<open>auto simp: parsed_def\<close>)
    qed
  next
    case 3
    obtain paren s1 where p: "peek b es s [40] = (paren, s1)" by (cases "peek b es s [40]")
    note p1 = peek_ok [OF line 3(1) p]
    show ?case
    proof (cases paren)
      case True
      have "parsed b es s (parseblock n b es s1)" using 3 p1 by (intro parsed_later [OF Suc.IH(4)]) auto
      then show ?thesis using p True by simp
    next
      case False
      have s1: "s1 \<le> es" "es - s1 < n" using p1(1) 3(2) by linarith+
      from parseredirs_ok [OF line s1, of "EXECcmd []"] show ?thesis
      proof (elim disjE exE conjE)
        fix d s2
        assume r: "parseredirs n (EXECcmd []) b es s1 = Inr (d, s2)" "s1 \<le> s2" "s2 \<le> es" "wrapped b es (EXECcmd []) d"
        have "parsed b es s (parseargs n d [] b es s2)"
          using r s1 p1(1) by (intro parsed_later [OF parseargs_ok [OF line]]) (auto simp: MAXARGS_def)
        then show ?thesis using p False r(1) by simp
      qed (use p False in simp)
    qed
  next
    case 4
    obtain paren s1 where p: "peek b es s [40] = (paren, s1)" by (cases "peek b es s [40]")
    note p1 = peek_ok [OF line 4(1) p]
    show ?case
    proof (cases paren)
      case True
      have ln: "parsed b es s (parseline n b es (next_pos b es s1))" using 4 p1 True by (intro parsed_later [OF Suc.IH(1)]) auto
      have "parsed b es s (run (parseline n b es (next_pos b es s1)) (\<lambda>(cmd, s). let (close, s) = peek b es s [41] in
          if \<not> close then Inl (Panic ''syntax - missing )'') else parseredirs n cmd b es (next_pos b es s)))"
      proof (rule parsed_run [OF ln])
        fix c s'
        assume a: "s \<le> s'" "s' \<le> es" "cmd_ok b es c"
        obtain close s2 where q: "peek b es s' [41] = (close, s2)" by (cases "peek b es s' [41]")
        note q1 = peek_ok [OF line a(2) q]
        show "parsed b es s (case (c, s') of (cmd, s) \<Rightarrow> let (close, s) = peek b es s [41] in
          if \<not> close then Inl (Panic ''syntax - missing )'') else parseredirs n cmd b es (next_pos b es s))"
        proof (cases close)
          case True
          have s3: "next_pos b es s2 \<le> es" "es - next_pos b es s2 < n" "s \<le> next_pos b es s2" using q1 True 4 a(1) by auto
          from parseredirs_ok [OF line s3(1,2), of c] show ?thesis
            using q True s3(3) a(3) by (auto simp: parsed_def dest: wrapped_ok)
        qed (use q in simp)
      qed
      then show ?thesis using p True by simp
    qed (use p in simp)
  }
qed simp_all

section \<open>The words of the command are the words of the line\<close>

primrec words :: "cmd \<Rightarrow> shword list" where
  "words (EXECcmd ws) = ws"
| "words (REDIRcmd c w m f) = w # words c"
| "words (PIPEcmd l r) = words l @ words r"
| "words (LISTcmd l r) = words l @ words r"
| "words (BACKcmd c) = words c"

lemma cmd_ok_words: "cmd_ok b es c \<Longrightarrow> w \<in> set (words c) \<Longrightarrow> good_word b es w"
  by (induction c) (auto simp: list_all_iff)

lemma nulterminate_at: "nulterminate c b i = (if i \<in> snd ` set (words c) then 0 else b i)"
proof (induction c arbitrary: b)
  case (EXECcmd ws)
  show ?case by (induction ws arbitrary: b) auto
qed auto

text \<open>The end of one word is never inside another: it is the end of the line or a delimiter.\<close>

lemma word_survives:
  assumes line: "nul_at b es" and ok: "cmd_ok b es c" and w: "w \<in> set (words c)"
  shows "nul_at (\<lambda>i. nulterminate c b (fst w + i)) (snd w - fst w)" "\<forall>i. fst w \<le> i \<and> i < snd w \<longrightarrow> nulterminate c b i = b i"
proof -
  note g = cmd_ok_words [OF ok w, unfolded good_word_def]
  show keep: "\<forall>i. fst w \<le> i \<and> i < snd w \<longrightarrow> nulterminate c b i = b i"
  proof (intro allI impI)
    fix i
    assume i: "fst w \<le> i \<and> i < snd w"
    have "i \<noteq> snd v" if "v \<in> set (words c)" for v
    proof
      assume v: "i = snd v"
      have "snd v = es \<or> delimiter (b (snd v))" using cmd_ok_words [OF ok that] by (simp add: good_word_def)
      then show False using g i v by auto
    qed
    then show "nulterminate c b i = b i" by (auto simp: nulterminate_at)
  qed
  have "nulterminate c b (snd w) = 0" using w by (simp add: nulterminate_at)
  then show "nul_at (\<lambda>i. nulterminate c b (fst w + i)) (snd w - fst w)"
    using g keep by (auto simp: nul_at_def)
qed


lemma example_line: "nul_at (lit ''a>f|b'') 5"
proof -
  have "lit ''a>f|b'' i \<noteq> 0" if "i < 5" for i
  proof -
    have "i \<in> {0, 1, 2, 3, 4}" using that by auto
    then show ?thesis by (auto simp: lit_def)
  qed
  then show ?thesis by (simp add: nul_at_def) (simp add: lit_def)
qed

lemma example_parse: "parseline 24 (lit ''a>f|b'') 5 0 = Inr (PIPEcmd (REDIRcmd (EXECcmd [(0, 1)]) (2, 3) 0x201 1) (EXECcmd [(4, 5)]), 5)"
  by code_simp


end
