(* ===== verification/Umalloc.thy ===== *)
theory Umalloc
  imports Prelude
begin

text \<open>
  The user-level allocator, \<^verbatim>\<open>umalloc.c\<close>. A header sits at a byte address and occupies 8 bytes; the free blocks form a ring
  through \<^verbatim>\<open>s.ptr\<close>, in address order, that starts at the static header \<^verbatim>\<open>base\<close>, whose address is an argument. User addresses
  are below \<^verbatim>\<open>KERNBASE\<close>, so they are natural numbers here; the request is a 32-bit number and its arithmetic wraps. \<^verbatim>\<open>sbrk\<close>
  moves the end of the process's memory, up to a limit \<open>lim\<close> that stands for the memory the kernel can provide. The searches along
  the ring are partial functions; their return is part of what is proved.
\<close>

section \<open>The heap\<close>

record header =
  hptr :: nat
  hsize :: nat

record uheap =
  hdr :: "nat \<Rightarrow> header"
  freep :: "nat option"
  brk :: nat

abbreviation uptr :: "uheap \<Rightarrow> nat \<Rightarrow> nat" where
  "uptr s p \<equiv> hptr (hdr s p)"

abbreviation usize :: "uheap \<Rightarrow> nat \<Rightarrow> nat" where
  "usize s p \<equiv> hsize (hdr s p)"

definition set_ptr :: "nat \<Rightarrow> nat \<Rightarrow> uheap \<Rightarrow> uheap" where
  "set_ptr p q s = s\<lparr>hdr := (hdr s)(p := (hdr s p)\<lparr>hptr := q\<rparr>)\<rparr>"

definition set_size :: "nat \<Rightarrow> nat \<Rightarrow> uheap \<Rightarrow> uheap" where
  "set_size p n s = s\<lparr>hdr := (hdr s)(p := (hdr s p)\<lparr>hsize := n\<rparr>)\<rparr>"

section \<open>free\<close>

text \<open>The search of \<^verbatim>\<open>free\<close> for the block after which \<open>bp\<close> belongs.\<close>

partial_function (option) free_find :: "uheap \<Rightarrow> nat \<Rightarrow> nat \<Rightarrow> nat option" where
  "free_find s bp p =
     (if bp > p \<and> bp < uptr s p then Some p
      else if p \<ge> uptr s p \<and> (bp > p \<or> bp < uptr s p) then Some p
      else free_find s bp (uptr s p))"

definition free_join :: "nat \<Rightarrow> nat \<Rightarrow> uheap \<Rightarrow> uheap" where
  "free_join bp p s =
     (let n = uptr s p;
          s = (if bp + 8 * usize s bp = n then set_ptr bp (uptr s n) (set_size bp (usize s bp + usize s n) s) else set_ptr bp n s);
          s = (if p + 8 * usize s p = bp then set_ptr p (uptr s bp) (set_size p (usize s p + usize s bp) s) else set_ptr p bp s)
      in s\<lparr>freep := Some p\<rparr>)"

definition ufree :: "nat \<Rightarrow> uheap \<Rightarrow> uheap outcome" where
  "ufree ap s =
     (case freep s of
        None \<Rightarrow> Inl NullDeref
      | Some f \<Rightarrow> (case free_find s (ap - 8) f of None \<Rightarrow> Inl Spin | Some p \<Rightarrow> Inr (free_join (ap - 8) p s)))"

section \<open>malloc\<close>

text \<open>\<^verbatim>\<open>sbrk\<close> takes a signed number of bytes and returns the old end; shrinking to nothing is reported as a failure.\<close>

definition usbrk :: "nat \<Rightarrow> u32 \<Rightarrow> uheap \<Rightarrow> nat option \<times> uheap" where
  "usbrk lim n s =
     (let new = int (brk s) + sint n
      in if sint n \<ge> 0 then if new \<le> int lim then (Some (brk s), s\<lparr>brk := nat new\<rparr>) else (None, s)
         else if new = 0 then (None, s)
         else (Some (brk s), s\<lparr>brk := (if new < 0 then brk s else nat new)\<rparr>))"

definition morecore :: "nat \<Rightarrow> nat \<Rightarrow> uheap \<Rightarrow> (nat option \<times> uheap) outcome" where
  "morecore lim nu s =
     (let nu = (if nu < 4096 then 4096 else nu)
      in case usbrk lim (of_nat nu * 8) s of
           (None, s) \<Rightarrow> Inr (None, s)
         | (Some hp, s) \<Rightarrow> run (ufree (hp + 8) (set_size hp nu s)) (\<lambda>s. Inr (freep s, s)))"

text \<open>The block \<open>p\<close> is large enough: take all of it, or its tail.\<close>

definition malloc_take :: "nat \<Rightarrow> nat \<Rightarrow> nat \<Rightarrow> uheap \<Rightarrow> nat \<times> uheap" where
  "malloc_take nunits prevp p s =
     (let (p, s) =
            (if usize s p = nunits then (p, set_ptr prevp (uptr s p) s)
             else
               let s = set_size p (usize s p - nunits) s; p = p + 8 * usize s p
               in (p, set_size p nunits s))
      in (p + 8, s\<lparr>freep := Some prevp\<rparr>))"

partial_function (option) malloc_loop :: "nat \<Rightarrow> nat \<Rightarrow> nat \<Rightarrow> nat \<Rightarrow> uheap \<Rightarrow> (nat option \<times> uheap) outcome option" where
  "malloc_loop lim nunits prevp p s =
     (if usize s p \<ge> nunits then Some (Inr (apfst Some (malloc_take nunits prevp p s)))
      else if Some p = freep s then
        (case morecore lim nunits s of
           Inl e \<Rightarrow> Some (Inl e)
         | Inr (None, s) \<Rightarrow> Some (Inr (None, s))
         | Inr (Some p, s) \<Rightarrow> malloc_loop lim nunits p (uptr s p) s)
      else malloc_loop lim nunits p (uptr s p) s)"

definition malloc_units :: "u32 \<Rightarrow> nat" where
  "malloc_units nbytes = unat ((nbytes + 8 - 1) div 8 + 1)"

text \<open>The first call makes a ring of the empty block \<^verbatim>\<open>base\<close>.\<close>

definition malloc_start :: "nat \<Rightarrow> uheap \<Rightarrow> uheap" where
  "malloc_start base s =
     (case freep s of None \<Rightarrow> (set_size base 0 (set_ptr base base s))\<lparr>freep := Some base\<rparr> | Some f \<Rightarrow> s)"

definition malloc :: "nat \<Rightarrow> nat \<Rightarrow> u32 \<Rightarrow> uheap \<Rightarrow> (nat option \<times> uheap) outcome" where
  "malloc lim base nbytes s =
     (let s = malloc_start base s; prevp = the (freep s)
      in case malloc_loop lim (malloc_units nbytes) prevp (uptr s prevp) s of None \<Rightarrow> Inl Spin | Some r \<Rightarrow> r)"

section \<open>The ring\<close>

primrec lseg :: "uheap \<Rightarrow> nat \<Rightarrow> nat list \<Rightarrow> nat \<Rightarrow> bool" where
  "lseg s a [] z \<longleftrightarrow> a = z"
| "lseg s a (x # xs) z \<longleftrightarrow> a = x \<and> lseg s (uptr s x) xs z"

lemma lseg_append: "lseg s a (xs @ ys) z \<longleftrightarrow> (\<exists>m. lseg s a xs m \<and> lseg s m ys z)"
  by (induction xs arbitrary: a) auto

lemma lseg_cong: "(\<And>x. x \<in> set xs \<Longrightarrow> uptr s' x = uptr s x) \<Longrightarrow> lseg s' a xs z = lseg s a xs z"
  by (induction xs arbitrary: a) auto

text \<open>The bytes from a block's start that no later block may use: its units, and the header of the empty one.\<close>

definition extent :: "uheap \<Rightarrow> nat \<Rightarrow> nat" where
  "extent s x = 8 * max 1 (usize s x)"

primrec apart :: "uheap \<Rightarrow> nat list \<Rightarrow> bool" where
  "apart s [] \<longleftrightarrow> True"
| "apart s (x # xs) \<longleftrightarrow> (\<forall>y \<in> set xs. x + extent s x \<le> y) \<and> apart s xs"

lemma apart_append: "apart s (xs @ ys) \<longleftrightarrow> apart s xs \<and> apart s ys \<and> (\<forall>x \<in> set xs. \<forall>y \<in> set ys. x + extent s x \<le> y)"
  by (induction xs) auto

lemma apart_cong: "(\<And>x. x \<in> set xs \<Longrightarrow> usize s' x = usize s x) \<Longrightarrow> apart s' xs = apart s xs"
  by (induction xs) (auto simp: extent_def)

lemma apart_less: "apart s (x # xs) \<Longrightarrow> y \<in> set xs \<Longrightarrow> x < y"
  by (fastforce simp: extent_def)

lemma apart_distinct: "apart s xs \<Longrightarrow> distinct xs"
  by (induction xs) (auto dest: apart_less [rotated])

text \<open>The allocator's invariant; \<open>xs\<close> are the blocks in address order.\<close>

definition heap_ok :: "nat \<Rightarrow> uheap \<Rightarrow> nat list \<Rightarrow> bool" where
  "heap_ok base s xs \<longleftrightarrow> xs \<noteq> [] \<and> hd xs = base \<and> usize s base = 0 \<and> (\<forall>x \<in> set (tl xs). 1 \<le> usize s x) \<and>
     lseg s base xs base \<and> apart s xs \<and> (\<forall>x \<in> set xs. x + extent s x \<le> brk s) \<and> (\<exists>f \<in> set xs. freep s = Some f)"

text \<open>The free bytes.\<close>

definition free_bytes :: "uheap \<Rightarrow> nat list \<Rightarrow> nat set" where
  "free_bytes s xs = (\<Union>x \<in> set xs. {x..<x + 8 * usize s x})"

lemma set_sel [simp]:
  "uptr (set_ptr p q s) x = (if x = p then q else uptr s x)" "usize (set_ptr p q s) x = usize s x"
  "uptr (set_size p n s) x = uptr s x" "usize (set_size p n s) x = (if x = p then n else usize s x)"
  "freep (set_ptr p q s) = freep s" "freep (set_size p n s) = freep s" "brk (set_ptr p q s) = brk s" "brk (set_size p n s) = brk s"
  by (simp_all add: set_ptr_def set_size_def)

lemma ring_next:
  assumes "lseg s base (us @ x # vs) base"
  shows "uptr s x = (if vs = [] then base else hd vs)"
  using assms by (cases vs) (auto simp: lseg_append)

lemma heap_okD:
  assumes "heap_ok base s xs"
  shows "xs \<noteq> []" "hd xs = base" "usize s base = 0" "lseg s base xs base" "apart s xs" "x \<in> set xs \<Longrightarrow> x + extent s x \<le> brk s"
    "\<exists>f \<in> set xs. freep s = Some f" "x \<in> set xs \<Longrightarrow> base \<le> x" "x \<in> set xs \<Longrightarrow> x \<noteq> base \<Longrightarrow> 1 \<le> usize s x"
proof -
  show a: "xs \<noteq> []" "hd xs = base" "usize s base = 0" "lseg s base xs base" "apart s xs" "x \<in> set xs \<Longrightarrow> x + extent s x \<le> brk s"
    "\<exists>f \<in> set xs. freep s = Some f" using assms unfolding heap_ok_def by blast+
  obtain ys where ys: "xs = base # ys" using a(1,2) by (cases xs) auto
  show "base \<le> x" if "x \<in> set xs" using apart_less [of s base ys x] a(5) that unfolding ys by fastforce
  show "1 \<le> usize s x" if "x \<in> set xs" "x \<noteq> base" using assms that unfolding heap_ok_def ys by auto
qed

text \<open>The place of an address among the blocks.\<close>

lemma split_at:
  assumes "heap_ok base s xs" "base < bp" "bp \<notin> set xs"
  shows "\<exists>us p vs. xs = us @ p # vs \<and> (\<forall>x \<in> set (us @ [p]). x < bp) \<and> (\<forall>x \<in> set vs. bp < x)"
proof -
  define as bs where "as = takeWhile (\<lambda>x. x < bp) xs" and "bs = dropWhile (\<lambda>x. x < bp) xs"
  have xs: "xs = as @ bs" unfolding as_def bs_def by simp
  note D = heap_okD [OF assms(1)]
  have "as \<noteq> []" using D(1,2) assms(2) unfolding as_def by (cases xs) auto
  then obtain us p where as: "as = us @ [p]" by (metis append_butlast_last_id)
  have lt: "\<forall>x \<in> set (us @ [p]). x < bp" unfolding as [symmetric] as_def by (auto dest: set_takeWhileD)
  have gt: "bp < x" if "x \<in> set bs" for x
  proof (cases bs)
    case (Cons y ys)
    have "y \<in> set xs" unfolding xs Cons by simp
    moreover have "\<not> y < bp" using Cons hd_dropWhile [of "\<lambda>x. x < bp" xs] unfolding bs_def by auto
    ultimately have "bp < y" using assms(3) by (metis linorder_neqE_nat)
    moreover have "y = x \<or> y < x" using that D(5) apart_less [of s y ys x] unfolding xs Cons by (auto simp: apart_append)
    ultimately show ?thesis by auto
  qed (use that in simp)
  show ?thesis using xs as lt gt by auto
qed

lemma free_find_before:
  assumes ok: "heap_ok base s (us @ ws @ p # vs)" and lt: "\<forall>x \<in> set (us @ ws @ [p]). x < bp" and gt: "\<forall>x \<in> set vs. bp < x"
  shows "free_find s bp (hd (ws @ [p])) = Some p"
  using assms
proof (induction ws arbitrary: us)
  case Nil
  note D = heap_okD [OF Nil.prems(1)]
  have n: "uptr s p = (if vs = [] then base else hd vs)" using D(4) ring_next [of s base us p vs] by simp
  show ?case
  proof (cases vs)
    case Nil
    then show ?thesis using n lt D(8) [of p] by (auto simp: free_find.simps [of s bp p])
  next
    case (Cons v ws)
    then show ?thesis using n lt gt by (simp add: free_find.simps [of s bp p])
  qed
next
  case (Cons w ws)
  note D = heap_okD [OF Cons.prems(1)]
  have n: "uptr s w = hd (ws @ [p])" using D(4) ring_next [of s base us w "ws @ p # vs"] by (cases ws) simp_all
  have m: "hd (ws @ [p]) \<in> set (ws @ [p])" by (cases ws) simp_all
  have "apart s (w # ws @ p # vs)" using D(5) by (simp add: apart_append)
  then have "w < hd (ws @ [p])" using apart_less [of s w "ws @ p # vs" "hd (ws @ [p])"] m by auto
  moreover have "hd (ws @ [p]) < bp" using m Cons.prems(2) by auto
  ultimately have "free_find s bp w = free_find s bp (hd (ws @ [p]))" using n by (simp add: free_find.simps [of s bp w])
  then show ?case using Cons.IH [of "us @ [w]"] Cons.prems by simp
qed

lemma free_find_after:
  assumes ok: "heap_ok base s (us @ p # vs @ w # ws)" and lt: "\<forall>x \<in> set (us @ [p]). x < bp" and gt: "\<forall>x \<in> set (vs @ w # ws). bp < x"
    and b: "base < bp"
  shows "free_find s bp w = Some p"
  using assms
proof (induction ws arbitrary: vs w)
  case Nil
  note D = heap_okD [OF Nil.prems(1)]
  have n: "uptr s w = base" using D(4) ring_next [of s base "us @ p # vs" w "[]"] by simp
  have "bp < w" using Nil.prems(3) by simp
  then have "free_find s bp w = free_find s bp base" using n b by (simp add: free_find.simps [of s bp w])
  moreover have "base = hd (us @ [p])" using D(2) by (cases us) simp_all
  ultimately show ?case using free_find_before [of base s "[]" us p "vs @ [w]" bp] Nil.prems by simp
next
  case (Cons x ws)
  note D = heap_okD [OF Cons.prems(1)]
  have n: "uptr s w = x" using D(4) ring_next [of s base "us @ p # vs" w "x # ws"] by simp
  have "apart s (w # x # ws)" using D(5) by (simp add: apart_append)
  then have "w < x" using apart_less [of s w "x # ws" x] by simp
  then have "free_find s bp w = free_find s bp x" using n Cons.prems(3) by (simp add: free_find.simps [of s bp w])
  then show ?case using Cons.IH [of "vs @ [w]" x] Cons.prems by simp
qed

lemma free_find_ok:
  assumes ok: "heap_ok base s xs" and xs: "xs = us @ p # vs" and lt: "\<forall>x \<in> set (us @ [p]). x < bp" and gt: "\<forall>x \<in> set vs. bp < x"
    and b: "base < bp" and q: "q \<in> set xs"
  shows "free_find s bp q = Some p"
proof (cases "q \<in> set (us @ [p])")
  case True
  then obtain as bs where "us @ [p] = as @ q # bs" by (meson split_list)
  then obtain ws where w: "us = as @ ws" "hd (ws @ [p]) = q"
    by (cases bs rule: rev_cases) (auto simp: append_eq_append_conv2 Cons_eq_append_conv)
  then show ?thesis using free_find_before [of base s as ws p vs bp] ok lt gt unfolding xs by simp
next
  case False
  then obtain cs ws where "vs = cs @ q # ws" using q split_list [of q vs] unfolding xs by auto
  then show ?thesis using free_find_after [of base s us p cs q ws bp] ok lt gt b unfolding xs by simp
qed

section \<open>free gives the block back\<close>

lemma extent_ge: "8 \<le> extent s x" "8 * usize s x \<le> extent s x" "1 \<le> usize s x \<Longrightarrow> extent s x = 8 * usize s x"
  by (simp_all add: extent_def max_def)

lemma apart_before: "apart s (us @ p # vs) \<Longrightarrow> x \<in> set us \<Longrightarrow> x < p"
  using extent_ge(1) [of s x] by (fastforce simp: apart_append)

text \<open>The second half of \<^verbatim>\<open>free\<close>: the block \<open>bp\<close>, whose successor is set, is joined to \<open>p\<close> or linked after it.\<close>

definition link_block :: "nat \<Rightarrow> nat \<Rightarrow> uheap \<Rightarrow> uheap" where
  "link_block bp p s =
     (if p + 8 * usize s p = bp then set_ptr p (uptr s bp) (set_size p (usize s p + usize s bp) s) else set_ptr p bp s)\<lparr>freep := Some p\<rparr>"

lemma link_block_ok:
  assumes b: "hd (us @ [p]) = base" "usize s base = 0" and sz: "\<forall>x \<in> set (tl (us @ p # vs)). 1 \<le> usize s x" "1 \<le> usize s bp"
    and seg: "lseg s base us p" "lseg s (uptr s bp) vs base" and ap: "apart s (us @ p # vs)" and br: "\<forall>x \<in> set (us @ p # vs). x + extent s x \<le> brk s"
    and pos: "p + extent s p \<le> bp" "\<forall>y \<in> set vs. bp + 8 * usize s bp \<le> y" "bp + 8 * usize s bp \<le> brk s"
  shows "\<exists>xs'. heap_ok base (link_block bp p s) xs' \<and>
    free_bytes (link_block bp p s) xs' = free_bytes s (us @ p # vs) \<union> {bp..<bp + 8 * usize s bp} \<and> brk (link_block bp p s) = brk s \<and>
    (\<exists>x \<in> set xs'. x \<le> bp \<and> bp + 8 * usize s bp \<le> x + 8 * usize (link_block bp p s) x)"
proof -
  let ?t = "link_block bp p s"
  have ne: "p < bp" using pos(1) extent_ge(1) [of s p] by linarith
  have out: "p \<notin> set us" "bp \<notin> set us" "p \<notin> set vs" "bp \<notin> set vs"
    using apart_distinct [OF ap] apart_before [OF ap] ne pos(2) sz(2) by fastforce+
  show ?thesis
  proof (cases "p + 8 * usize s p = bp")
    case True
    then have pb: "p \<noteq> base" using b(2) ne by auto
    then obtain us' where us: "us = base # us'" using b(1) by (cases us) auto
    have t: "uptr ?t x = (if x = p then uptr s bp else uptr s x)" "usize ?t x = (if x = p then usize s p + usize s bp else usize s x)"
      "freep ?t = Some p" "brk ?t = brk s" for x
      using True by (simp_all add: link_block_def)
    have e: "extent ?t x = (if x = p then 8 * (usize s p + usize s bp) else extent s x)" for x using sz(2) by (simp add: extent_def t)
    have lu: "lseg ?t base us p" using seg(1) out(1) by (subst lseg_cong) (auto simp: t)
    have lv: "lseg ?t (uptr s bp) vs base" using seg(2) out(3) by (subst lseg_cong) (auto simp: t)
    have au: "apart ?t us" "apart ?t vs" using ap out by (subst apart_cong; auto simp: t apart_append)+
    have a: "apart ?t (us @ p # vs)" using ap au pos(2) out True by (auto simp: apart_append e)
    have "heap_ok base ?t (us @ p # vs)"
      unfolding heap_ok_def
    proof (intro conjI)
      show "hd (us @ p # vs) = base" "usize ?t base = 0" using b pb us by (simp_all add: t)
      show "\<forall>x \<in> set (tl (us @ p # vs)). 1 \<le> usize ?t x" using sz by (auto simp: t)
      show "lseg ?t base (us @ p # vs) base" using lu lv by (auto simp: lseg_append t)
      show "apart ?t (us @ p # vs)" by (fact a)
      show "\<forall>x \<in> set (us @ p # vs). x + extent ?t x \<le> brk ?t" using br pos(3) True by (auto simp: e t)
      show "\<exists>f \<in> set (us @ p # vs). freep ?t = Some f" by (simp add: t)
    qed simp
    moreover have "free_bytes ?t (us @ p # vs) = free_bytes s (us @ p # vs) \<union> {bp..<bp + 8 * usize s bp}"
    proof -
      have same: "(\<Union>x \<in> A. {x..<x + 8 * usize ?t x}) = (\<Union>x \<in> A. {x..<x + 8 * usize s x})" if "p \<notin> A" for A
        by (rule SUP_cong) (use that in \<open>auto simp: t\<close>)
      have "{p..<p + 8 * usize ?t p} = {p..<p + 8 * usize s p} \<union> {bp..<bp + 8 * usize s bp}" using True by (auto simp: t)
      then show ?thesis using same [OF out(1)] same [OF out(3)] unfolding free_bytes_def by (simp add: Un_ac)
    qed
    moreover have "\<exists>x \<in> set (us @ p # vs). x \<le> bp \<and> bp + 8 * usize s bp \<le> x + 8 * usize ?t x"
      by (rule bexI [of _ p]) (use True in \<open>auto simp: t\<close>)
    ultimately show ?thesis using t(4) by blast
  next
    case False
    have t: "uptr ?t x = (if x = p then bp else uptr s x)" "usize ?t x = usize s x" "freep ?t = Some p" "brk ?t = brk s" "extent ?t = extent s" for x
      using False by (simp_all add: link_block_def extent_def [abs_def])
    have lu: "lseg ?t base us p" using seg(1) out(1) by (subst lseg_cong) (auto simp: t)
    have lv: "lseg ?t (uptr s bp) vs base" using seg(2) out(3) by (subst lseg_cong) (auto simp: t)
    have ac: "apart ?t zs = apart s zs" for zs by (rule apart_cong) (simp add: t)
    have eb: "extent s bp = 8 * usize s bp" using extent_ge(3) sz(2) by blast
    have a: "apart s (us @ p # bp # vs)" using ap pos out apart_before [OF ap] eb by (auto simp: apart_append)
    have "heap_ok base ?t (us @ p # bp # vs)"
      unfolding heap_ok_def
    proof (intro conjI)
      show "hd (us @ p # bp # vs) = base" using b(1) by (cases us) auto
      show "usize ?t base = 0" using b(2) by (simp add: t)
      show "\<forall>x \<in> set (tl (us @ p # bp # vs)). 1 \<le> usize ?t x" using sz by (cases us) (auto simp: t)
      show "lseg ?t base (us @ p # bp # vs) base" using lu lv ne by (auto simp: lseg_append t)
      show "apart ?t (us @ p # bp # vs)" using a ac by simp
      show "\<forall>x \<in> set (us @ p # bp # vs). x + extent ?t x \<le> brk ?t" using br pos(3) eb by (auto simp: t)
      show "\<exists>f \<in> set (us @ p # bp # vs). freep ?t = Some f" by (simp add: t)
    qed simp
    moreover have "free_bytes ?t (us @ p # bp # vs) = free_bytes s (us @ p # vs) \<union> {bp..<bp + 8 * usize s bp}"
      unfolding free_bytes_def by (auto simp: t)
    moreover have "\<exists>x \<in> set (us @ p # bp # vs). x \<le> bp \<and> bp + 8 * usize s bp \<le> x + 8 * usize ?t x"
      by (rule bexI [of _ bp]) (auto simp: t)
    ultimately show ?thesis using t(4) by blast
  qed
qed

lemma free_join_ok:
  assumes ok: "heap_ok base s (us @ p # vs)" and p: "p + extent s p \<le> bp" and vs: "\<forall>y \<in> set vs. bp + 8 * usize s bp \<le> y"
    and sz: "1 \<le> usize s bp" and br: "bp + 8 * usize s bp \<le> brk s"
  shows "\<exists>xs'. heap_ok base (free_join bp p s) xs' \<and>
    free_bytes (free_join bp p s) xs' = free_bytes s (us @ p # vs) \<union> {bp..<bp + 8 * usize s bp} \<and> brk (free_join bp p s) = brk s \<and>
    (\<exists>x \<in> set xs'. x \<le> bp \<and> bp + 8 * usize s bp \<le> x + 8 * usize (free_join bp p s) x)"
proof -
  note D = heap_okD [OF ok]
  have nx: "uptr s p = (if vs = [] then base else hd vs)" by (rule ring_next [OF D(4)])
  have b: "hd (us @ [p]) = base" using D(2) by (cases us) auto
  have lt: "p < bp" "base < bp" using p extent_ge(1) [of s p] D(8) [of p] by auto
  have seg: "lseg s base us p" "lseg s (uptr s p) vs base" using D(4) by (auto simp: lseg_append)
  have sizes: "\<forall>x \<in> set (tl (us @ p # vs)). 1 \<le> usize s x" using ok unfolding heap_ok_def by blast
  have out: "bp \<notin> set us" "bp \<notin> set vs" "bp \<noteq> p" using apart_before [OF D(5)] lt vs sz by fastforce+
  show ?thesis
  proof (cases "bp + 8 * usize s bp = uptr s p")
    case False
    define t where "t = set_ptr bp (uptr s p) s"
    have j: "free_join bp p s = link_block bp p t" using False by (simp add: free_join_def link_block_def t_def Let_def)
    have ex: "extent t = extent s" by (simp add: t_def extent_def [abs_def])
    have ac: "apart t zs = apart s zs" for zs by (rule apart_cong) (simp add: t_def)
    have lu: "lseg t base us p" "lseg t (uptr t bp) vs base"
      using seg out by (subst lseg_cong; auto simp: t_def)+
    have "\<exists>xs'. heap_ok base (link_block bp p t) xs' \<and> free_bytes (link_block bp p t) xs' = free_bytes t (us @ p # vs) \<union> {bp..<bp + 8 * usize t bp} \<and>
        brk (link_block bp p t) = brk t \<and> (\<exists>x \<in> set xs'. x \<le> bp \<and> bp + 8 * usize t bp \<le> x + 8 * usize (link_block bp p t) x)"
      by (rule link_block_ok) (use b D(3,5,6) sizes sz lu p vs br in \<open>auto simp: ac ex\<close>, auto simp: t_def)
    moreover have "free_bytes t (us @ p # vs) = free_bytes s (us @ p # vs)" "usize t bp = usize s bp" "brk t = brk s"
      by (simp_all add: free_bytes_def t_def)
    ultimately show ?thesis unfolding j by simp
  next
    case True
    then have "vs \<noteq> []" using nx lt by (auto split: if_splits)
    then obtain v ws where v: "vs = v # ws" by (cases vs) auto
    have vb: "bp + 8 * usize s bp = v" using True nx v by simp
    have vs1: "1 \<le> usize s v" using sizes v by (cases us) auto
    have nv: "lseg s (uptr s v) ws base" using seg(2) v by simp
    define t where "t = set_ptr bp (uptr s v) (set_size bp (usize s bp + usize s v) s)"
    have vn: "uptr s p = v" using nx v by simp
    have j: "free_join bp p s = link_block bp p t" using True by (simp add: free_join_def link_block_def t_def Let_def vn)
    have tt: "uptr t bp = uptr s v" "usize t bp = usize s bp + usize s v" "brk t = brk s" "usize t x = (if x = bp then usize s bp + usize s v else usize s x)"
      "uptr t x = (if x = bp then uptr s v else uptr s x)" "extent t x = (if x = bp then 8 * max 1 (usize s bp + usize s v) else extent s x)" for x
      by (simp_all add: t_def extent_def)
    have a: "apart s (us @ p # ws)" using D(5) v by (simp add: apart_append)
    have at: "apart t (us @ p # ws) = apart s (us @ p # ws)" using out v by (intro apart_cong) (auto simp: tt)
    have vw: "v + 8 * usize s v \<le> y" if "y \<in> set ws" for y using D(5) v that extent_ge(3) [OF vs1] by (auto simp: apart_append)
    have vbr: "v + 8 * usize s v \<le> brk s" using D(6) [of v] v extent_ge(3) [OF vs1] by simp
    have lu: "lseg t base us p" "lseg t (uptr t bp) ws base"
      using seg(1) nv out v by (subst lseg_cong; auto simp: tt)+
    have "\<exists>xs'. heap_ok base (link_block bp p t) xs' \<and> free_bytes (link_block bp p t) xs' = free_bytes t (us @ p # ws) \<union> {bp..<bp + 8 * usize t bp} \<and>
        brk (link_block bp p t) = brk t \<and> (\<exists>x \<in> set xs'. x \<le> bp \<and> bp + 8 * usize t bp \<le> x + 8 * usize (link_block bp p t) x)"
      (is "\<exists>xs'. ?Q xs'")
    proof (rule link_block_ok [OF b])
      show "usize t base = 0" using D(3) lt by (simp add: tt)
      show "\<forall>x \<in> set (tl (us @ p # ws)). 1 \<le> usize t x" using sizes out v by (cases us) (auto simp: tt)
      show "1 \<le> usize t bp" using sz by (simp add: tt)
      show "apart t (us @ p # ws)" using a at by simp
      show "\<forall>x \<in> set (us @ p # ws). x + extent t x \<le> brk t" using D(6) out v by (auto simp: tt)
      show "p + extent t p \<le> bp" using p out by (simp add: tt)
      show "\<forall>y \<in> set ws. bp + 8 * usize t bp \<le> y" using vw by (auto simp: tt vb [symmetric] add.assoc)
      show "bp + 8 * usize t bp \<le> brk t" using vbr vb by (simp add: tt)
    qed (fact lu)+
    then obtain xs' where Q: "?Q xs'" by blast
    have "free_bytes t (us @ p # ws) \<union> {bp..<bp + 8 * usize t bp} = free_bytes s (us @ p # vs) \<union> {bp..<bp + 8 * usize s bp}"
    proof -
      have "(\<Union>x \<in> set (us @ p # ws). {x..<x + 8 * usize t x}) = (\<Union>x \<in> set (us @ p # ws). {x..<x + 8 * usize s x})"
        by (rule SUP_cong) (use out v in \<open>auto simp: tt\<close>)
      moreover have "{bp..<bp + 8 * usize t bp} = {bp..<bp + 8 * usize s bp} \<union> {v..<v + 8 * usize s v}" using vb by (auto simp: tt)
      ultimately show ?thesis unfolding free_bytes_def v by auto
    qed
    moreover have "bp + 8 * usize s bp \<le> bp + 8 * usize t bp" by (simp add: tt)
    then have "\<exists>x \<in> set xs'. x \<le> bp \<and> bp + 8 * usize s bp \<le> x + 8 * usize (link_block bp p t) x" using Q le_trans by blast
    ultimately show ?thesis using Q unfolding j tt(3) by (intro exI [of _ xs']) simp
  qed
qed

text \<open>A block that \<^verbatim>\<open>free\<close> may be called on: its header is intact, and it overlaps no free block.\<close>

definition allocated :: "nat \<Rightarrow> uheap \<Rightarrow> nat list \<Rightarrow> nat \<Rightarrow> bool" where
  "allocated base s xs bp \<longleftrightarrow> base < bp \<and> 1 \<le> usize s bp \<and> bp + 8 * usize s bp \<le> brk s \<and>
     (\<forall>x \<in> set xs. x + extent s x \<le> bp \<or> bp + 8 * usize s bp \<le> x)"

lemma ufree_ok:
  assumes ok: "heap_ok base s xs" and al: "allocated base s xs bp"
  shows "\<exists>s' xs'. ufree (bp + 8) s = Inr s' \<and> heap_ok base s' xs' \<and> free_bytes s' xs' = free_bytes s xs \<union> {bp..<bp + 8 * usize s bp} \<and> brk s' = brk s \<and>
    (\<exists>x \<in> set xs'. x \<le> bp \<and> bp + 8 * usize s bp \<le> x + 8 * usize s' x)"
proof -
  have A: "base < bp" "1 \<le> usize s bp" "bp + 8 * usize s bp \<le> brk s" "\<forall>x \<in> set xs. x + extent s x \<le> bp \<or> bp + 8 * usize s bp \<le> x"
    using al unfolding allocated_def by blast+
  have n: "bp \<notin> set xs"
  proof
    assume "bp \<in> set xs"
    then have "bp + extent s bp \<le> bp \<or> bp + 8 * usize s bp \<le> bp" using A(4) by blast
    then show False using A(2) extent_ge(1) [of s bp] by linarith
  qed
  obtain us p vs where xs: "xs = us @ p # vs" and lt: "\<forall>x \<in> set (us @ [p]). x < bp" and gt: "\<forall>x \<in> set vs. bp < x"
    using split_at [OF ok A(1) n] by blast
  obtain f where f: "f \<in> set xs" "freep s = Some f" using heap_okD(7) [OF ok] by blast
  have "free_find s bp f = Some p" by (rule free_find_ok [OF ok xs lt gt A(1) f(1)])
  then have e: "ufree (bp + 8) s = Inr (free_join bp p s)" by (simp add: ufree_def f(2))
  have "p + extent s p \<le> bp"
  proof -
    have "p + extent s p \<le> bp \<or> bp + 8 * usize s bp \<le> p" using A(4) unfolding xs by simp
    moreover have "p < bp" using lt by simp
    ultimately show ?thesis by linarith
  qed
  moreover have "\<forall>y \<in> set vs. bp + 8 * usize s bp \<le> y"
  proof
    fix y
    assume y: "y \<in> set vs"
    then have "y + extent s y \<le> bp \<or> bp + 8 * usize s bp \<le> y" using A(4) unfolding xs by simp
    moreover have "bp < y" using gt y by blast
    ultimately show "bp + 8 * usize s bp \<le> y" by linarith
  qed
  ultimately show ?thesis using free_join_ok [of base s us p vs bp] ok A(2,3) e unfolding xs by auto
qed

section \<open>malloc takes a block\<close>

lemma pred_split:
  assumes "heap_ok base s xs" "q \<in> set xs" "uptr s q = y" "y \<noteq> base"
  shows "\<exists>us vs. xs = us @ q # y # vs"
proof -
  obtain us vs where xs: "xs = us @ q # vs" using assms(2) by (meson split_list)
  have "uptr s q = (if vs = [] then base else hd vs)" using heap_okD(4) [OF assms(1)] unfolding xs by (rule ring_next)
  then show ?thesis using assms(3,4) xs by (cases vs) auto
qed

text \<open>What \<^verbatim>\<open>malloc\<close> does to the heap when it returns the block with header \<open>q\<close>.\<close>

definition took :: "nat \<Rightarrow> nat \<Rightarrow> uheap \<Rightarrow> nat list \<Rightarrow> nat \<Rightarrow> uheap \<Rightarrow> bool" where
  "took base n s xs q s' \<longleftrightarrow> (\<exists>xs'. heap_ok base s' xs' \<and> allocated base s' xs' q \<and> usize s' q = n \<and> brk s' = brk s \<and>
     {q..<q + 8 * n} \<subseteq> free_bytes s xs \<and> free_bytes s' xs' = free_bytes s xs - {q..<q + 8 * n})"

lemma UN_Int_empty: "(\<And>x. x \<in> S \<Longrightarrow> f x \<inter> B = {}) \<Longrightarrow> (\<Union>x \<in> S. f x) \<inter> B = {}"
  by blast

lemma take_all:
  assumes ok: "heap_ok base s (us @ q # p # vs)" and n: "usize s p = n" "1 \<le> n"
  shows "took base n s (us @ q # p # vs) p ((set_ptr q (uptr s p) s)\<lparr>freep := Some q\<rparr>)"
proof -
  define t where "t = (set_ptr q (uptr s p) s)\<lparr>freep := Some q\<rparr>"
  have tt: "uptr t x = (if x = q then uptr s p else uptr s x)" "usize t x = usize s x" "extent t x = extent s x" "freep t = Some q" "brk t = brk s" for x
    by (simp_all add: t_def extent_def)
  note D = heap_okD [OF ok]
  have d: "distinct (us @ q # p # vs)" by (rule apart_distinct [OF D(5)])
  have ac: "apart t zs = apart s zs" for zs by (rule apart_cong) (simp add: tt)
  have seg: "lseg s base us q" "lseg s (uptr s p) vs base" using D(4) by (auto simp: lseg_append)
  have lt: "lseg t base us q" "lseg t (uptr s p) vs base" using seg d by (subst lseg_cong; auto simp: tt)+
  have "heap_ok base t (us @ q # vs)"
    unfolding heap_ok_def
  proof (intro conjI)
    show "hd (us @ q # vs) = base" using D(2) by (cases us) auto
    show "usize t base = 0" using D(3) by (simp add: tt)
    have "\<forall>x \<in> set (tl (us @ q # p # vs)). 1 \<le> usize s x" using ok unfolding heap_ok_def by blast
    then show "\<forall>x \<in> set (tl (us @ q # vs)). 1 \<le> usize t x" unfolding tt(2) by (cases us) auto
    show "lseg t base (us @ q # vs) base" using lt by (auto simp: lseg_append tt)
    have "apart s (us @ q # vs)" using D(5) by (simp add: apart_append)
    then show "apart t (us @ q # vs)" using ac by blast
    show "\<forall>x \<in> set (us @ q # vs). x + extent t x \<le> brk t" using D(6) by (auto simp: tt)
    show "\<exists>f \<in> set (us @ q # vs). freep t = Some f" by (simp add: tt)
  qed simp
  then have ok': "heap_ok base t (us @ q # vs)" .
  have pe: "extent s p = 8 * n" using extent_ge(3) [of s p] n by simp
  have us: "x + extent s x \<le> p" if "x \<in> set (us @ [q])" for x using D(5) that by (auto simp: apart_append)
  have vs: "p + 8 * n \<le> y" if "y \<in> set vs" for y using D(5) pe that by (auto simp: apart_append)
  have bp: "base < p"
  proof -
    have "base \<in> set (us @ [q])" using D(2) by (cases us) auto
    then show ?thesis using us [of base] extent_ge(1) [of s base] by simp
  qed
  have br: "p + 8 * n \<le> brk s" using D(6) [of p] pe by simp
  have al: "allocated base t (us @ q # vs) p"
  proof -
    have "x + extent t x \<le> p \<or> p + 8 * n \<le> x" if "x \<in> set (us @ q # vs)" for x
      using that us [of x] vs [of x] unfolding tt(3) by (cases "x \<in> set vs") auto
    then show ?thesis unfolding allocated_def tt(2,5) n(1) using bp n(2) br by blast
  qed
  have sub: "{p..<p + 8 * n} \<subseteq> free_bytes s (us @ q # p # vs)" using n by (auto simp: free_bytes_def)
  have fb: "free_bytes t (us @ q # vs) = free_bytes s (us @ q # p # vs) - {p..<p + 8 * n}"
  proof -
    have dis: "{x..<x + 8 * usize s x} \<inter> {p..<p + 8 * n} = {}" if "x \<in> set (us @ [q]) \<union> set vs" for x
      using that
    proof
      assume "x \<in> set (us @ [q])"
      then have "x + 8 * usize s x \<le> p" using us extent_ge(2) [of s x] by fastforce
      then show ?thesis by auto
    next
      assume "x \<in> set vs"
      then show ?thesis using vs by fastforce
    qed
    define A where "A = (\<Union>x \<in> set (us @ [q]) \<union> set vs. {x..<x + 8 * usize s x})"
    have "A \<inter> {p..<p + 8 * n} = {}" unfolding A_def by (rule UN_Int_empty) (rule dis)
    moreover have "set (us @ q # p # vs) = insert p (set (us @ [q]) \<union> set vs)" "set (us @ q # vs) = set (us @ [q]) \<union> set vs" by auto
    then have "free_bytes s (us @ q # p # vs) = {p..<p + 8 * n} \<union> A" "free_bytes t (us @ q # vs) = A"
      unfolding free_bytes_def A_def tt(2) by (simp_all only: UN_insert n(1))
    ultimately show ?thesis by (simp add: Un_Diff Diff_triv)
  qed
  show ?thesis unfolding took_def t_def [symmetric] by (intro exI [of _ "us @ q # vs"] conjI ok' al sub fb) (simp_all add: tt n)
qed

lemma take_tail:
  assumes ok: "heap_ok base s (us @ p # vs)" and n: "n < usize s p" "1 \<le> n" and q: "q \<in> set (us @ p # vs)"
    and h: "h = p + 8 * (usize s p - n)"
  shows "took base n s (us @ p # vs) h ((set_size h n (set_size p (usize s p - n) s))\<lparr>freep := Some q\<rparr>)"
proof -
  define t where "t = (set_size h n (set_size p (usize s p - n) s))\<lparr>freep := Some q\<rparr>"
  define k where "k = usize s p - n"
  have k: "1 \<le> k" "usize s p = k + n" "h = p + 8 * k" using n h by (simp_all add: k_def)
  have tt: "uptr t x = uptr s x" "usize t x = (if x = h then n else if x = p then k else usize s x)" "freep t = Some q" "brk t = brk s" for x
    by (simp_all add: t_def k_def)
  note D = heap_okD [OF ok]
  have pb: "p \<noteq> base" using D(3) n by auto
  have pe: "extent s p = 8 * k + 8 * n" using extent_ge(3) [of s p] n k(2) by simp
  have us: "x + extent s x \<le> p" if "x \<in> set us" for x using D(5) that by (auto simp: apart_append)
  have vs: "h + 8 * n \<le> y" if "y \<in> set vs" for y using D(5) pe k(3) that by (auto simp: apart_append)
  have out: "h \<notin> set us" "h \<notin> set vs" "p \<notin> set us" "p \<notin> set vs" "h \<noteq> p"
    using us vs k(1,3) n(2) extent_ge(1) [of s h] apart_distinct [OF D(5)] by fastforce+
  have ex: "extent t x = (if x = h then 8 * n else if x = p then 8 * k else extent s x)" for x
    using n k(1) out(5) by (auto simp: extent_def tt max_def)
  have au: "apart t us" "apart t vs" using D(5) out by (subst apart_cong; auto simp: tt apart_append)+
  have br: "h + 8 * n \<le> brk s" using D(6) [of p] pe k(3) by simp
  have "heap_ok base t (us @ p # vs)"
    unfolding heap_ok_def
  proof (intro conjI)
    show "hd (us @ p # vs) = base" by (fact D(2))
    show "usize t base = 0" using D(3) pb k(1,3) D(8) [of p] by (auto simp: tt)
    have "\<forall>x \<in> set (tl (us @ p # vs)). 1 \<le> usize s x" using ok unfolding heap_ok_def by blast
    then show "\<forall>x \<in> set (tl (us @ p # vs)). 1 \<le> usize t x" using n(2) k(1) by (simp add: tt)
    show "lseg t base (us @ p # vs) base" using D(4) by (subst lseg_cong) (simp_all add: tt)
    have "\<forall>y \<in> set vs. x + extent s x \<le> y" if "x \<in> set us" for x using D(5) that by (auto simp: apart_append)
    moreover have e: "extent t x = extent s x" if "x \<in> set us \<union> set vs" for x using that out unfolding ex by auto
    moreover have ep: "p + extent t p = h" using out(5) k(3) unfolding ex by simp
    moreover have "h \<le> y" if "y \<in> set vs" for y using vs [OF that] by simp
    ultimately show "apart t (us @ p # vs)" using au us unfolding apart_append by auto
    show "\<forall>x \<in> set (us @ p # vs). x + extent t x \<le> brk t"
    proof
      fix x
      assume x: "x \<in> set (us @ p # vs)"
      show "x + extent t x \<le> brk t"
      proof (cases "x = p")
        case True
        then show ?thesis using ep br by (simp add: tt)
      next
        case False
        then show ?thesis using D(6) [OF x] e [of x] x by (simp add: tt)
      qed
    qed
    show "\<exists>f \<in> set (us @ p # vs). freep t = Some f" using q by (simp add: tt)
  qed simp
  moreover have "allocated base t (us @ p # vs) h"
  proof -
    have "x + extent t x \<le> h" if "x \<in> set (us @ [p])" for x using that us out k(3) by (fastforce simp: ex)
    moreover have "base < h" using D(8) [of p] k(1,3) by simp
    ultimately show ?thesis unfolding allocated_def using vs n(2) br by (auto simp: tt)
  qed
  moreover have pbytes: "{p..<p + 8 * usize s p} = {p..<p + 8 * k} \<union> {h..<h + 8 * n}" using k(2,3) by auto
  then have "{h..<h + 8 * n} \<subseteq> free_bytes s (us @ p # vs)" by (auto simp: free_bytes_def)
  moreover have "free_bytes t (us @ p # vs) = free_bytes s (us @ p # vs) - {h..<h + 8 * n}"
  proof -
    have same: "(\<Union>x \<in> set us \<union> set vs. {x..<x + 8 * usize t x}) = (\<Union>x \<in> set us \<union> set vs. {x..<x + 8 * usize s x})"
      by (rule SUP_cong) (use out in \<open>auto simp: tt\<close>)
    have dis: "{x..<x + 8 * usize s x} \<inter> {h..<h + 8 * n} = {}" if "x \<in> set us \<union> set vs" for x
      using that
    proof
      assume "x \<in> set us"
      then have "x + 8 * usize s x \<le> h" using us extent_ge(2) [of s x] k(3) by fastforce
      then show ?thesis by auto
    next
      assume "x \<in> set vs"
      then show ?thesis using vs by fastforce
    qed
    define A where "A = (\<Union>x \<in> set us \<union> set vs. {x..<x + 8 * usize s x})"
    have "A \<inter> {h..<h + 8 * n} = {}" unfolding A_def by (rule UN_Int_empty) (rule dis)
    moreover have "set (us @ p # vs) = insert p (set us \<union> set vs)" by auto
    then have "free_bytes s (us @ p # vs) = {p..<p + 8 * usize s p} \<union> A" "free_bytes t (us @ p # vs) = {p..<p + 8 * usize t p} \<union> A"
      unfolding free_bytes_def A_def same [symmetric] by (simp_all only: UN_insert same)
    moreover have "usize t p = k" using out(5) by (simp add: tt)
    moreover have "{p..<p + 8 * k} \<inter> {h..<h + 8 * n} = {}" using k(3) by auto
    ultimately show ?thesis unfolding pbytes by (simp add: Un_Diff Diff_triv)
  qed
  ultimately show ?thesis unfolding took_def t_def [symmetric] using tt by auto
qed

text \<open>The walk of \<^verbatim>\<open>malloc\<close> around the ring, which ends at \<^verbatim>\<open>freep\<close>: it finds the first fitting block or asks for more.\<close>

lemma malloc_walk_fit:
  assumes "lseg s a ys z" "\<exists>y \<in> set ys. n \<le> usize s y" "\<forall>y \<in> set (butlast ys). freep s \<noteq> Some y"
  shows "\<exists>us y vs. ys = us @ y # vs \<and> n \<le> usize s y \<and>
    malloc_loop lim n prev a s = Some (Inr (apfst Some (malloc_take n (last (prev # us)) y s)))"
  using assms
proof (induction ys arbitrary: a prev)
  case (Cons y ys)
  have a: "a = y" "lseg s (uptr s y) ys z" using Cons.prems(1) by simp_all
  show ?case
  proof (cases "n \<le> usize s y")
    case True
    then have "malloc_loop lim n prev a s = Some (Inr (apfst Some (malloc_take n prev y s)))"
      unfolding a(1) by (simp add: malloc_loop.simps [of lim n prev y s])
    then show ?thesis using True by (intro exI [of _ "[]"]) auto
  next
    case False
    then have r: "\<exists>y \<in> set ys. n \<le> usize s y" using Cons.prems(2) by auto
    then have "ys \<noteq> []" by auto
    then have f: "freep s \<noteq> Some y" "\<forall>y \<in> set (butlast ys). freep s \<noteq> Some y" using Cons.prems(3) by auto
    obtain us x vs where h: "ys = us @ x # vs" "n \<le> usize s x"
      "malloc_loop lim n y (uptr s y) s = Some (Inr (apfst Some (malloc_take n (last (y # us)) x s)))"
      using Cons.IH [OF a(2) r f(2), of y] by blast
    have "malloc_loop lim n prev a s = malloc_loop lim n y (uptr s y) s"
      unfolding a(1) using False f(1) by (subst malloc_loop.simps) auto
    then show ?thesis using h by (intro exI [of _ "y # us"]) auto
  qed
qed simp

lemma malloc_walk_none:
  assumes "lseg s a (ys @ [f]) z" "\<forall>y \<in> set (ys @ [f]). usize s y < n" "\<forall>y \<in> set ys. freep s \<noteq> Some y" "freep s = Some f"
  shows "malloc_loop lim n prev a s =
    (case morecore lim n s of
       Inl e \<Rightarrow> Some (Inl e)
     | Inr (None, s) \<Rightarrow> Some (Inr (None, s))
     | Inr (Some p, s) \<Rightarrow> malloc_loop lim n p (uptr s p) s)"
  using assms
proof (induction ys arbitrary: a prev)
  case Nil
  then show ?case by (subst malloc_loop.simps) simp
next
  case (Cons y ys)
  have a: "a = y" "lseg s (uptr s y) (ys @ [f]) z" using Cons.prems(1) by simp_all
  have "malloc_loop lim n prev a s = malloc_loop lim n y (uptr s y) s"
    unfolding a(1) using Cons.prems(2,3) by (subst malloc_loop.simps) auto
  then show ?case using Cons.IH [OF a(2)] Cons.prems by simp
qed

text \<open>The ring seen from a block \<open>f\<close>.\<close>

lemma ring_from:
  assumes "heap_ok base s xs" "f \<in> set xs"
  shows "\<exists>ys. lseg s (uptr s f) (ys @ [f]) (uptr s f) \<and> set (ys @ [f]) = set xs \<and> f \<notin> set ys"
proof -
  obtain us vs where xs: "xs = us @ f # vs" using assms(2) by (meson split_list)
  note D = heap_okD [OF assms(1)]
  have "lseg s base us f" "lseg s (uptr s f) vs base" using D(4) unfolding xs by (auto simp: lseg_append)
  then have "lseg s (uptr s f) ((vs @ us) @ [f]) (uptr s f)" by (auto simp: lseg_append)
  moreover have "f \<notin> set (vs @ us)" using apart_distinct [OF D(5)] unfolding xs by auto
  ultimately show ?thesis unfolding xs by (intro exI [of _ "vs @ us"]) auto
qed

lemma lseg_last: "lseg s a (us @ y # vs) z \<Longrightarrow> uptr s f = a \<Longrightarrow> uptr s (last (f # us)) = y"
proof (induction us arbitrary: a f)
  case (Cons u us)
  then show ?case using Cons.IH [of "uptr s u" u] by auto
qed simp

lemma malloc_fit:
  assumes ok: "heap_ok base s xs" and f: "freep s = Some f" and n: "1 \<le> n" and fit: "\<exists>x \<in> set xs. n \<le> usize s x"
  shows "\<exists>q s'. malloc_loop lim n f (uptr s f) s = Some (Inr (Some (q + 8), s')) \<and> took base n s xs q s'"
proof -
  note D = heap_okD [OF ok]
  have fx: "f \<in> set xs" using D(7) f by auto
  obtain ys where ys: "lseg s (uptr s f) (ys @ [f]) (uptr s f)" "set (ys @ [f]) = set xs" "f \<notin> set ys"
    using ring_from [OF ok fx] by blast
  have "\<exists>y \<in> set (ys @ [f]). n \<le> usize s y" "\<forall>y \<in> set (butlast (ys @ [f])). freep s \<noteq> Some y" using fit ys(2,3) f by auto
  then obtain us y vs where w: "ys @ [f] = us @ y # vs" "n \<le> usize s y"
    "malloc_loop lim n f (uptr s f) s = Some (Inr (apfst Some (malloc_take n (last (f # us)) y s)))"
    using malloc_walk_fit [OF ys(1), of n lim f] by blast
  define q where "q = last (f # us)"
  have "set us \<subseteq> set xs" "y \<in> set xs" using ys(2) w(1) by (metis Un_iff set_append subsetI, metis in_set_conv_decomp)
  then have q: "q \<in> set xs" using fx unfolding q_def by (cases "us = []") auto
  have "lseg s (uptr s f) (us @ y # vs) (uptr s f)" using ys(1) w(1) by simp
  then have qy: "uptr s q = y" unfolding q_def by (rule lseg_last) (rule refl)
  have yb: "y \<noteq> base" using w(2) n D(3) by auto
  obtain as cs where xs: "xs = as @ q # y # cs" using pred_split [OF ok q qy yb] by blast
  show ?thesis
  proof (cases "usize s y = n")
    case True
    then have "malloc_take n q y s = (y + 8, (set_ptr q (uptr s y) s)\<lparr>freep := Some q\<rparr>)" by (simp add: malloc_take_def)
    moreover have "took base n s xs y ((set_ptr q (uptr s y) s)\<lparr>freep := Some q\<rparr>)" unfolding xs using take_all ok n True unfolding xs by blast
    ultimately show ?thesis using w(3) unfolding q_def [symmetric] by auto
  next
    case False
    define h where "h = y + 8 * (usize s y - n)"
    have "malloc_take n q y s = (h + 8, (set_size h n (set_size y (usize s y - n) s))\<lparr>freep := Some q\<rparr>)"
      using False by (simp add: malloc_take_def h_def Let_def)
    moreover have "took base n s ((as @ [q]) @ y # cs) h ((set_size h n (set_size y (usize s y - n) s))\<lparr>freep := Some q\<rparr>)"
      by (rule take_tail) (use ok xs w(2) False n h_def in auto)
    ultimately show ?thesis using w(3) unfolding q_def [symmetric] xs by auto
  qed
qed

lemma usbrk_grow:
  assumes "8 * nu < 2 ^ 31"
  shows "usbrk lim (of_nat nu * 8) s = (if brk s + 8 * nu \<le> lim then (Some (brk s), s\<lparr>brk := brk s + 8 * nu\<rparr>) else (None, s))"
proof -
  have w: "(of_nat nu * 8 :: u32) = word_of_int (int (8 * nu))" by (simp add: mult.commute)
  have "sint (of_nat nu * 8 :: u32) = int (8 * nu)"
    unfolding w by (rule sint_small) (use assms in simp_all)
  then show ?thesis by (auto simp: usbrk_def Let_def nat_add_distrib)
qed

lemma heap_ok_cong:
  assumes "heap_ok base s xs" "\<forall>x \<in> set xs. hdr s' x = hdr s x" "freep s' = freep s" "brk s \<le> brk s'"
  shows "heap_ok base s' xs" "free_bytes s' xs = free_bytes s xs"
proof -
  have e: "extent s' x = extent s x" "usize s' x = usize s x" "uptr s' x = uptr s x" if "x \<in> set xs" for x
    using assms(2) that by (simp_all add: extent_def)
  have b: "base \<in> set xs" using heap_okD(1,2) [OF assms(1)] by (cases xs) auto
  have l: "lseg s' base xs base = lseg s base xs base" by (rule lseg_cong) (rule e)
  have a: "apart s' xs = apart s xs" by (rule apart_cong) (rule e)
  have t: "x \<in> set (tl xs) \<Longrightarrow> x \<in> set xs" for x by (cases xs) auto
  have br: "\<forall>x \<in> set xs. x + extent s' x \<le> brk s'" using heap_okD(6) [OF assms(1)] assms(4) e(1) by fastforce
  show "heap_ok base s' xs"
    using assms(1,3) b br e t unfolding heap_ok_def l a by simp
  show "free_bytes s' xs = free_bytes s xs" unfolding free_bytes_def using e by simp
qed

lemma morecore_ok:
  assumes ok: "heap_ok base s xs" and n: "1 \<le> n" "8 * max 4096 n < 2 ^ 31" and fits: "brk s + 8 * max 4096 n \<le> lim"
  shows "\<exists>f s' xs'. morecore lim n s = Inr (Some f, s') \<and> freep s' = Some f \<and> heap_ok base s' xs' \<and> brk s' = brk s + 8 * max 4096 n \<and>
    free_bytes s' xs' = free_bytes s xs \<union> {brk s..<brk s'} \<and> (\<exists>x \<in> set xs'. n \<le> usize s' x)"
proof -
  define nu where "nu = max 4096 n"
  define t where "t = set_size (brk s) nu (s\<lparr>brk := brk s + 8 * nu\<rparr>)"
  note D = heap_okD [OF ok]
  have below: "x + extent s x \<le> brk s" if "x \<in> set xs" for x using D(6) [OF that] .
  have out: "brk s \<notin> set xs"
  proof
    assume "brk s \<in> set xs"
    then show False using below [of "brk s"] extent_ge(1) [of s "brk s"] by simp
  qed
  have h: "\<forall>x \<in> set xs. hdr t x = hdr s x" using out by (auto simp: t_def set_size_def)
  have tt: "freep t = freep s" "brk t = brk s + 8 * nu" "usize t (brk s) = nu" by (simp_all add: t_def)
  have ok': "heap_ok base t xs" "free_bytes t xs = free_bytes s xs" using heap_ok_cong [OF ok h] tt by simp_all
  have et: "extent t x = extent s x" if "x \<in> set xs" for x using h that by (simp add: extent_def)
  have "base \<in> set xs" using D(1,2) by (cases xs) auto
  then have "base < brk s" using below [of base] extent_ge(1) [of s base] by simp
  moreover have "\<forall>x \<in> set xs. x + extent t x \<le> brk s" using below et by simp
  ultimately have al: "allocated base t xs (brk s)" unfolding allocated_def tt by (simp add: nu_def)
  obtain s' xs' where u: "ufree (brk s + 8) t = Inr s'" "heap_ok base s' xs'" "free_bytes s' xs' = free_bytes t xs \<union> {brk s..<brk s + 8 * usize t (brk s)}"
    "brk s' = brk t" "\<exists>x \<in> set xs'. x \<le> brk s \<and> brk s + 8 * usize t (brk s) \<le> x + 8 * usize s' x"
    using ufree_ok [OF ok'(1) al] by blast
  obtain f where f: "freep s' = Some f" using heap_okD(7) [OF u(2)] by blast
  have nu: "8 * nu < 2 ^ 31" "(if n < 4096 then 4096 else n) = nu" using n(2) by (simp_all add: nu_def max_def)
  have "usbrk lim (of_nat nu * 8) s = (Some (brk s), s\<lparr>brk := brk s + 8 * nu\<rparr>)"
    unfolding usbrk_grow [OF nu(1)] using fits by (simp add: nu_def)
  then have "morecore lim n s = Inr (Some f, s')"
    unfolding morecore_def Let_def nu(2) by (simp add: t_def [symmetric] u(1) f)
  moreover have "\<exists>x \<in> set xs'. n \<le> usize s' x"
  proof -
    obtain x where x: "x \<in> set xs'" "x \<le> brk s" "brk s + 8 * nu \<le> x + 8 * usize s' x" using u(5) unfolding tt by blast
    then have "nu \<le> usize s' x" by linarith
    then show ?thesis using x(1) unfolding nu_def by auto
  qed
  ultimately show ?thesis using f u(2-4) unfolding ok'(2) tt nu_def by auto
qed

lemma malloc_units_enough:
  assumes "unat nbytes < 2 ^ 27"
  shows "unat nbytes + 8 \<le> 8 * malloc_units nbytes" "1 \<le> malloc_units nbytes" "8 * max 4096 (malloc_units nbytes) < 2 ^ 31"
proof -
  have a: "unat (nbytes + 7) = unat nbytes + 7" using assms by (subst unat_add_lem [THEN iffD1]) simp_all
  have "unat ((nbytes + 7) div 8) = (unat nbytes + 7) div 8" by (simp add: unat_div a)
  moreover have "(unat nbytes + 7) div 8 + 1 < 2 ^ 32" using assms by simp
  ultimately have "unat ((nbytes + 7) div 8 + 1) = (unat nbytes + 7) div 8 + 1" by (subst unat_add_lem [THEN iffD1]) simp_all
  moreover have "nbytes + 8 - 1 = nbytes + 7" by simp
  ultimately have u: "malloc_units nbytes = (unat nbytes + 7) div 8 + 1" unfolding malloc_units_def by (simp only:)
  have d: "unat nbytes \<le> 8 * ((unat nbytes + 7) div 8)"
    using mult_div_mod_eq [of 8 "unat nbytes + 7"] mod_less_divisor [of 8 "unat nbytes + 7"] by linarith
  then show "unat nbytes + 8 \<le> 8 * malloc_units nbytes" unfolding u by simp
  show "1 \<le> malloc_units nbytes" unfolding u by simp
  show "8 * max 4096 (malloc_units nbytes) < 2 ^ 31" unfolding u using assms by simp
qed

text \<open>C6. On a well-formed heap every \<^verbatim>\<open>malloc\<close> of less than 128 MB returns. It fails only if no free block is large enough and
  the process cannot grow, and then the free memory is as before. Otherwise the returned block is large enough for its header and the
  request, it lies in the memory that was free or was just added at the end of the process, the rest of that memory stays free, and the
  free blocks stay a well-formed ring in address order; \<^verbatim>\<open>free\<close> of the block then returns and makes exactly its bytes free again.\<close>

theorem malloc_free:
  fixes base :: nat and nbytes :: u32 and s :: uheap
  defines "s0 \<equiv> malloc_start base s" and "n \<equiv> malloc_units nbytes"
  assumes ok: "heap_ok base s0 xs" and small: "unat nbytes < 2 ^ 27"
  shows "\<exists>r s' xs'. malloc lim base nbytes s = Inr (r, s') \<and> heap_ok base s' xs' \<and>
    (case r of
       None \<Rightarrow> free_bytes s' xs' = free_bytes s0 xs \<and> (\<forall>x \<in> set xs. usize s0 x < n) \<and> lim < brk s0 + 8 * max 4096 n
     | Some ap \<Rightarrow>
         let block = {ap - 8..<ap - 8 + 8 * n}; memory = free_bytes s0 xs \<union> {brk s0..<brk s'}
         in 8 \<le> ap \<and> unat nbytes + 8 \<le> 8 * n \<and> block \<subseteq> memory \<and> free_bytes s' xs' = memory - block \<and>
            (\<exists>s'' xs''. ufree ap s' = Inr s'' \<and> heap_ok base s'' xs'' \<and> free_bytes s'' xs'' = memory))"
proof -
  note u = malloc_units_enough [OF small, folded n_def]
  obtain f where f: "f \<in> set xs" "freep s0 = Some f" using heap_okD(7) [OF ok] by blast
  have m: "malloc lim base nbytes s = (case malloc_loop lim n f (uptr s0 f) s0 of None \<Rightarrow> Inl Spin | Some r \<Rightarrow> r)"
    by (simp add: malloc_def s0_def [symmetric] n_def [symmetric] f(2) Let_def)
  have good: ?thesis if r: "malloc_loop lim n f (uptr s0 f) s0 = Some (Inr (Some (q + 8), s'))" and t: "took base n s1 xs1 q s'"
    and mem: "free_bytes s1 xs1 = free_bytes s0 xs \<union> {brk s0..<brk s1}" for q s' s1 xs1
  proof -
    obtain xs' where T: "heap_ok base s' xs'" "allocated base s' xs' q" "usize s' q = n" "brk s' = brk s1" "{q..<q + 8 * n} \<subseteq> free_bytes s1 xs1"
      "free_bytes s' xs' = free_bytes s1 xs1 - {q..<q + 8 * n}" using t unfolding took_def by blast
    obtain s'' xs'' where F: "ufree (q + 8) s' = Inr s''" "heap_ok base s'' xs''" "free_bytes s'' xs'' = free_bytes s' xs' \<union> {q..<q + 8 * n}"
      using ufree_ok [OF T(1,2)] unfolding T(3) by blast
    have all: "free_bytes s'' xs'' = free_bytes s1 xs1" using F(3) T(5,6) by auto
    have e: "malloc lim base nbytes s = Inr (Some (q + 8), s')" unfolding m r by simp
    show ?thesis
      by (rule exI [of _ "Some (q + 8)"], rule exI [of _ s'], rule exI [of _ xs'])
        (use e T F(1,2) all u(1) in \<open>auto simp: Let_def T(4) mem [symmetric]\<close>)
  qed
  show ?thesis
  proof (cases "\<exists>x \<in> set xs. n \<le> usize s0 x")
    case True
    obtain q s' where "malloc_loop lim n f (uptr s0 f) s0 = Some (Inr (Some (q + 8), s'))" "took base n s0 xs q s'"
      using malloc_fit [OF ok f(2) u(2) True] by blast
    then show ?thesis by (rule good) simp
  next
    case False
    then have no: "\<forall>x \<in> set xs. usize s0 x < n" by auto
    obtain ys where ys: "lseg s0 (uptr s0 f) (ys @ [f]) (uptr s0 f)" "set (ys @ [f]) = set xs" "f \<notin> set ys" using ring_from [OF ok f(1)] by blast
    have loop: "malloc_loop lim n f (uptr s0 f) s0 = (case morecore lim n s0 of Inl e \<Rightarrow> Some (Inl e) | Inr (None, s) \<Rightarrow> Some (Inr (None, s))
        | Inr (Some p, s) \<Rightarrow> malloc_loop lim n p (uptr s p) s)"
      by (rule malloc_walk_none [OF ys(1)]) (use no ys(2,3) f(2) in auto)
    show ?thesis
    proof (cases "brk s0 + 8 * max 4096 n \<le> lim")
      case True
      obtain g s1 xs1 where M: "morecore lim n s0 = Inr (Some g, s1)" "freep s1 = Some g" "heap_ok base s1 xs1"
        "free_bytes s1 xs1 = free_bytes s0 xs \<union> {brk s0..<brk s1}" "\<exists>x \<in> set xs1. n \<le> usize s1 x"
        using morecore_ok [OF ok u(2,3) True] by blast
      obtain q s' where Q: "malloc_loop lim n g (uptr s1 g) s1 = Some (Inr (Some (q + 8), s'))" "took base n s1 xs1 q s'"
        using malloc_fit [OF M(3,2) u(2) M(5)] by blast
      have "malloc_loop lim n f (uptr s0 f) s0 = Some (Inr (Some (q + 8), s'))" unfolding loop by (simp add: M(1) Q(1))
      then show ?thesis using Q(2) M(4) by (rule good)
    next
      case big: False
      have "(if n < 4096 then 4096 else n) = max 4096 n" by (simp add: max_def)
      then have "morecore lim n s0 = Inr (None, s0)" unfolding morecore_def Let_def using usbrk_grow [OF u(3)] big by simp
      then have "malloc lim base nbytes s = Inr (None, s0)" unfolding m loop by simp
      then show ?thesis using ok no big by (intro exI [of _ None] exI [of _ s0] exI [of _ xs]) auto
    qed
  qed
qed

text \<open>The first allocation of a process.\<close>

definition fresh_heap :: uheap where
  "fresh_heap = \<lparr>hdr = (\<lambda>_. \<lparr>hptr = 0, hsize = 0\<rparr>), freep = None, brk = 12288\<rparr>"

lemma fresh_heap_ok: "heap_ok 4000 (malloc_start 4000 fresh_heap) [4000]"
  by (simp add: heap_ok_def malloc_start_def fresh_heap_def extent_def set_size_def set_ptr_def)

theorem malloc_free_witness:
  "\<exists>ap s' s''. malloc 100000 4000 100 fresh_heap = Inr (Some ap, s') \<and> 12288 \<le> ap - 8 \<and> ufree ap s' = Inr s''"
proof -
  let ?s0 = "malloc_start 4000 fresh_heap"
  have n: "malloc_units 100 = 14" by (simp add: malloc_units_def)
  have s0: "brk ?s0 = 12288" "usize ?s0 4000 = 0" by (simp_all add: malloc_start_def fresh_heap_def)
  have fb: "free_bytes ?s0 [4000] = {}" by (simp add: free_bytes_def s0)
  have small: "unat (100 :: u32) < 2 ^ 27" by simp
  obtain r s' xs' where *: "malloc 100000 4000 100 fresh_heap = Inr (r, s')" and
    **: "case r of None \<Rightarrow> free_bytes s' xs' = free_bytes ?s0 [4000] \<and> (\<forall>x \<in> set [4000]. usize ?s0 x < malloc_units 100) \<and>
         100000 < brk ?s0 + 8 * max 4096 (malloc_units 100)
     | Some ap \<Rightarrow> let block = {ap - 8..<ap - 8 + 8 * malloc_units 100}; memory = free_bytes ?s0 [4000] \<union> {brk ?s0..<brk s'}
         in 8 \<le> ap \<and> unat (100 :: u32) + 8 \<le> 8 * malloc_units 100 \<and> block \<subseteq> memory \<and> free_bytes s' xs' = memory - block \<and>
            (\<exists>s'' xs''. ufree ap s' = Inr s'' \<and> heap_ok 4000 s'' xs'' \<and> free_bytes s'' xs'' = memory)"
    using malloc_free [OF fresh_heap_ok small, of 100000] by blast
  show ?thesis
  proof (cases r)
    case None
    then show ?thesis using ** by (simp add: n s0)
  next
    case (Some ap)
    have b: "{ap - 8..<ap - 8 + 112} \<subseteq> {12288..<brk s'}" "\<exists>s''. ufree ap s' = Inr s''" using ** unfolding Some Let_def fb s0 n by auto
    have "ap - 8 \<in> {ap - 8..<ap - 8 + 112}" by simp
    then have "12288 \<le> ap - 8" using b(1) by fastforce
    then show ?thesis using * b(2) unfolding Some by blast
  qed
qed

text \<open>The rounding of a request wraps: a request for almost all of the address space gets one unit, a bare header.\<close>

lemma malloc_units_wrap: "malloc_units 0xFFFFFFFF = 1"
  by (simp add: malloc_units_def)

end
