(* ===== verification/Spec2Isabelle.thy ===== *)
theory Spec2Isabelle
  imports ShmProps BioList MkfsProps Printf Trap Grep Shell Umalloc
begin

text \<open>
  A verification development for the MSBOSS kernel, an xv6 derivative with shared memory,
  mutexes with condition variables, a priority scheduler and a file-system server.
\<close>

end
